(* ===== verification/Mesh_Prelude.thy ===== *)
theory Mesh_Prelude
  imports Complex_Main "HOL-Library.AList" "HOL-Library.Char_ord" "HOL-Library.List_Lexorder"
    "HOL-Library.Multiset"
begin

text \<open>
  The vocabulary shared by the component theories: the Python values the code works with
  (floats as exact rationals, strings as lists of code points below 256, dictionaries as
  insertion-ordered association lists), the exceptions of the package, the outcome of an
  operation that may raise after it has changed the state, the library functions the sources
  call (\<open>str.strip\<close>, \<open>str.lower\<close>, \<open>min\<close>/\<open>max\<close> with a key, slices), and two
  locales: \<open>inv_system\<close> lifts a one-step invariant to runs, \<open>keyed_store\<close> is the
  contract of a registry.
\<close>

section \<open>Python values\<close>

type_synonym pyfloat = rat
type_synonym timestamp = rat
type_synonym ('k, 'v) dict = "('k \<times> 'v) list"

text \<open>
  The exceptions the package raises. The argument of \<open>ValueError\<close> and \<open>TypeError\<close> names
  the offending parameter; that of the others is the value the message quotes.
  \<open>BaseExc\<close> stands for an exception outside the \<open>Exception\<close> class (\<open>KeyboardInterrupt\<close>,
  \<open>asyncio.CancelledError\<close>), which an \<open>except Exception\<close> clause does not catch.
\<close>

datatype exn =
    ValueError string
  | TypeError string
  | KeyError string
  | AppError string
  | BaseExc string
  | CircuitBreakerOpenError string
  | AgentNotFoundError string
  | AgentAlreadyRegisteredError string
  | AgentNodeNotFoundError string
  | QuotaViolation string string rat rat rat
  | QueueFullError
  | QueueEmptyError
  | NoRouteFoundError string
  | NoHealthyEndpointError
  | RecursionError
  | YAMLParseError string
  | YAMLValidationError string
  | PluginNotFoundError string
  | PluginAlreadyRegisteredError string
  | AgentCardError string
  | AttributeError string
  | ApiException int
  | ConfigException
  | PermanentError string
  | FileNotFoundError string
  | OSError string
  | YAMLError string
  | YAMLWorkflowError string
  | ImportError string
  | HttpTransportError string
  | KafkaTransportError string
  | RedisTransportError string
  | RetryExhaustedError int exn
  | TaskNotFoundError string
  | InvalidTaskTransitionError string
  | ZeroDivisionError

text \<open>
  What an operation leaves behind: the state at the point where it returned or raised, and
  the result or the exception. The state is part of the outcome on both branches, because
  Python keeps the mutations made before a \<open>raise\<close>.
\<close>

type_synonym ('s, 'a) outcome = "'s \<times> (exn + 'a)"

text \<open>One evaluation after another, the first exception ending the sequence.\<close>

fun and_then :: "exn + 'a \<Rightarrow> ('a \<Rightarrow> exn + 'b) \<Rightarrow> exn + 'b" where
  "and_then (Inl x) f = Inl x"
| "and_then (Inr v) f = f v"

lemma and_then_cong [fundef_cong]:
  "x = y \<Longrightarrow> (\<And>v. y = Inr v \<Longrightarrow> f v = g v) \<Longrightarrow> and_then x f = and_then y g"
  by (cases y) simp_all

lemma and_then_Inr: "and_then x f = Inr w \<longleftrightarrow> (\<exists>v. x = Inr v \<and> f v = Inr w)"
  by (cases x) simp_all

fun need :: "exn \<Rightarrow> 'a option \<Rightarrow> exn + 'a" where
  "need x None = Inl x"
| "need x (Some v) = Inr v"

text \<open>A loop whose body may raise: the first error ends it.\<close>

fun each :: "('a \<Rightarrow> 's \<Rightarrow> exn + 's) \<Rightarrow> 'a list \<Rightarrow> 's \<Rightarrow> exn + 's" where
  "each f [] s = Inr s"
| "each f (x # xs) s = and_then (f x s) (each f xs)"

lemma each_cong [fundef_cong]:
  "xs = ys \<Longrightarrow> s = t \<Longrightarrow> (\<And>x s. x \<in> set ys \<Longrightarrow> f x s = g x s) \<Longrightarrow> each f xs s = each g ys t"
proof (induction ys arbitrary: xs s t)
  case (Cons y ys)
  then show ?case by (cases "g y t") simp_all
qed simp

text \<open>A list comprehension whose body may raise.\<close>

fun traverse :: "('a \<Rightarrow> exn + 'b) \<Rightarrow> 'a list \<Rightarrow> exn + 'b list" where
  "traverse f [] = Inr []"
| "traverse f (x # xs) = and_then (f x) (\<lambda>y. and_then (traverse f xs) (\<lambda>ys. Inr (y # ys)))"

lemma traverse_cong [fundef_cong]:
  "xs = ys \<Longrightarrow> (\<And>x. x \<in> set ys \<Longrightarrow> f x = g x) \<Longrightarrow> traverse f xs = traverse g ys"
  by (induction ys arbitrary: xs) simp_all

lemma traverse_elems:
  "traverse f xs = Inr ys \<Longrightarrow> y \<in> set ys \<Longrightarrow> \<exists>x \<in> set xs. f x = Inr y"
proof (induction xs arbitrary: ys)
  case (Cons x xs)
  from Cons.prems(1) obtain z zs where z: "f x = Inr z" "traverse f xs = Inr zs" "ys = z # zs"
    by (cases "f x"; cases "traverse f xs") auto
  then show ?case using Cons.IH [OF z(2)] Cons.prems(2) by auto
qed simp

text \<open>\<open>isinstance(e, Exception)\<close>: what an \<open>except Exception\<close> clause catches.\<close>

fun is_exception :: "exn \<Rightarrow> bool" where
  "is_exception (BaseExc _) = False"
| "is_exception _ = True"

section \<open>Dictionaries\<close>

text \<open>
  \<open>d[k] = v\<close> keeps the position of an existing key and appends a new one
  (\<open>AList.update\<close>); \<open>del d[k]\<close> is \<open>AList.delete\<close>; \<open>d.get(k)\<close> is \<open>map_of\<close>.
\<close>

abbreviation dict_set :: "'k \<Rightarrow> 'v \<Rightarrow> ('k, 'v) dict \<Rightarrow> ('k, 'v) dict" where
  "dict_set \<equiv> AList.update"

abbreviation dict_del :: "'k \<Rightarrow> ('k, 'v) dict \<Rightarrow> ('k, 'v) dict" where
  "dict_del \<equiv> AList.delete"

abbreviation dict_get :: "('k, 'v) dict \<Rightarrow> 'k \<Rightarrow> 'v option" where
  "dict_get \<equiv> map_of"

abbreviation dict_keys :: "('k, 'v) dict \<Rightarrow> 'k list" where
  "dict_keys d \<equiv> map fst d"

abbreviation dict_values :: "('k, 'v) dict \<Rightarrow> 'v list" where
  "dict_values d \<equiv> map snd d"

abbreviation dict_wf :: "('k, 'v) dict \<Rightarrow> bool" where
  "dict_wf d \<equiv> distinct (map fst d)"

definition dict_has :: "('k, 'v) dict \<Rightarrow> 'k \<Rightarrow> bool" where
  "dict_has d k \<longleftrightarrow> dict_get d k \<noteq> None"

definition dict_get_or :: "('k, 'v) dict \<Rightarrow> 'k \<Rightarrow> 'v \<Rightarrow> 'v" where
  "dict_get_or d k v = (case dict_get d k of None \<Rightarrow> v | Some w \<Rightarrow> w)"

text \<open>\<open>d.update(e)\<close>: the entries of \<open>e\<close> in their order.\<close>

fun dict_update :: "('k, 'v) dict \<Rightarrow> ('k, 'v) dict \<Rightarrow> ('k, 'v) dict" where
  "dict_update d [] = d"
| "dict_update d ((k, v) # e) = dict_update (dict_set k v d) e"

section \<open>Strings\<close>

text \<open>\<open>str.isspace\<close> and \<open>str.lower\<close> on the code points 0 to 255.\<close>

definition py_isspace :: "char \<Rightarrow> bool" where
  "py_isspace c = (let n = (of_char c :: nat) in
     (9 \<le> n \<and> n \<le> 13) \<or> (28 \<le> n \<and> n \<le> 32) \<or> n = 133 \<or> n = 160)"

definition blank :: "string \<Rightarrow> bool" where
  \<comment> \<open>\<open>not s.strip()\<close>\<close>
  "blank s \<longleftrightarrow> list_all py_isspace s"

definition py_lower_char :: "char \<Rightarrow> char" where
  "py_lower_char c = (let n = (of_char c :: nat) in
     if (65 \<le> n \<and> n \<le> 90) \<or> (192 \<le> n \<and> n \<le> 222 \<and> n \<noteq> 215) then char_of (n + 32) else c)"

definition py_lower :: "string \<Rightarrow> string" where
  "py_lower s = map py_lower_char s"

section \<open>Lists\<close>

text \<open>\<open>xs[i:]\<close> for an integer \<open>i\<close>: a negative index counts from the end.\<close>

definition slice_from :: "'a list \<Rightarrow> int \<Rightarrow> 'a list" where
  "slice_from xs i = (if i < 0 then drop (nat (int (length xs) + i)) xs else drop (nat i) xs)"

text \<open>\<open>xs[:i]\<close>.\<close>

definition slice_to :: "'a list \<Rightarrow> int \<Rightarrow> 'a list" where
  "slice_to xs i = (if i < 0 then take (nat (int (length xs) + i)) xs else take (nat i) xs)"

text \<open>\<open>min(xs, key=f)\<close> and \<open>max(xs, key=f)\<close>: the first best element; both raise on an
  empty sequence.\<close>

fun min_by_from :: "('a \<Rightarrow> 'k::linorder) \<Rightarrow> 'a \<Rightarrow> 'a list \<Rightarrow> 'a" where
  "min_by_from f b [] = b"
| "min_by_from f b (x # xs) = (if f x < f b then min_by_from f x xs else min_by_from f b xs)"

fun max_by_from :: "('a \<Rightarrow> 'k::linorder) \<Rightarrow> 'a \<Rightarrow> 'a list \<Rightarrow> 'a" where
  "max_by_from f b [] = b"
| "max_by_from f b (x # xs) = (if f b < f x then max_by_from f x xs else max_by_from f b xs)"

fun min_by :: "('a \<Rightarrow> 'k::linorder) \<Rightarrow> 'a list \<Rightarrow> exn + 'a" where
  "min_by f [] = Inl (ValueError ''min() arg is an empty sequence'')"
| "min_by f (x # xs) = Inr (min_by_from f x xs)"

fun max_by :: "('a \<Rightarrow> 'k::linorder) \<Rightarrow> 'a list \<Rightarrow> exn + 'a" where
  "max_by f [] = Inl (ValueError ''max() arg is an empty sequence'')"
| "max_by f (x # xs) = Inr (max_by_from f x xs)"

text \<open>The methods of \<open>random.Random\<close> that are used: \<open>choice\<close> draws an index below the length,
  \<open>shuffle\<close> a rearrangement of the indices.\<close>

record 'g rng_ops =
  draw_index :: "'g \<Rightarrow> nat \<Rightarrow> 'g \<times> nat"
  draw_order :: "'g \<Rightarrow> nat \<Rightarrow> 'g \<times> nat list"

definition rng_ok :: "'g rng_ops \<Rightarrow> bool" where
  "rng_ok R \<longleftrightarrow> (\<forall>g n. 0 < n \<longrightarrow> snd (draw_index R g n) < n) \<and>
     (\<forall>g n. mset (snd (draw_order R g n)) = mset [0..<n])"

text \<open>The results of \<open>n\<close> calls one after the other.\<close>

fun picks :: "('s \<Rightarrow> 's \<times> 'a) \<Rightarrow> nat \<Rightarrow> 's \<Rightarrow> 'a list" where
  "picks pick 0 s = []"
| "picks pick (Suc n) s = (case pick s of (s', x) \<Rightarrow> x # picks pick n s')"

section \<open>Contracts\<close>

text \<open>
  A component whose operations are the steps of a machine: what one step keeps, every run
  keeps. The machines of the components are interpretations of this locale.
\<close>

locale inv_system =
  fixes step :: "'s \<Rightarrow> 'e \<Rightarrow> 's"
    and inv :: "'s \<Rightarrow> bool"
  assumes step_inv: "inv s \<Longrightarrow> inv (step s e)"
begin

lemma run_inv: "inv s \<Longrightarrow> inv (foldl step s es)"
  by (induction es arbitrary: s) (auto intro: step_inv)

lemma run_prefix_inv: "inv s \<Longrightarrow> inv (foldl step s (take n es))"
  by (rule run_inv)

end

text \<open>
  A step invariant relative to a guard on the events: runs whose events all pass the guard
  keep the invariant.
\<close>

locale guarded_inv_system =
  fixes step :: "'s \<Rightarrow> 'e \<Rightarrow> 's"
    and ok :: "'e \<Rightarrow> bool"
    and inv :: "'s \<Rightarrow> bool"
  assumes ok_step_inv: "inv s \<Longrightarrow> ok e \<Longrightarrow> inv (step s e)"
begin

lemma ok_run_inv: "inv s \<Longrightarrow> list_all ok es \<Longrightarrow> inv (foldl step s es)"
  by (induction es arbitrary: s) (auto intro: ok_step_inv)

end

text \<open>A registry: what a lookup returns after a store and after a removal.\<close>

locale keyed_store =
  fixes find :: "'s \<Rightarrow> 'k \<Rightarrow> 'v option"
    and put :: "'k \<Rightarrow> 'v \<Rightarrow> 's \<Rightarrow> 's"
    and remove :: "'k \<Rightarrow> 's \<Rightarrow> 's"
  assumes find_put: "find (put k v s) = (find s)(k \<mapsto> v)"
    and find_remove: "find (remove k s) = (find s)(k := None)"
begin

lemma find_put_same: "find (put k v s) k = Some v"
  by (simp add: find_put)

lemma find_put_other: "k' \<noteq> k \<Longrightarrow> find (put k v s) k' = find s k'"
  by (simp add: find_put)

lemma find_remove_put: "k' \<noteq> k \<Longrightarrow> find (remove k (put k v s)) k' = find s k'"
  by (simp add: find_put find_remove)

lemma find_put_all:
  "find (foldr (\<lambda>(k, v). put k v) kvs s) k =
     (case map_of kvs k of None \<Rightarrow> find s k | Some v \<Rightarrow> Some v)"
  by (induction kvs) (auto simp: find_put split: option.splits)

end

section \<open>Lemmas\<close>

named_theorems mesh_defs "definitions the component proofs unfold"

text \<open>Lookups stay lookups: the library's rewriting of \<open>map_of d k = Some v\<close> to membership is
  used only where a proof asks for it.\<close>

declare map_of_eq_Some_iff [simp del] Some_eq_map_of_iff [simp del]

lemma dict_get_set [simp]: "dict_get (dict_set k v d) = (dict_get d)(k \<mapsto> v)"
  by (simp add: update_conv')

lemma dict_get_del [simp]: "dict_get (dict_del k d) = (dict_get d)(k := None)"
  by (simp add: delete_conv')

lemma dict_has_iff: "dict_has d k \<longleftrightarrow> k \<in> set (dict_keys d)"
  by (simp add: dict_has_def map_of_eq_None_iff)

lemma dict_wf_set [simp]: "dict_wf d \<Longrightarrow> dict_wf (dict_set k v d)"
  by (rule distinct_update)

lemma dict_wf_del [simp]: "dict_wf d \<Longrightarrow> dict_wf (dict_del k d)"
  by (rule distinct_delete)

lemma dict_set_keys_in: "k \<in> set (dict_keys d) \<Longrightarrow> dict_keys (dict_set k v d) = dict_keys d"
  by (induction d) auto

lemma dict_set_keys_notin:
  "k \<notin> set (dict_keys d) \<Longrightarrow> dict_set k v d = d @ [(k, v)]"
  by (induction d) auto

lemma dict_get_or_set: "dict_get_or (dict_set k v g) k' z = (if k' = k then v else dict_get_or g k' z)"
  by (simp add: dict_get_or_def)

lemma dict_keys_set_set: "set (dict_keys (dict_set k v d)) = insert k (set (dict_keys d))"
  by (induction d) auto

lemma map_of_map_values:
  "map_of (map (\<lambda>(k, v). (k, f v)) d) k = map_option f (map_of d k)"
  by (induction d) auto

lemma dict_get_or_map:
  "f z = z \<Longrightarrow> dict_get_or (map (\<lambda>(k, v). (k, f v)) g) k z = f (dict_get_or g k z)"
  by (simp add: dict_get_or_def map_of_map_values split: option.split)

lemma dict_keys_map: "dict_keys (map (\<lambda>(k, v). (k, f v)) g) = dict_keys g"
  by (induction g) auto

lemma dict_del_filter: "dict_del k d = filter (\<lambda>p. fst p \<noteq> k) d"
  by (induction d) auto

lemma dict_get_update [simp]: "dict_get (dict_update d e) = dict_get d ++ dict_get (rev e)"
proof (induction d e rule: dict_update.induct)
  case (2 d k v e)
  then show ?case by (simp add: map_add_def fun_eq_iff split: option.splits)
qed simp

lemma dict_values_mem:
  "dict_wf d \<Longrightarrow> v \<in> set (dict_values d) \<longleftrightarrow> (\<exists>k. dict_get d k = Some v)"
  by (force simp: map_of_eq_Some_iff)

lemma find_append: "List.find P (xs @ ys) = (case List.find P xs of Some x \<Rightarrow> Some x | None \<Rightarrow> List.find P ys)"
  by (induction xs) auto

lemma slice_to_Nil [simp]: "slice_to [] i = []"
  by (simp add: slice_to_def)

lemma slice_to_take: "\<exists>k. slice_to xs i = take k xs"
  unfolding slice_to_def by (cases "i < 0") auto

lemma mset_drop_take: "mset (drop i xs @ take i xs) = mset xs"
proof -
  have "mset (drop i xs @ take i xs) = mset (take i xs @ drop i xs)"
    by (simp only: mset_append add.commute)
  then show ?thesis by simp
qed

lemma rotation_nth:
  assumes "xs \<noteq> []"
  shows "map (\<lambda>i. xs ! nat ((c + int i) mod int (length xs))) [0..<length xs] =
    rotate (nat (c mod int (length xs))) xs"
proof (rule nth_equalityI)
  fix i assume "i < length (map (\<lambda>i. xs ! nat ((c + int i) mod int (length xs))) [0..<length xs])"
  then have i: "i < length xs" by simp
  have "nat ((c + int i) mod int (length xs)) = (nat (c mod int (length xs)) + i) mod length xs"
    using assms by (intro nat_eq_iff [THEN iffD2] disjI1) (simp add: zmod_int mod_add_left_eq)
  with i show "map (\<lambda>i. xs ! nat ((c + int i) mod int (length xs))) [0..<length xs] ! i =
      rotate (nat (c mod int (length xs))) xs ! i" by (simp add: nth_rotate)
qed simp

lemma rotation_rounds:
  assumes "xs \<noteq> []"
  shows "mset (map (\<lambda>i. xs ! nat ((c + int i) mod int (length xs))) [0..<k * length xs]) =
    repeat_mset k (mset xs)"
proof (induction k arbitrary: c)
  case (Suc k)
  let ?f = "\<lambda>c i. xs ! nat ((c + int i) mod int (length xs))"
  have "[0..<Suc k * length xs] = [0..<length xs] @ map (\<lambda>i. i + length xs) [0..<k * length xs]"
    by (simp add: map_add_upt upt_add_eq_append [of 0] add.commute)
  then have "mset (map (?f c) [0..<Suc k * length xs]) =
      mset (map (?f c) [0..<length xs]) + mset (map (?f (c + int (length xs))) [0..<k * length xs])"
    by (simp add: comp_def algebra_simps)
  also have "\<dots> = mset xs + repeat_mset k (mset xs)"
    unfolding rotation_nth [OF assms] Suc.IH by (simp add: rotate_drop_take mset_drop_take del: mset_append)
  finally show ?case by simp
qed simp

lemma mset_eq_distinct_map: "mset xs = mset ys \<Longrightarrow> distinct (map f xs) \<longleftrightarrow> distinct (map f ys)"
  by (rule mset_eq_imp_distinct_iff) simp

lemma count_image_inj: "inj f \<Longrightarrow> count (image_mset f M) (f x) = count M x"
  by (induction M) (auto dest: injD)

lemma insort_key_cong:
  "(\<And>y. y \<in> insert x (set xs) \<Longrightarrow> f y = g y) \<Longrightarrow> insort_key f x xs = insort_key g x xs"
  by (induction xs) auto

lemma sort_key_cong: "(\<And>x. x \<in> set xs \<Longrightarrow> f x = g x) \<Longrightarrow> sort_key f xs = sort_key g xs"
  by (induction xs) (auto intro!: insort_key_cong)

lemma min_by_from_le: "f (min_by_from f b xs) \<le> f b"
  by (induction xs arbitrary: b) (auto intro: order.trans less_imp_le)

lemma min_by_from_min: "x \<in> set (b # xs) \<Longrightarrow> f (min_by_from f b xs) \<le> f x"
proof (induction xs arbitrary: b)
  case (Cons y ys)
  then show ?case
    using min_by_from_le [of f y ys] min_by_from_le [of f b ys]
    by (auto simp: not_less intro: order.trans less_imp_le)
qed simp

lemma min_by_from_in: "min_by_from f b xs \<in> set (b # xs)"
  by (induction xs arbitrary: b) auto

lemma max_by_from_ge: "f b \<le> f (max_by_from f b xs)"
  by (induction xs arbitrary: b) (auto intro: order.trans less_imp_le)

lemma max_by_from_max: "x \<in> set (b # xs) \<Longrightarrow> f x \<le> f (max_by_from f b xs)"
proof (induction xs arbitrary: b)
  case (Cons y ys)
  then show ?case
    using max_by_from_ge [of f y ys] max_by_from_ge [of f b ys]
    by (auto simp: not_less intro: order.trans less_imp_le)
qed simp

lemma max_by_from_in: "max_by_from f b xs \<in> set (b # xs)"
  by (induction xs arbitrary: b) auto

lemma min_by_Inr:
  assumes "min_by f xs = Inr m"
  shows "m \<in> set xs" and "x \<in> set xs \<Longrightarrow> f m \<le> f x"
  using assms min_by_from_in [of f] min_by_from_min [of _ _ _ f]
  by (cases xs; force)+

lemma max_by_Inr:
  assumes "max_by f xs = Inr m"
  shows "m \<in> set xs" and "x \<in> set xs \<Longrightarrow> f x \<le> f m"
  using assms max_by_from_in [of f] max_by_from_max [of _ _ _ f]
  by (cases xs; force)+

lemma min_by_total: "xs \<noteq> [] \<Longrightarrow> \<exists>m. min_by f xs = Inr m"
  by (cases xs) auto

lemma max_by_total: "xs \<noteq> [] \<Longrightarrow> \<exists>m. max_by f xs = Inr m"
  by (cases xs) auto

text \<open>
  A chooser that goes round: its pool does not change, and it takes the element at the position
  of a counter. Whole rounds are then fair, whatever the counter was.
\<close>

locale rotor =
  fixes pick :: "'s \<Rightarrow> 's \<times> 'a"
    and pool :: "'s \<Rightarrow> 'a list"
    and cnt :: "'s \<Rightarrow> int"
  assumes pick_nth: "pool s \<noteq> [] \<Longrightarrow> snd (pick s) = pool s ! nat (cnt s mod int (length (pool s)))"
    and pick_pool: "pool s \<noteq> [] \<Longrightarrow> pool (fst (pick s)) = pool s"
    and pick_cnt: "pool s \<noteq> [] \<Longrightarrow> cnt (fst (pick s)) = cnt s + 1"
begin

lemma picks_rotation:
  "pool s \<noteq> [] \<Longrightarrow> picks pick n s =
     map (\<lambda>i. pool s ! nat ((cnt s + int i) mod int (length (pool s)))) [0..<n]"
proof (induction n arbitrary: s)
  case (Suc n)
  obtain s' x where p: "pick s = (s', x)" by (cases "pick s")
  then have s': "pool s' = pool s" "cnt s' = cnt s + 1" "x = pool s ! nat (cnt s mod int (length (pool s)))"
    using pick_pool [OF Suc.prems] pick_cnt [OF Suc.prems] pick_nth [OF Suc.prems] by simp_all
  have "map (\<lambda>i. pool s ! nat ((cnt s + int i) mod int (length (pool s)))) [0..<Suc n] =
      x # map (\<lambda>i. pool s ! nat ((cnt s + 1 + int i) mod int (length (pool s)))) [0..<n]"
    by (simp add: upt_conv_Cons s'(3) map_Suc_upt [symmetric] add.assoc del: upt_Suc)
  with Suc p s' show ?case by simp
qed simp

lemma picks_fair:
  "pool s \<noteq> [] \<Longrightarrow> mset (picks pick (k * length (pool s)) s) = repeat_mset k (mset (pool s))"
  by (subst picks_rotation, assumption, rule rotation_rounds)

end

text \<open>The dictionary itself is the first keyed store; the registries are later ones.\<close>

interpretation dict_store: keyed_store "map_of :: ('k \<times> 'v) list \<Rightarrow> 'k \<Rightarrow> 'v option"
    AList.update AList.delete
  by unfold_locales simp_all

end
