(* ===== verification/Messages.thy ===== *)
theory Messages
  imports Mesh_Prelude
begin

text \<open>
  \<open>messages/types.py\<close> and \<open>messages/envelope.py\<close>: message types and priorities, the envelope
  with its validation, expiry, factory methods and its JSON form. JSON documents are values of
  the type \<open>json\<close>; the text codec \<open>json.dumps\<close>/\<open>json.loads\<close> is a parameter of \<open>to_json\<close> and
  \<open>from_json\<close>, as are the conversions \<open>str\<close>, \<open>float\<close>, \<open>int\<close> and \<open>dict\<close> on values that are not of
  the expected type. Clock readings and generated identifiers are arguments.
\<close>

section \<open>JSON values\<close>

datatype json =
    JNull
  | JBool bool
  | JInt int
  | JFloat rat
  | JStr string
  | JList "json list"
  | JObj "(string \<times> json) list"

text \<open>A value the decoder can produce: no object has a repeated key.\<close>

fun json_wf :: "json \<Rightarrow> bool" where
  "json_wf (JList vs) = list_all json_wf vs"
| "json_wf (JObj kvs) = (distinct (map fst kvs) \<and> list_all (\<lambda>(k, v). json_wf v) kvs)"
| "json_wf _ = True"

text \<open>
  The library's conversions on values of another type: \<open>str(v)\<close> of a value that is not a string,
  \<open>float(s)\<close> and \<open>int(s)\<close> of a string (\<open>None\<close> is \<open>ValueError\<close>), and \<open>dict(v)\<close> of a value that is
  not an object.
\<close>

record builtins =
  repr_of :: "json \<Rightarrow> string"
  float_of_str :: "string \<Rightarrow> rat option"
  int_of_str :: "string \<Rightarrow> int option"
  dict_of_iter :: "json \<Rightarrow> exn + (string, json) dict"

fun py_str :: "builtins \<Rightarrow> json \<Rightarrow> string" where
  "py_str B (JStr s) = s"
| "py_str B v = repr_of B v"

fun py_float :: "builtins \<Rightarrow> json \<Rightarrow> exn + rat" where
  "py_float B (JFloat x) = Inr x"
| "py_float B (JInt n) = Inr (of_int n)"
| "py_float B (JBool b) = Inr (if b then 1 else 0)"
| "py_float B (JStr s) = (case float_of_str B s of None \<Rightarrow> Inl (ValueError s) | Some x \<Rightarrow> Inr x)"
| "py_float B _ = Inl (TypeError ''float'')"

text \<open>\<open>int(x)\<close> of a float truncates towards zero.\<close>

fun py_int :: "builtins \<Rightarrow> json \<Rightarrow> exn + int" where
  "py_int B (JInt n) = Inr n"
| "py_int B (JFloat x) = Inr (if x < 0 then - \<lfloor>- x\<rfloor> else \<lfloor>x\<rfloor>)"
| "py_int B (JBool b) = Inr (if b then 1 else 0)"
| "py_int B (JStr s) = (case int_of_str B s of None \<Rightarrow> Inl (ValueError s) | Some n \<Rightarrow> Inr n)"
| "py_int B _ = Inl (TypeError ''int'')"

fun py_dict :: "builtins \<Rightarrow> json \<Rightarrow> exn + (string, json) dict" where
  "py_dict B (JObj d) = Inr d"
| "py_dict B v = dict_of_iter B v"

text \<open>The truth value of a value.\<close>

fun truthy :: "json \<Rightarrow> bool" where
  "truthy JNull = False"
| "truthy (JBool b) = b"
| "truthy (JInt n) = (n \<noteq> 0)"
| "truthy (JFloat x) = (x \<noteq> 0)"
| "truthy (JStr s) = (s \<noteq> [])"
| "truthy (JList l) = (l \<noteq> [])"
| "truthy (JObj d) = (d \<noteq> [])"

section \<open>Message types and priorities\<close>

datatype message_type = TASK | QUERY | RESPONSE | RESULT | HANDOFF | BROADCAST | HEARTBEAT
  | ERROR | CANCEL | ACK

fun message_type_value :: "message_type \<Rightarrow> string" where
  "message_type_value TASK = ''task''"
| "message_type_value QUERY = ''query''"
| "message_type_value RESPONSE = ''response''"
| "message_type_value RESULT = ''result''"
| "message_type_value HANDOFF = ''handoff''"
| "message_type_value BROADCAST = ''broadcast''"
| "message_type_value HEARTBEAT = ''heartbeat''"
| "message_type_value ERROR = ''error''"
| "message_type_value CANCEL = ''cancel''"
| "message_type_value ACK = ''ack''"

definition all_message_types :: "message_type list" where
  "all_message_types =
     [TASK, QUERY, RESPONSE, RESULT, HANDOFF, BROADCAST, HEARTBEAT, ERROR, CANCEL, ACK]"

text \<open>\<open>MessageType(v)\<close>.\<close>

definition message_type_of :: "json \<Rightarrow> message_type option" where
  "message_type_of v = List.find (\<lambda>t. JStr (message_type_value t) = v) all_message_types"

datatype priority = CRITICAL | HIGH | NORMAL | LOW | BATCH

fun priority_value :: "priority \<Rightarrow> int" where
  "priority_value CRITICAL = 0"
| "priority_value HIGH = 1"
| "priority_value NORMAL = 2"
| "priority_value LOW = 3"
| "priority_value BATCH = 4"

definition all_priorities :: "priority list" where
  "all_priorities = [CRITICAL, HIGH, NORMAL, LOW, BATCH]"

text \<open>\<open>Priority(n)\<close>.\<close>

definition priority_of :: "int \<Rightarrow> priority option" where
  "priority_of n = List.find (\<lambda>p. priority_value p = n) all_priorities"

text \<open>\<open>Priority\<close> is an \<open>IntEnum\<close>: its members compare as their values.\<close>

instantiation priority :: linorder
begin

definition less_eq_priority :: "priority \<Rightarrow> priority \<Rightarrow> bool" where
  "less_eq_priority p q \<longleftrightarrow> priority_value p \<le> priority_value q"

definition less_priority :: "priority \<Rightarrow> priority \<Rightarrow> bool" where
  "less_priority p q \<longleftrightarrow> priority_value p < priority_value q"

instance
proof
  fix p q :: priority
  assume "p \<le> q" "q \<le> p"
  then show "p = q" by (cases p; cases q) (simp_all add: less_eq_priority_def)
qed (auto simp: less_eq_priority_def less_priority_def)

end

record handoff_metrics =
  source_agent :: string
  target_agent :: string
  hm_reason :: string
  cost_incurred_usd :: rat
  tokens_consumed :: int
  hm_latency_ms :: rat
  handoff_timestamp :: timestamp
  attempt_number :: int

section \<open>The envelope\<close>

text \<open>
  \<open>topic\<close> and the values of \<open>metadata\<close> are annotated as strings, but \<open>from_json\<close> stores whatever
  the document holds there: they are JSON values, \<open>JNull\<close> being \<open>None\<close>.
\<close>

record message_envelope =
  sender :: string
  receiver :: string
  payload :: "(string, json) dict"
  message_type :: message_type
  priority :: priority
  topic :: json
  trace_id :: string
  parent_message_id :: "string option"
  message_id :: string
  created_at :: timestamp
  ttl_seconds :: "rat option"
  cost_budget_usd :: "rat option"
  env_metadata :: "(string, json) dict"

text \<open>The checks of \<open>validate\<close> on the types of the fields cannot fail on this record.\<close>

definition validate :: "message_envelope \<Rightarrow> exn + unit" where
  "validate e =
     (if blank (sender e) then Inl (ValueError ''sender'')
      else if blank (receiver e) then Inl (ValueError ''receiver'')
      else case ttl_seconds e of
        Some ttl \<Rightarrow>
          if ttl \<le> 0 then Inl (ValueError ''ttl_seconds'')
          else (case cost_budget_usd e of
                  Some b \<Rightarrow> if b < 0 then Inl (ValueError ''cost_budget_usd'') else Inr ()
                | None \<Rightarrow> Inr ())
      | None \<Rightarrow>
          (case cost_budget_usd e of
             Some b \<Rightarrow> if b < 0 then Inl (ValueError ''cost_budget_usd'') else Inr ()
           | None \<Rightarrow> Inr ()))"

definition is_expired :: "timestamp \<Rightarrow> message_envelope \<Rightarrow> bool" where
  "is_expired now e =
     (case ttl_seconds e of None \<Rightarrow> False | Some ttl \<Rightarrow> now - created_at e > ttl)"

section \<open>Factory methods\<close>

definition create_response ::
    "string \<Rightarrow> timestamp \<Rightarrow> (string, json) dict \<Rightarrow> message_type \<Rightarrow> priority option
     \<Rightarrow> message_envelope \<Rightarrow> message_envelope" where
  "create_response new_id now pl mt pr e =
     \<lparr>sender = receiver e, receiver = sender e, payload = pl, message_type = mt,
      priority = (case pr of Some p \<Rightarrow> p | None \<Rightarrow> priority e), topic = topic e,
      trace_id = trace_id e, parent_message_id = Some (message_id e), message_id = new_id,
      created_at = now, ttl_seconds = None, cost_budget_usd = cost_budget_usd e,
      env_metadata = []\<rparr>"

definition metrics_dict :: "handoff_metrics \<Rightarrow> (string, json) dict" where
  "metrics_dict m =
     [(''source_agent'', JStr (source_agent m)),
      (''target_agent'', JStr (target_agent m)),
      (''reason'', JStr (hm_reason m)),
      (''cost_incurred_usd'', JFloat (cost_incurred_usd m)),
      (''tokens_consumed'', JInt (tokens_consumed m)),
      (''latency_ms'', JFloat (hm_latency_ms m)),
      (''handoff_timestamp'', JFloat (handoff_timestamp m)),
      (''attempt_number'', JInt (attempt_number m))]"

definition create_handoff ::
    "string \<Rightarrow> timestamp \<Rightarrow> string \<Rightarrow> handoff_metrics \<Rightarrow> (string, json) dict option \<Rightarrow> rat option
     \<Rightarrow> message_envelope \<Rightarrow> message_envelope" where
  "create_handoff new_id now new_receiver m updated_payload cost_budget_remaining e =
     \<lparr>sender = receiver e, receiver = new_receiver,
      payload = dict_set ''__handoff_metrics__'' (JObj (metrics_dict m))
        (case updated_payload of Some p \<Rightarrow> p | None \<Rightarrow> payload e),
      message_type = HANDOFF, priority = priority e, topic = topic e, trace_id = trace_id e,
      parent_message_id = Some (message_id e), message_id = new_id, created_at = now,
      ttl_seconds = None,
      cost_budget_usd = (case cost_budget_remaining of Some b \<Rightarrow> Some b | None \<Rightarrow> cost_budget_usd e),
      env_metadata = env_metadata e\<rparr>"

definition create_ack :: "string \<Rightarrow> timestamp \<Rightarrow> message_envelope \<Rightarrow> message_envelope" where
  "create_ack new_id now e =
     create_response new_id now [(''acked_message_id'', JStr (message_id e))] ACK (Some HIGH) e"

definition create_error ::
    "string \<Rightarrow> timestamp \<Rightarrow> string \<Rightarrow> string \<Rightarrow> message_envelope \<Rightarrow> message_envelope" where
  "create_error new_id now error_message error_code e =
     create_response new_id now
       [(''error_code'', JStr error_code), (''error_message'', JStr error_message),
        (''failed_message_id'', JStr (message_id e))] ERROR (Some HIGH) e"

section \<open>Serialization\<close>

fun json_opt :: "('a \<Rightarrow> json) \<Rightarrow> 'a option \<Rightarrow> json" where
  "json_opt f None = JNull"
| "json_opt f (Some x) = f x"

definition to_dict :: "message_envelope \<Rightarrow> (string, json) dict" where
  "to_dict e =
     [(''sender'', JStr (sender e)),
      (''receiver'', JStr (receiver e)),
      (''payload'', JObj (payload e)),
      (''message_type'', JStr (message_type_value (message_type e))),
      (''priority'', JInt (priority_value (priority e))),
      (''topic'', topic e),
      (''trace_id'', JStr (trace_id e)),
      (''parent_message_id'', json_opt JStr (parent_message_id e)),
      (''message_id'', JStr (message_id e)),
      (''created_at'', JFloat (created_at e)),
      (''ttl_seconds'', json_opt JFloat (ttl_seconds e)),
      (''cost_budget_usd'', json_opt JFloat (cost_budget_usd e)),
      (''metadata'', JObj (env_metadata e))]"

definition to_json :: "(json \<Rightarrow> 'raw) \<Rightarrow> message_envelope \<Rightarrow> 'raw" where
  "to_json dumps e = dumps (JObj (to_dict e))"

definition required_fields :: "string list" where
  "required_fields = [''sender'', ''receiver'', ''payload'', ''message_id'', ''trace_id'']"

definition json_at :: "(string, json) dict \<Rightarrow> string \<Rightarrow> json" where
  \<comment> \<open>\<open>data.get(k)\<close>, and \<open>data[k]\<close> once the key is known to be present\<close>
  "json_at data k = dict_get_or data k JNull"

definition opt_float :: "builtins \<Rightarrow> json \<Rightarrow> exn + rat option" where
  "opt_float B v =
     (if v = JNull then Inr None
      else case py_float B v of Inl x \<Rightarrow> Inl x | Inr f \<Rightarrow> Inr (Some f))"

text \<open>\<open>MessageType(data["message_type"])\<close> and \<open>Priority(int(data["priority"]))\<close> with the handlers
  around them: \<open>ValueError\<close> and \<open>KeyError\<close> become \<open>ValueError\<close>, a \<open>TypeError\<close> passes.\<close>

definition decode_message_type :: "(string, json) dict \<Rightarrow> exn + message_type" where
  "decode_message_type data =
     (case dict_get data ''message_type'' of
        None \<Rightarrow> Inl (ValueError ''message_type'')
      | Some v \<Rightarrow> (case message_type_of v of
                    None \<Rightarrow> Inl (ValueError ''message_type'') | Some t \<Rightarrow> Inr t))"

definition decode_priority :: "builtins \<Rightarrow> (string, json) dict \<Rightarrow> exn + priority" where
  "decode_priority B data =
     (case dict_get data ''priority'' of
        None \<Rightarrow> Inl (ValueError ''priority'')
      | Some v \<Rightarrow>
          (case py_int B v of
             Inl (ValueError _) \<Rightarrow> Inl (ValueError ''priority'')
           | Inl x \<Rightarrow> Inl x
           | Inr n \<Rightarrow> (case priority_of n of
                         None \<Rightarrow> Inl (ValueError ''priority'') | Some p \<Rightarrow> Inr p)))"

definition decode_envelope ::
    "builtins \<Rightarrow> timestamp \<Rightarrow> (string, json) dict \<Rightarrow> message_type \<Rightarrow> priority \<Rightarrow> exn + message_envelope"
    where
  "decode_envelope B now data mt pr =
     (case py_dict B (json_at data ''payload'') of Inl x \<Rightarrow> Inl x | Inr pl \<Rightarrow>
      case py_float B (dict_get_or data ''created_at'' (JFloat now)) of Inl x \<Rightarrow> Inl x | Inr ca \<Rightarrow>
      case opt_float B (json_at data ''ttl_seconds'') of Inl x \<Rightarrow> Inl x | Inr ttl \<Rightarrow>
      case opt_float B (json_at data ''cost_budget_usd'') of Inl x \<Rightarrow> Inl x | Inr cost \<Rightarrow>
      case py_dict B (dict_get_or data ''metadata'' (JObj [])) of Inl x \<Rightarrow> Inl x | Inr md \<Rightarrow>
      Inr \<lparr>sender = py_str B (json_at data ''sender''),
           receiver = py_str B (json_at data ''receiver''),
           payload = pl, message_type = mt, priority = pr, topic = json_at data ''topic'',
           trace_id = py_str B (json_at data ''trace_id''),
           parent_message_id =
             (if json_at data ''parent_message_id'' = JNull then None
              else Some (py_str B (json_at data ''parent_message_id''))),
           message_id = py_str B (json_at data ''message_id''),
           created_at = ca, ttl_seconds = ttl, cost_budget_usd = cost, env_metadata = md\<rparr>)"

definition from_json ::
    "builtins \<Rightarrow> ('raw \<Rightarrow> exn + json) \<Rightarrow> timestamp \<Rightarrow> 'raw \<Rightarrow> exn + message_envelope" where
  "from_json B loads now raw =
     (case loads raw of
        Inl _ \<Rightarrow> Inl (ValueError ''json'')
      | Inr (JObj data) \<Rightarrow>
          (case List.find (\<lambda>f. \<not> dict_has data f) required_fields of
             Some f \<Rightarrow> Inl (ValueError f)
           | None \<Rightarrow>
               (case decode_message_type data of
                  Inl x \<Rightarrow> Inl x
                | Inr mt \<Rightarrow>
                    (case decode_priority B data of
                       Inl x \<Rightarrow> Inl x
                     | Inr pr \<Rightarrow> decode_envelope B now data mt pr)))
      | Inr _ \<Rightarrow> Inl (ValueError ''object''))"

section \<open>Chains of messages\<close>

text \<open>How an agent derives the next message of a conversation from the one it received.\<close>

datatype derivation =
    Respond string timestamp "(string, json) dict" message_type "priority option"
  | Handoff string timestamp string handoff_metrics "(string, json) dict option" "rat option"
  | Ack string timestamp
  | Error string timestamp string string

fun derive :: "message_envelope \<Rightarrow> derivation \<Rightarrow> message_envelope" where
  "derive e (Respond i now pl mt pr) = create_response i now pl mt pr e"
| "derive e (Handoff i now r m pl b) = create_handoff i now r m pl b e"
| "derive e (Ack i now) = create_ack i now e"
| "derive e (Error i now msg code) = create_error i now msg code e"

text \<open>A handoff names a receiver and a budget that \<open>validate\<close> accepts.\<close>

fun sound_derivation :: "derivation \<Rightarrow> bool" where
  "sound_derivation (Handoff i now r m pl b) =
     (\<not> blank r \<and> (case b of None \<Rightarrow> True | Some x \<Rightarrow> x \<ge> 0))"
| "sound_derivation _ = True"

definition conversation_inv :: "string \<Rightarrow> message_envelope \<Rightarrow> bool" where
  "conversation_inv t e \<longleftrightarrow> trace_id e = t \<and> validate e = Inr ()"

section \<open>Lemmas\<close>

lemma validate_ok_iff:
  "validate e = Inr () \<longleftrightarrow> \<not> blank (sender e) \<and> \<not> blank (receiver e) \<and>
     (\<forall>t. ttl_seconds e = Some t \<longrightarrow> 0 < t) \<and> (\<forall>b. cost_budget_usd e = Some b \<longrightarrow> 0 \<le> b)"
  by (auto simp: validate_def split: option.split)

lemma message_type_of_value [simp]: "message_type_of (JStr (message_type_value t)) = Some t"
  by (cases t) (simp_all add: message_type_of_def all_message_types_def)

lemma priority_of_value [simp]: "priority_of (priority_value p) = Some p"
  by (cases p) (simp_all add: priority_of_def all_priorities_def)

lemma opt_float_json_opt [simp]: "opt_float B (json_opt JFloat x) = Inr x"
  by (cases x) (simp_all add: opt_float_def)

lemma derive_links:
  "trace_id (derive e s) = trace_id e" "parent_message_id (derive e s) = Some (message_id e)"
  "sender (derive e s) = receiver e" "ttl_seconds (derive e s) = None"
  by (cases s; simp add: create_response_def create_handoff_def create_ack_def create_error_def)+

lemma derive_valid:
  assumes "validate e = Inr ()" "sound_derivation s"
  shows "validate (derive e s) = Inr ()"
  using assms
  by (cases s) (auto simp: validate_ok_iff create_response_def create_handoff_def create_ack_def
      create_error_def split: option.splits)

interpretation conversation: guarded_inv_system derive sound_derivation "conversation_inv t" for t
  by unfold_locales (simp add: conversation_inv_def derive_links derive_valid)

lemma to_dict_wf:
  assumes "json_wf (JObj (payload e))" "json_wf (JObj (env_metadata e))" "json_wf (topic e)"
  shows "json_wf (JObj (to_dict e))"
proof -
  have "json_wf (json_opt JStr x)" "json_wf (json_opt JFloat y)" for x y
    by (cases x; simp) (cases y; simp)
  with assms show ?thesis by (simp add: to_dict_def)
qed

text \<open>Reading back what was written, field by field.\<close>

lemma decode_to_dict:
  "List.find (\<lambda>f. \<not> dict_has (to_dict e) f) required_fields = None"
  "decode_message_type (to_dict e) = Inr (message_type e)"
  "decode_priority B (to_dict e) = Inr (priority e)"
  "decode_envelope B now (to_dict e) (message_type e) (priority e) = Inr e"
proof -
  show "List.find (\<lambda>f. \<not> dict_has (to_dict e) f) required_fields = None"
    by (simp add: required_fields_def dict_has_def to_dict_def)
  show "decode_message_type (to_dict e) = Inr (message_type e)"
    by (simp add: decode_message_type_def to_dict_def)
  show "decode_priority B (to_dict e) = Inr (priority e)"
    by (simp add: decode_priority_def to_dict_def)
  show "decode_envelope B now (to_dict e) (message_type e) (priority e) = Inr e"
    by (cases "parent_message_id e"; cases e)
      (simp_all add: decode_envelope_def json_at_def dict_get_or_def to_dict_def)
qed

lemma from_json_to_json:
  assumes "loads (to_json dumps e) = Inr (JObj (to_dict e))"
  shows "from_json B loads now (to_json dumps e) = Inr e"
  using assms by (simp add: from_json_def decode_to_dict)

lemma loads_to_json:
  assumes codec: "\<And>v. json_wf v \<Longrightarrow> loads (dumps v) = Inr v"
    and wf: "json_wf (JObj (payload e))" "json_wf (JObj (env_metadata e))" "json_wf (topic e)"
  shows "loads (to_json dumps e) = Inr (JObj (to_dict e))"
  unfolding to_json_def using to_dict_wf [OF wf] by (rule codec)

section \<open>Properties\<close>

text \<open>
  C11: \<open>from_json\<close> restores every envelope that \<open>to_json\<close> wrote, all thirteen fields, whatever the
  clock shows when it is read: given only that the JSON codec decodes what it encoded.
\<close>

theorem envelope_json_roundtrip:
  assumes codec: "\<And>v. json_wf v \<Longrightarrow> loads (dumps v) = Inr v"
    and wf: "json_wf (JObj (payload e))" "json_wf (JObj (env_metadata e))" "json_wf (topic e)"
  shows "from_json B loads now (to_json dumps e) = Inr e"
  using wf by (intro from_json_to_json loads_to_json codec)

theorem envelope_json_roundtrip_witness:
  "from_json \<lparr>repr_of = (\<lambda>_. []), float_of_str = Map.empty, int_of_str = Map.empty,
       dict_of_iter = (\<lambda>_. Inr [])\<rparr> Inr 9
     (to_json id \<lparr>sender = ''a'', receiver = ''b'', payload = [(''n'', JInt 1)],
        message_type = QUERY, priority = LOW, topic = JStr ''t'', trace_id = ''x'',
        parent_message_id = None, message_id = ''m'', created_at = 5, ttl_seconds = Some 3,
        cost_budget_usd = None, env_metadata = []\<rparr>) =
   Inr \<lparr>sender = ''a'', receiver = ''b'', payload = [(''n'', JInt 1)],
        message_type = QUERY, priority = LOW, topic = JStr ''t'', trace_id = ''x'',
        parent_message_id = None, message_id = ''m'', created_at = 5, ttl_seconds = Some 3,
        cost_budget_usd = None, env_metadata = []\<rparr>"
  by (rule envelope_json_roundtrip) simp_all

text \<open>
  Along every chain of responses, handoffs, acknowledgements and error replies the trace
  identifier of the first message is kept, each message is valid if the first one was (and the
  handoffs name a receiver and no negative budget), each names its predecessor as parent and
  comes from the predecessor's receiver, and none of them expires.
\<close>

theorem conversation_coherent:
  assumes "validate e = Inr ()" "list_all sound_derivation ss"
  shows "trace_id (foldl derive e ss) = trace_id e \<and> validate (foldl derive e ss) = Inr () \<and>
    (\<forall>i < length ss.
       parent_message_id (foldl derive e (take (Suc i) ss)) =
         Some (message_id (foldl derive e (take i ss))) \<and>
       sender (foldl derive e (take (Suc i) ss)) = receiver (foldl derive e (take i ss)) \<and>
       (\<forall>now. \<not> is_expired now (foldl derive e (take (Suc i) ss))))"
proof -
  have "conversation_inv (trace_id e) (foldl derive e ss)"
    using assms by (intro conversation.ok_run_inv) (simp_all add: conversation_inv_def)
  moreover have "foldl derive e (take (Suc i) ss) = derive (foldl derive e (take i ss)) (ss ! i)"
    if "i < length ss" for i
    using that by (simp add: take_Suc_conv_app_nth)
  ultimately show ?thesis by (simp add: conversation_inv_def derive_links is_expired_def)
qed

theorem conversation_coherent_witness:
  "trace_id (foldl derive \<lparr>sender = ''a'', receiver = ''b'', payload = [], message_type = TASK,
      priority = NORMAL, topic = JNull, trace_id = ''x'', parent_message_id = None,
      message_id = ''m'', created_at = 5, ttl_seconds = Some 3, cost_budget_usd = Some 1,
      env_metadata = []\<rparr>
     [Handoff ''m1'' 6 ''c'' \<lparr>source_agent = ''b'', target_agent = ''c'', hm_reason = [],
        cost_incurred_usd = 0, tokens_consumed = 0, hm_latency_ms = 0, handoff_timestamp = 6,
        attempt_number = 1\<rparr> None (Some (1/2)), Ack ''m2'' 7]) = ''x''"
proof -
  let ?e = "\<lparr>sender = ''a'', receiver = ''b'', payload = [], message_type = TASK,
      priority = NORMAL, topic = JNull, trace_id = ''x'', parent_message_id = None,
      message_id = ''m'', created_at = 5, ttl_seconds = Some 3, cost_budget_usd = Some 1,
      env_metadata = []\<rparr>"
  let ?ss = "[Handoff ''m1'' 6 ''c'' \<lparr>source_agent = ''b'', target_agent = ''c'', hm_reason = [],
        cost_incurred_usd = 0, tokens_consumed = 0, hm_latency_ms = 0, handoff_timestamp = 6,
        attempt_number = 1\<rparr> None (Some (1/2)), Ack ''m2'' 7]"
  have "validate ?e = Inr ()" by (simp add: validate_def blank_def py_isspace_def)
  moreover have "list_all sound_derivation ?ss" by (simp add: blank_def py_isspace_def)
  ultimately have "trace_id (foldl derive ?e ?ss) = trace_id ?e"
    using conversation_coherent [of ?e ?ss] by blast
  then show ?thesis by simp
qed

end
