(* ===== verification/Serializer.thy ===== *)
theory Serializer
  imports Messages "HOL-Library.Word" "HOL-Library.Countable"
begin

text \<open>
  \<open>messages/serializer.py\<close>: encoding envelopes as JSON or MessagePack bytes, with the fallback that is
  taken when the \<open>msgpack\<close> package is not installed. The codecs are parameters: the JSON codec of
  \<open>to_json\<close>/\<open>from_json\<close>, and \<open>msgpack\<close>, which is present or absent on either side.
\<close>

type_synonym bytes = "8 word list"

datatype wire_format = FJson | FMsgpack

record msgpack =
  packb :: "json \<Rightarrow> bytes"
  unpackb :: "bytes \<Rightarrow> exn + json"

record codecs =
  json_dumps :: "json \<Rightarrow> bytes"
  json_loads :: "bytes \<Rightarrow> exn + json"
  msgpack_lib :: "msgpack option"

definition msgpack_header :: bytes where
  "msgpack_header = [0xc1]"

definition envelope_to_wire_dict :: "message_envelope \<Rightarrow> (string, json) dict" where
  "envelope_to_wire_dict e =
     [(''sender'', JStr (sender e)), (''receiver'', JStr (receiver e)), (''payload'', JObj (payload e)),
      (''message_type'', JStr (message_type_value (message_type e))),
      (''priority'', JInt (priority_value (priority e))), (''topic'', topic e),
      (''trace_id'', JStr (trace_id e)), (''parent_message_id'', json_opt JStr (parent_message_id e)),
      (''message_id'', JStr (message_id e)), (''created_at'', JFloat (created_at e)),
      (''ttl_seconds'', json_opt JFloat (ttl_seconds e)),
      (''cost_budget_usd'', json_opt JFloat (cost_budget_usd e)), (''metadata'', JObj (env_metadata e))]"

text \<open>\<open>data[k]\<close>.\<close>

definition item :: "(string, json) dict \<Rightarrow> string \<Rightarrow> exn + json" where
  "item data k = (case dict_get data k of None \<Rightarrow> Inl (KeyError k) | Some v \<Rightarrow> Inr v)"

definition wire_dict_to_envelope :: "builtins \<Rightarrow> (string, json) dict \<Rightarrow> exn + message_envelope" where
  "wire_dict_to_envelope B data =
     and_then (item data ''sender'') (\<lambda>s.
     and_then (item data ''receiver'') (\<lambda>r.
     and_then (and_then (item data ''payload'') (py_dict B)) (\<lambda>pl.
     and_then (and_then (item data ''message_type'') (\<lambda>t. need (ValueError ''message_type'') (message_type_of t))) (\<lambda>mt.
     and_then (and_then (and_then (item data ''priority'') (py_int B)) (\<lambda>n. need (ValueError ''priority'') (priority_of n))) (\<lambda>pr.
     and_then (item data ''trace_id'') (\<lambda>tr.
     and_then (item data ''message_id'') (\<lambda>mi.
     and_then (py_float B (dict_get_or data ''created_at'' (JFloat 0))) (\<lambda>ca.
     and_then (opt_float B (json_at data ''ttl_seconds'')) (\<lambda>ttl.
     and_then (opt_float B (json_at data ''cost_budget_usd'')) (\<lambda>cost.
     and_then (py_dict B (dict_get_or data ''metadata'' (JObj []))) (\<lambda>md.
      Inr \<lparr>sender = py_str B s, receiver = py_str B r, payload = pl, message_type = mt, priority = pr,
           topic = json_at data ''topic'', trace_id = py_str B tr,
           parent_message_id =
             (if json_at data ''parent_message_id'' = JNull then None
              else Some (py_str B (json_at data ''parent_message_id''))),
           message_id = py_str B mi, created_at = ca, ttl_seconds = ttl, cost_budget_usd = cost,
           env_metadata = md\<rparr>)))))))))))"

definition encode_msgpack :: "codecs \<Rightarrow> message_envelope \<Rightarrow> bytes" where
  "encode_msgpack C e =
     (case msgpack_lib C of
        Some m \<Rightarrow> packb m (JObj (envelope_to_wire_dict e))
      | None \<Rightarrow> msgpack_header @ to_json (json_dumps C) e)"

definition encode :: "codecs \<Rightarrow> wire_format \<Rightarrow> message_envelope \<Rightarrow> bytes" where
  "encode C fmt e = (if fmt = FMsgpack then encode_msgpack C e else to_json (json_dumps C) e)"

definition starts_with :: "bytes \<Rightarrow> bytes \<Rightarrow> bool" where
  "starts_with pre raw \<longleftrightarrow> take (length pre) raw = pre"

text \<open>Every \<open>Exception\<close> of the unpacking becomes a \<open>ValueError\<close>; a document that is not an object
  cannot be subscripted with a string.\<close>

definition decode_msgpack :: "builtins \<Rightarrow> codecs \<Rightarrow> timestamp \<Rightarrow> bytes \<Rightarrow> exn + message_envelope" where
  "decode_msgpack B C now raw =
     (if starts_with msgpack_header raw
      then from_json B (json_loads C) now (drop (length msgpack_header) raw)
      else case msgpack_lib C of
        None \<Rightarrow> Inl (ValueError ''msgpack is not installed'')
      | Some m \<Rightarrow>
          (case (case unpackb m raw of
                   Inl x \<Rightarrow> Inl x
                 | Inr (JObj data) \<Rightarrow> wire_dict_to_envelope B data
                 | Inr _ \<Rightarrow> Inl (TypeError ''indices'')) of
             Inr e \<Rightarrow> Inr e
           | Inl x \<Rightarrow> (if is_exception x then Inl (ValueError ''msgpack'') else Inl x)))"

definition decode :: "builtins \<Rightarrow> codecs \<Rightarrow> wire_format \<Rightarrow> timestamp \<Rightarrow> bytes \<Rightarrow> exn + message_envelope" where
  "decode B C fmt now raw =
     (if fmt = FMsgpack then decode_msgpack B C now raw else from_json B (json_loads C) now raw)"

definition supports_msgpack :: "codecs \<Rightarrow> bool" where
  "supports_msgpack C \<longleftrightarrow> msgpack_lib C \<noteq> None"

section \<open>Lemmas\<close>

lemma wire_dict: "envelope_to_wire_dict = to_dict"
  by (simp add: fun_eq_iff envelope_to_wire_dict_def to_dict_def)

lemma wire_dict_to_envelope_wire: "wire_dict_to_envelope B (to_dict e) = Inr e"
  by (cases "parent_message_id e"; cases e)
    (simp_all add: wire_dict_to_envelope_def item_def json_at_def dict_get_or_def to_dict_def)

section \<open>Property\<close>


text \<open>Codecs that satisfy the hypotheses: documents are numbered, and a number is the length of a
  sequence of zero bytes.\<close>

instance json :: countable
  by countable_datatype

definition number_codec :: msgpack where
  "number_codec = \<lparr>packb = (\<lambda>v. replicate (to_nat v) 0), unpackb = (\<lambda>bs. Inr (from_nat (length bs)))\<rparr>"

definition example_codecs :: "bool \<Rightarrow> codecs" where
  "example_codecs installed = \<lparr>json_dumps = packb number_codec, json_loads = unpackb number_codec,
     msgpack_lib = (if installed then Some number_codec else None)\<rparr>"

definition example_envelope :: message_envelope where
  "example_envelope = \<lparr>sender = ''a'', receiver = ''b'', payload = [(''n'', JInt 1)], message_type = QUERY,
     priority = LOW, topic = JStr ''t'', trace_id = ''x'', parent_message_id = None, message_id = ''m'',
     created_at = 5, ttl_seconds = Some 3, cost_budget_usd = None, env_metadata = []\<rparr>"


end
