(* ===== verification/Circuit_Breaker.thy ===== *)
theory Circuit_Breaker
  imports Mesh_Prelude
begin

text \<open>
  \<open>resilience/circuit_breaker.py\<close>: the configuration and its validation, the breaker's
  state, one definition per method, and the breaker as a machine whose steps are the sections
  the code runs under its lock. \<open>execute\<close> releases the lock while the wrapped callable runs,
  so concurrent calls interleave exactly as sequences of these steps; the clock readings are
  arguments of the steps.
\<close>

section \<open>State\<close>

datatype circuit_state = CLOSED | OPEN | HALF_OPEN

record cb_config =
  failure_threshold :: int
  recovery_timeout_seconds :: pyfloat
  half_open_max_calls :: int
  success_threshold :: int

definition CircuitBreakerConfig :: "int \<Rightarrow> pyfloat \<Rightarrow> int \<Rightarrow> int \<Rightarrow> exn + cb_config" where
  "CircuitBreakerConfig ft rt hm st =
     (if ft < 1 then Inl (ValueError ''failure_threshold'')
      else if rt \<le> 0 then Inl (ValueError ''recovery_timeout_seconds'')
      else if hm < 1 then Inl (ValueError ''half_open_max_calls'')
      else if st < 1 then Inl (ValueError ''success_threshold'')
      else if st > hm then Inl (ValueError ''success_threshold'')
      else Inr \<lparr>failure_threshold = ft, recovery_timeout_seconds = rt,
                half_open_max_calls = hm, success_threshold = st\<rparr>)"

record circuit_breaker =
  cb_config :: cb_config
  cb_name :: string
  cb_state :: circuit_state
  failure_count :: int
  success_count :: int
  half_open_call_count :: int
  opened_at :: "timestamp option"
  total_calls :: int
  total_successes :: int
  total_failures :: int
  total_rejected :: int

definition CircuitBreaker :: "cb_config \<Rightarrow> string \<Rightarrow> circuit_breaker" where
  "CircuitBreaker cfg name =
     \<lparr>cb_config = cfg, cb_name = name, cb_state = CLOSED, failure_count = 0, success_count = 0,
      half_open_call_count = 0, opened_at = None, total_calls = 0, total_successes = 0,
      total_failures = 0, total_rejected = 0\<rparr>"

section \<open>Operations\<close>

fun transition_to :: "timestamp \<Rightarrow> circuit_state \<Rightarrow> circuit_breaker \<Rightarrow> circuit_breaker" where
  "transition_to now OPEN cb =
     cb\<lparr>cb_state := OPEN, opened_at := Some now, failure_count := 0, success_count := 0,
        half_open_call_count := 0\<rparr>"
| "transition_to now HALF_OPEN cb =
     cb\<lparr>cb_state := HALF_OPEN, success_count := 0, half_open_call_count := 0\<rparr>"
| "transition_to now CLOSED cb =
     cb\<lparr>cb_state := CLOSED, opened_at := None, failure_count := 0, success_count := 0,
        half_open_call_count := 0\<rparr>"

definition maybe_transition_to_half_open :: "timestamp \<Rightarrow> circuit_breaker \<Rightarrow> circuit_breaker" where
  "maybe_transition_to_half_open now cb =
     (case (cb_state cb, opened_at cb) of
        (OPEN, Some t) \<Rightarrow>
          if now - t \<ge> recovery_timeout_seconds (cb_config cb)
          then transition_to now HALF_OPEN cb else cb
      | _ \<Rightarrow> cb)"

definition read_state :: "timestamp \<Rightarrow> circuit_breaker \<Rightarrow> circuit_breaker \<times> circuit_state" where
  \<comment> \<open>the \<open>state\<close> property\<close>
  "read_state now cb = (let cb' = maybe_transition_to_half_open now cb in (cb', cb_state cb'))"

definition admit :: "timestamp \<Rightarrow> circuit_breaker \<Rightarrow> (circuit_breaker, unit) outcome" where
  \<comment> \<open>the section of \<open>execute\<close> before the callable runs\<close>
  "admit now cb0 =
     (let cb = maybe_transition_to_half_open now cb0 in
      if cb_state cb = OPEN then
        (cb\<lparr>total_rejected := total_rejected cb + 1\<rparr>, Inl (CircuitBreakerOpenError (cb_name cb)))
      else if cb_state cb = HALF_OPEN then
        if half_open_call_count cb \<ge> half_open_max_calls (cb_config cb) then
          (cb\<lparr>total_rejected := total_rejected cb + 1\<rparr>, Inl (CircuitBreakerOpenError (cb_name cb)))
        else (cb\<lparr>half_open_call_count := half_open_call_count cb + 1,
                 total_calls := total_calls cb + 1\<rparr>, Inr ())
      else (cb\<lparr>total_calls := total_calls cb + 1\<rparr>, Inr ()))"

definition record_success :: "timestamp \<Rightarrow> circuit_breaker \<Rightarrow> circuit_breaker" where
  "record_success now cb0 =
     (let cb = cb0\<lparr>total_successes := total_successes cb0 + 1\<rparr> in
      case cb_state cb of
        CLOSED \<Rightarrow> cb\<lparr>failure_count := 0\<rparr>
      | HALF_OPEN \<Rightarrow>
          (let cb' = cb\<lparr>success_count := success_count cb + 1\<rparr> in
           if success_count cb' \<ge> success_threshold (cb_config cb')
           then transition_to now CLOSED cb' else cb')
      | OPEN \<Rightarrow> cb)"

definition record_failure :: "timestamp \<Rightarrow> circuit_breaker \<Rightarrow> circuit_breaker" where
  "record_failure now cb0 =
     (let cb = cb0\<lparr>total_failures := total_failures cb0 + 1\<rparr> in
      case cb_state cb of
        CLOSED \<Rightarrow>
          (let cb' = cb\<lparr>failure_count := failure_count cb + 1\<rparr> in
           if failure_count cb' \<ge> failure_threshold (cb_config cb')
           then transition_to now OPEN cb' else cb')
      | HALF_OPEN \<Rightarrow> transition_to now OPEN cb
      | OPEN \<Rightarrow> cb)"

definition cb_reset :: "timestamp \<Rightarrow> circuit_breaker \<Rightarrow> circuit_breaker" where
  "cb_reset now cb = (transition_to now CLOSED cb)\<lparr>failure_count := 0\<rparr>"

text \<open>
  \<open>execute(fn)\<close> with no other thread between its two sections. The callable's outcome is an
  argument: its value, or the exception it raises; an exception outside \<open>Exception\<close> leaves
  \<open>execute\<close> without being recorded.
\<close>

definition cb_execute ::
    "timestamp \<Rightarrow> timestamp \<Rightarrow> exn + 'a \<Rightarrow> circuit_breaker \<Rightarrow> (circuit_breaker, 'a) outcome" where
  "cb_execute now now' fn cb =
     (case admit now cb of
        (cb1, Inl e) \<Rightarrow> (cb1, Inl e)
      | (cb1, Inr _) \<Rightarrow>
          (case fn of
             Inl e \<Rightarrow> (if is_exception e then (record_failure now' cb1, Inl e) else (cb1, Inl e))
           | Inr v \<Rightarrow> (record_success now' cb1, Inr v)))"

section \<open>The breaker as a machine\<close>

text \<open>One event per section that runs under the lock.\<close>

datatype cb_event =
    Admit timestamp
  | Success timestamp
  | Failure timestamp
  | Reset timestamp
  | ReadState timestamp

fun cb_step :: "circuit_breaker \<Rightarrow> cb_event \<Rightarrow> circuit_breaker" where
  "cb_step cb (Admit now) = fst (admit now cb)"
| "cb_step cb (Success now) = record_success now cb"
| "cb_step cb (Failure now) = record_failure now cb"
| "cb_step cb (Reset now) = cb_reset now cb"
| "cb_step cb (ReadState now) = fst (read_state now cb)"

definition cb_valid_config :: "cb_config \<Rightarrow> bool" where
  "cb_valid_config cfg \<longleftrightarrow> failure_threshold cfg \<ge> 1 \<and> recovery_timeout_seconds cfg > 0 \<and>
     half_open_max_calls cfg \<ge> 1 \<and> success_threshold cfg \<ge> 1 \<and>
     success_threshold cfg \<le> half_open_max_calls cfg"

text \<open>
  The invariant: the counters stay below their thresholds and belong to the state they are
  used in, and \<open>_opened_at\<close> is set exactly while the circuit is not closed.
\<close>

definition cb_inv :: "circuit_breaker \<Rightarrow> bool" where
  "cb_inv cb \<longleftrightarrow>
     cb_valid_config (cb_config cb) \<and>
     0 \<le> failure_count cb \<and> failure_count cb < failure_threshold (cb_config cb) \<and>
     0 \<le> success_count cb \<and> success_count cb < success_threshold (cb_config cb) \<and>
     0 \<le> half_open_call_count cb \<and> half_open_call_count cb \<le> half_open_max_calls (cb_config cb) \<and>
     (opened_at cb = None \<longleftrightarrow> cb_state cb = CLOSED) \<and>
     (cb_state cb \<noteq> CLOSED \<longrightarrow> failure_count cb = 0) \<and>
     (cb_state cb \<noteq> HALF_OPEN \<longrightarrow> success_count cb = 0 \<and> half_open_call_count cb = 0)"

text \<open>The number of calls a run of events lets through.\<close>

fun admitted :: "circuit_breaker \<Rightarrow> cb_event list \<Rightarrow> nat" where
  "admitted cb [] = 0"
| "admitted cb (e # es) =
     (case e of Admit now \<Rightarrow> (case snd (admit now cb) of Inl _ \<Rightarrow> 0 | Inr _ \<Rightarrow> 1) | _ \<Rightarrow> 0)
     + admitted (cb_step cb e) es"

fun event_time :: "cb_event \<Rightarrow> timestamp" where
  "event_time (Admit t) = t"
| "event_time (Success t) = t"
| "event_time (Failure t) = t"
| "event_time (Reset t) = t"
| "event_time (ReadState t) = t"

fun is_reset :: "cb_event \<Rightarrow> bool" where
  "is_reset (Reset _) = True"
| "is_reset _ = False"

text \<open>Whole calls, one after the other.\<close>

fun cb_call :: "circuit_breaker \<Rightarrow> timestamp \<times> timestamp \<times> (exn + 'a) \<Rightarrow> circuit_breaker" where
  "cb_call cb (t, t', fn) = fst (cb_execute t t' fn cb)"

fun failing :: "timestamp \<times> timestamp \<times> (exn + 'a) \<Rightarrow> bool" where
  "failing (_, _, Inl e) = is_exception e"
| "failing (_, _, Inr _) = False"

fun succeeding :: "timestamp \<times> timestamp \<times> (exn + 'a) \<Rightarrow> bool" where
  "succeeding (_, _, Inl _) = False"
| "succeeding (_, _, Inr _) = True"

section \<open>Lemmas\<close>

lemmas cb_ops = maybe_transition_to_half_open_def read_state_def admit_def record_success_def
  record_failure_def cb_reset_def Let_def

lemma CircuitBreakerConfig_valid:
  "CircuitBreakerConfig ft rt hm st = Inr cfg \<Longrightarrow> cb_valid_config cfg"
  by (auto simp: CircuitBreakerConfig_def cb_valid_config_def split: if_splits)

lemma CircuitBreaker_inv: "cb_valid_config cfg \<Longrightarrow> cb_inv (CircuitBreaker cfg name)"
  by (auto simp: cb_inv_def cb_valid_config_def CircuitBreaker_def)

lemma transition_inv:
  "cb_inv cb \<Longrightarrow> s = HALF_OPEN \<longrightarrow> cb_state cb = OPEN \<Longrightarrow> cb_inv (transition_to now s cb)"
  by (cases s) (auto simp: cb_inv_def cb_valid_config_def)

lemma maybe_half_open_inv: "cb_inv cb \<Longrightarrow> cb_inv (maybe_transition_to_half_open now cb)"
  by (auto simp: maybe_transition_to_half_open_def transition_inv simp del: transition_to.simps
      split: circuit_state.split option.split)

lemma admit_inv: "cb_inv cb \<Longrightarrow> cb_inv (fst (admit now cb))"
proof -
  assume "cb_inv cb"
  then have "cb_inv (maybe_transition_to_half_open now cb)" by (rule maybe_half_open_inv)
  then show ?thesis by (auto simp: admit_def Let_def cb_inv_def)
qed

lemma record_success_inv: "cb_inv cb \<Longrightarrow> cb_inv (record_success now cb)"
  by (auto simp: record_success_def Let_def cb_inv_def cb_valid_config_def
      split: circuit_state.split)

lemma record_failure_inv: "cb_inv cb \<Longrightarrow> cb_inv (record_failure now cb)"
  by (auto simp: record_failure_def Let_def cb_inv_def cb_valid_config_def
      split: circuit_state.split)

lemma cb_reset_inv: "cb_inv cb \<Longrightarrow> cb_inv (cb_reset now cb)"
  by (auto simp: cb_reset_def cb_inv_def cb_valid_config_def)

lemma cb_step_inv: "cb_inv cb \<Longrightarrow> cb_inv (cb_step cb e)"
  by (cases e) (auto simp: read_state_def Let_def maybe_half_open_inv admit_inv
      record_success_inv record_failure_inv cb_reset_inv)

interpretation cb_machine: inv_system cb_step cb_inv
  by unfold_locales (rule cb_step_inv)

text \<open>While the circuit is open and the timeout has not elapsed, no step but a reset leaves it.\<close>

interpretation cb_open: guarded_inv_system cb_step
    "\<lambda>e. \<not> is_reset e \<and> event_time e - t < rt"
    "\<lambda>cb. cb_state cb = OPEN \<and> opened_at cb = Some t \<and>
       recovery_timeout_seconds (cb_config cb) = rt"
  for t rt
proof unfold_locales
  fix cb :: circuit_breaker and e
  assume "cb_state cb = OPEN \<and> opened_at cb = Some t \<and>
       recovery_timeout_seconds (cb_config cb) = rt"
    and "\<not> is_reset e \<and> event_time e - t < rt"
  then show "cb_state (cb_step cb e) = OPEN \<and> opened_at (cb_step cb e) = Some t \<and>
       recovery_timeout_seconds (cb_config (cb_step cb e)) = rt"
    by (cases e) (auto simp: cb_ops)
qed

lemma open_admit_rejected:
  "cb_state cb = OPEN \<Longrightarrow> opened_at cb = Some t \<Longrightarrow>
   now - t < recovery_timeout_seconds (cb_config cb) \<Longrightarrow> isl (snd (admit now cb))"
  by (auto simp: cb_ops)

lemma open_admitted_none:
  assumes "cb_state cb = OPEN" "opened_at cb = Some t"
    and "recovery_timeout_seconds (cb_config cb) = rt"
    and "list_all (\<lambda>e. \<not> is_reset e \<and> event_time e - t < rt) es"
  shows "admitted cb es = 0"
  using assms
proof (induction es arbitrary: cb)
  case (Cons e es)
  note open_step = cb_open.ok_step_inv [of cb t rt e]
  have "(case e of Admit now \<Rightarrow> (case snd (admit now cb) of Inl _ \<Rightarrow> 0 | Inr _ \<Rightarrow> 1) | _ \<Rightarrow> 0) = (0::nat)"
    using Cons.prems open_admit_rejected [of cb t]
    by (cases e) (fastforce simp: isl_def split: sum.split)+
  with Cons open_step show ?case by simp
qed simp

text \<open>Half-open: a step that stays half-open counts exactly the probe it lets through.\<close>

lemma half_open_step_count:
  assumes "cb_state cb = HALF_OPEN" "cb_state (cb_step cb e) = HALF_OPEN"
  shows "half_open_call_count (cb_step cb e) = half_open_call_count cb +
     int (case e of Admit now \<Rightarrow> (case snd (admit now cb) of Inl _ \<Rightarrow> 0 | Inr _ \<Rightarrow> 1) | _ \<Rightarrow> 0)"
    and "cb_config (cb_step cb e) = cb_config cb"
  using assms by (cases e; auto simp: cb_ops split: if_splits)+

lemma half_open_admitted_count:
  assumes "\<forall>n \<le> length es. cb_state (foldl cb_step cb (take n es)) = HALF_OPEN"
  shows "half_open_call_count (foldl cb_step cb es) = half_open_call_count cb + int (admitted cb es)
    \<and> cb_config (foldl cb_step cb es) = cb_config cb"
  using assms
proof (induction es arbitrary: cb)
  case (Cons e es)
  have here: "cb_state cb = HALF_OPEN" "cb_state (cb_step cb e) = HALF_OPEN"
    using Cons.prems [rule_format, of 0] Cons.prems [rule_format, of 1] by simp_all
  have "\<forall>n \<le> length es. cb_state (foldl cb_step (cb_step cb e) (take n es)) = HALF_OPEN"
    using Cons.prems by (metis Suc_le_mono foldl_Cons length_Cons take_Suc_Cons)
  from Cons.IH [OF this] half_open_step_count [OF here] show ?case by simp
qed simp

lemma cb_call_inv: "cb_inv cb \<Longrightarrow> cb_inv (cb_call cb c)"
proof -
  assume inv: "cb_inv cb"
  obtain t t' fn where c: "c = (t, t', fn)" by (cases c)
  obtain cb1 r where a: "admit t cb = (cb1, r)" by (cases "admit t cb")
  with admit_inv [OF inv, of t] have "cb_inv cb1" by simp
  then show ?thesis
    by (simp add: c a cb_execute_def record_failure_inv record_success_inv split: sum.split)
qed

interpretation cb_calls: inv_system cb_call cb_inv
  by unfold_locales (rule cb_call_inv)

lemma failing_call_closed:
  assumes "cb_state cb = CLOSED" "failing c"
  shows "cb_state (cb_call cb c) =
      (if failure_count cb + 1 \<ge> failure_threshold (cb_config cb) then OPEN else CLOSED)"
    and "failure_count cb + 1 < failure_threshold (cb_config cb) \<Longrightarrow>
      failure_count (cb_call cb c) = failure_count cb + 1"
    and "cb_config (cb_call cb c) = cb_config cb"
  using assms by (cases c rule: failing.cases; auto simp: cb_execute_def cb_ops)+

lemma succeeding_call_half_open:
  assumes "cb_state cb = HALF_OPEN" "succeeding c"
    and "half_open_call_count cb < half_open_max_calls (cb_config cb)"
  shows "cb_state (cb_call cb c) =
      (if success_count cb + 1 \<ge> success_threshold (cb_config cb) then CLOSED else HALF_OPEN)"
    and "success_count cb + 1 < success_threshold (cb_config cb) \<Longrightarrow>
      success_count (cb_call cb c) = success_count cb + 1 \<and>
      half_open_call_count (cb_call cb c) = half_open_call_count cb + 1"
    and "cb_config (cb_call cb c) = cb_config cb"
    and "total_rejected (cb_call cb c) = total_rejected cb"
  using assms by (cases c rule: succeeding.cases; auto simp: cb_execute_def cb_ops)+

lemma half_open_successes_close:
  assumes "cb_state cb = HALF_OPEN" "success_count cb = half_open_call_count cb"
    and "success_threshold (cb_config cb) \<le> half_open_max_calls (cb_config cb)"
    and "list_all succeeding calls" "calls \<noteq> []"
    and "success_count cb + int (length calls) = success_threshold (cb_config cb)"
  shows "cb_state (foldl cb_call cb calls) = CLOSED \<and>
    total_rejected (foldl cb_call cb calls) = total_rejected cb"
  using assms
proof (induction calls arbitrary: cb)
  case (Cons c calls)
  then have room: "half_open_call_count cb < half_open_max_calls (cb_config cb)" by simp
  have c: "succeeding c" using Cons.prems by simp
  note call = succeeding_call_half_open [OF Cons.prems(1) c room]
  show ?case
  proof (cases "calls = []")
    case True
    with Cons.prems call show ?thesis by simp
  next
    case False
    then have "1 \<le> int (length calls)" by (cases calls) auto
    then have more: "success_count cb + 1 < success_threshold (cb_config cb)"
      using Cons.prems(6) by simp
    with Cons.IH [of "cb_call cb c"] Cons.prems call False show ?thesis by simp
  qed
qed simp

lemma half_open_call_reopens:
  assumes "cb_state cb = HALF_OPEN" "failing (t, t', fn)"
    and "half_open_call_count cb < half_open_max_calls (cb_config cb)"
  shows "cb_state (cb_call cb (t, t', fn)) = OPEN \<and> opened_at (cb_call cb (t, t', fn)) = Some t'"
  using assms by (cases fn) (auto simp: cb_execute_def cb_ops)

lemma cb_call_counts:
  assumes "failing c \<or> succeeding c"
  shows "total_calls (cb_call cb c) + total_rejected (cb_call cb c) =
      total_calls cb + total_rejected cb + 1"
    and "total_calls (cb_call cb c) - total_successes (cb_call cb c) - total_failures (cb_call cb c)
      = total_calls cb - total_successes cb - total_failures cb"
  using assms
  by (cases c rule: failing.cases;
      auto simp: cb_execute_def cb_ops split: circuit_state.split option.split)+

section \<open>Properties\<close>



text \<open>
  An open circuit sheds load: until the recovery timeout has elapsed since it opened, and
  unless it is reset, no run of events lets a single call through, whatever results are
  recorded meanwhile, and the circuit is still open at the end with the same opening time.
\<close>

theorem cb_open_sheds_load:
  assumes "cb_state cb = OPEN" "opened_at cb = Some t"
    and "list_all (\<lambda>e. \<not> is_reset e \<and>
           event_time e - t < recovery_timeout_seconds (cb_config cb)) es"
  shows "admitted cb es = 0 \<and> cb_state (foldl cb_step cb es) = OPEN \<and>
    opened_at (foldl cb_step cb es) = Some t"
  using assms open_admitted_none [of cb t _ es] cb_open.ok_run_inv [of cb t _ es] by simp

theorem cb_open_sheds_load_witness:
  "admitted (transition_to 10 OPEN (CircuitBreaker \<lparr>failure_threshold = 1,
       recovery_timeout_seconds = 30, half_open_max_calls = 1, success_threshold = 1\<rparr> ''api''))
     [Admit 11, Success 12, Admit 39, Failure 39] = 0"
  using cb_open_sheds_load [of "transition_to 10 OPEN (CircuitBreaker \<lparr>failure_threshold = 1,
       recovery_timeout_seconds = 30, half_open_max_calls = 1, success_threshold = 1\<rparr> ''api'')" 10
     "[Admit 11, Success 12, Admit 39, Failure 39]"]
  by (simp add: CircuitBreaker_def)

text \<open>
  C32: While the circuit stays half-open, at most \<open>half_open_max_calls\<close> probe calls are let
  through in total, even when calls from several threads interleave.
\<close>

theorem cb_half_open_quota:
  assumes "cb_inv cb"
    and "\<forall>n \<le> length es. cb_state (foldl cb_step cb (take n es)) = HALF_OPEN"
  shows "half_open_call_count cb + int (admitted cb es) \<le> half_open_max_calls (cb_config cb)"
  using cb_machine.run_inv [OF assms(1), of es] half_open_admitted_count [OF assms(2)]
  by (simp add: cb_inv_def)

theorem cb_half_open_quota_witness:
  "int (admitted (CircuitBreaker \<lparr>failure_threshold = 1,
       recovery_timeout_seconds = 30, half_open_max_calls = 2, success_threshold = 2\<rparr> ''api''
     \<lparr>cb_state := HALF_OPEN, opened_at := Some 0\<rparr>) [Admit 40, Admit 41, Admit 42]) \<le> 2"
  using cb_half_open_quota [of "CircuitBreaker \<lparr>failure_threshold = 1,
       recovery_timeout_seconds = 30, half_open_max_calls = 2, success_threshold = 2\<rparr> ''api''
     \<lparr>cb_state := HALF_OPEN, opened_at := Some 0\<rparr>" "[Admit 40, Admit 41, Admit 42]"]
  by (simp add: CircuitBreaker_def cb_inv_def cb_valid_config_def cb_ops take_Cons' numeral_eq_Suc
      split: nat.split)

text \<open>
  A closed circuit trips at the threshold and not before: a run of consecutive failing
  calls, no longer than what is left of the failure threshold, opens the circuit exactly when
  it uses the threshold up.
\<close>

theorem cb_trips_at_threshold:
  fixes calls :: "(timestamp \<times> timestamp \<times> (exn + 'a)) list"
  assumes "cb_inv cb" "cb_state cb = CLOSED" "list_all failing calls"
    and "failure_count cb + int (length calls) \<le> failure_threshold (cb_config cb)"
  shows "cb_state (foldl cb_call cb calls) =
    (if failure_count cb + int (length calls) = failure_threshold (cb_config cb)
     then OPEN else CLOSED)"
  using assms
proof (induction calls arbitrary: cb)
  case Nil
  then show ?case by (simp add: cb_inv_def)
next
  case (Cons c calls)
  then have c: "failing c" by simp
  note call = failing_call_closed [OF Cons.prems(2) c]
  show ?case
  proof (cases "calls = []")
    case True
    with Cons.prems call show ?thesis by simp
  next
    case False
    then have "1 \<le> int (length calls)" by (cases calls) auto
    then have room: "failure_count cb + 1 < failure_threshold (cb_config cb)"
      using Cons.prems(4) by simp
    have "cb_inv (cb_call cb c)" using Cons.prems(1) by (rule cb_call_inv)
    with Cons.IH [of "cb_call cb c"] Cons.prems call room show ?thesis by simp
  qed
qed

theorem cb_trips_at_threshold_witness:
  "cb_state (foldl cb_call (CircuitBreaker \<lparr>failure_threshold = 2,
       recovery_timeout_seconds = 30, half_open_max_calls = 1, success_threshold = 1\<rparr> ''api'')
     [(0, 1, Inl (AppError ''boom'') :: exn + unit), (2, 3, Inl (AppError ''boom''))]) = OPEN"
  using cb_trips_at_threshold [of "CircuitBreaker \<lparr>failure_threshold = 2,
       recovery_timeout_seconds = 30, half_open_max_calls = 1, success_threshold = 1\<rparr> ''api''"
     "[(0, 1, Inl (AppError ''boom'') :: exn + unit), (2, 3, Inl (AppError ''boom''))]"]
  by (simp add: CircuitBreaker_def cb_inv_def cb_valid_config_def)

text \<open>
  C36: An open circuit recovers: once the recovery timeout has elapsed, \<open>success_threshold\<close>
  successful calls in a row close it, and none of them is rejected on the way.
\<close>

theorem cb_recovers:
  fixes calls :: "(timestamp \<times> timestamp \<times> (exn + 'a)) list"
  assumes "cb_inv cb" "cb_state cb = OPEN" "opened_at cb = Some t0"
    and "list_all succeeding calls"
    and "int (length calls) = success_threshold (cb_config cb)"
    and "fst (hd calls) - t0 \<ge> recovery_timeout_seconds (cb_config cb)"
  shows "cb_state (foldl cb_call cb calls) = CLOSED \<and>
    total_rejected (foldl cb_call cb calls) = total_rejected cb"
proof -
  obtain t t' fn cs where calls: "calls = (t, t', fn) # cs"
    using assms(1,5) by (cases calls) (auto simp: cb_inv_def cb_valid_config_def)
  let ?h = "transition_to t HALF_OPEN cb"
  have "cb_call ?h (t, t', fn) = cb_call cb (t, t', fn)"
    using assms(2,3,6) by (simp add: calls cb_execute_def admit_def Let_def maybe_transition_to_half_open_def)
  then have "foldl cb_call cb calls = foldl cb_call ?h calls" by (simp add: calls)
  moreover have "cb_state (foldl cb_call ?h calls) = CLOSED \<and>
      total_rejected (foldl cb_call ?h calls) = total_rejected ?h"
    using assms by (intro half_open_successes_close)
      (auto simp: cb_inv_def cb_valid_config_def calls)
  ultimately show ?thesis by simp
qed

theorem cb_recovers_witness:
  "cb_state (foldl cb_call (transition_to 0 OPEN (CircuitBreaker \<lparr>failure_threshold = 2,
       recovery_timeout_seconds = 30, half_open_max_calls = 3, success_threshold = 2\<rparr> ''api''))
     [(30, 31, Inr True), (32, 33, Inr False)]) = CLOSED"
  using cb_recovers [of "transition_to 0 OPEN (CircuitBreaker \<lparr>failure_threshold = 2,
       recovery_timeout_seconds = 30, half_open_max_calls = 3, success_threshold = 2\<rparr> ''api'')"
     0 "[(30, 31, Inr True), (32, 33, Inr False)]"]
  by (simp add: CircuitBreaker_def cb_inv_def cb_valid_config_def)

text \<open>
  The lifetime metrics account for every call: over any sequence of calls whose callable
  returns or raises an \<open>Exception\<close>, attempted plus rejected calls is the number of calls made,
  and every attempted call is recorded as exactly one success or one failure.
\<close>

theorem cb_accounting:
  fixes calls :: "(timestamp \<times> timestamp \<times> (exn + 'a)) list"
  assumes "list_all (\<lambda>c. failing c \<or> succeeding c) calls"
  shows "let cb = foldl cb_call (CircuitBreaker cfg name) calls in
    total_calls cb + total_rejected cb = int (length calls) \<and>
    total_calls cb = total_successes cb + total_failures cb"
proof -
  have gen: "total_calls (foldl cb_call cb0 calls) + total_rejected (foldl cb_call cb0 calls) =
      total_calls cb0 + total_rejected cb0 + int (length calls) \<and>
    total_calls (foldl cb_call cb0 calls) - total_successes (foldl cb_call cb0 calls) -
      total_failures (foldl cb_call cb0 calls)
    = total_calls cb0 - total_successes cb0 - total_failures cb0" for cb0
    using assms by (induction calls arbitrary: cb0) (auto simp: cb_call_counts)
  from gen [of "CircuitBreaker cfg name"] show ?thesis
    by (simp add: Let_def CircuitBreaker_def)
qed

theorem cb_accounting_witness:
  "total_calls (foldl cb_call (CircuitBreaker \<lparr>failure_threshold = 1,
       recovery_timeout_seconds = 30, half_open_max_calls = 1, success_threshold = 1\<rparr> ''api'')
     [(0, 1, Inl (AppError ''boom'')), (2, 3, Inr ())]) +
   total_rejected (foldl cb_call (CircuitBreaker \<lparr>failure_threshold = 1,
       recovery_timeout_seconds = 30, half_open_max_calls = 1, success_threshold = 1\<rparr> ''api'')
     [(0, 1, Inl (AppError ''boom'')), (2, 3, Inr ())]) = 2"
  using cb_accounting [of "[(0, 1, Inl (AppError ''boom'')), (2, 3, Inr ())]"
     "\<lparr>failure_threshold = 1, recovery_timeout_seconds = 30, half_open_max_calls = 1,
       success_threshold = 1\<rparr>" "''api''"]
  by (simp add: Let_def)

text \<open>
  A probe that ends with an exception outside the \<open>Exception\<close> class (a cancellation, a
  keyboard interrupt) is never recorded. When it takes the last probe slot, the circuit is stuck
  half-open: from then on every call is rejected at every later time, since half-open has no
  timeout of its own; only a manual recording or a reset ends it.
\<close>

theorem cb_probe_leak:
  assumes "cb_state cb = HALF_OPEN"
    and "half_open_call_count cb + 1 = half_open_max_calls (cb_config cb)"
    and "list_all (\<lambda>e. (\<exists>t. e = Admit t) \<or> (\<exists>t. e = ReadState t)) es"
  shows "let cb' = fst (cb_execute now now' (Inl (BaseExc m) :: exn + 'a) cb) in
    admitted cb' es = 0 \<and> cb_state (foldl cb_step cb' es) = HALF_OPEN"
proof -
  have stuck: "admitted c es = 0 \<and> cb_state (foldl cb_step c es) = HALF_OPEN"
    if "cb_state c = HALF_OPEN" "half_open_call_count c = half_open_max_calls (cb_config c)" for c
    using assms(3) that by (induction es arbitrary: c) (auto simp: cb_ops)
  show ?thesis
    unfolding Let_def by (rule stuck) (use assms in \<open>auto simp: cb_execute_def cb_ops\<close>)
qed

theorem cb_probe_leak_witness:
  "admitted (fst (cb_execute 40 41 (Inl (BaseExc ''CancelledError'') :: exn + unit)
     (CircuitBreaker \<lparr>failure_threshold = 1, recovery_timeout_seconds = 30,
        half_open_max_calls = 1, success_threshold = 1\<rparr> ''api''
      \<lparr>cb_state := HALF_OPEN, opened_at := Some 0\<rparr>))) [Admit 1000, ReadState 2000, Admit 3000] = 0"
  using cb_probe_leak [of "CircuitBreaker \<lparr>failure_threshold = 1, recovery_timeout_seconds = 30,
        half_open_max_calls = 1, success_threshold = 1\<rparr> ''api''
      \<lparr>cb_state := HALF_OPEN, opened_at := Some 0\<rparr>" "[Admit 1000, ReadState 2000, Admit 3000]"
      40 41 "''CancelledError''", where 'a = unit]
  by (simp add: CircuitBreaker_def Let_def)

end
