(* ===== verification/Health_Check.thy ===== *)
theory Health_Check
  imports Mesh_Prelude
begin

text \<open>
  \<open>resilience/health_check.py\<close>: probing an endpoint, the thresholds that turn probe outcomes into a
  status, and the bounded history. What a probe does (it returns, or raises) and the clock readings
  are arguments; so are the name and the text of an exception and the text of the timeout message.
\<close>

section \<open>State\<close>

datatype health_status = HEALTHY | UNHEALTHY | DEGRADED | UNKNOWN

record health_check_config =
  interval_seconds :: rat
  timeout_seconds :: rat
  healthy_threshold :: int
  unhealthy_threshold :: int
  max_history :: int

definition HealthCheckConfig :: "rat \<Rightarrow> rat \<Rightarrow> int \<Rightarrow> int \<Rightarrow> int \<Rightarrow> exn + health_check_config" where
  "HealthCheckConfig interval timeout h u mx =
     (if interval \<le> 0 then Inl (ValueError ''interval_seconds'')
      else if timeout \<le> 0 then Inl (ValueError ''timeout_seconds'')
      else if h < 1 then Inl (ValueError ''healthy_threshold'')
      else if u < 1 then Inl (ValueError ''unhealthy_threshold'')
      else if mx < 1 then Inl (ValueError ''max_history'')
      else Inr \<lparr>interval_seconds = interval, timeout_seconds = timeout, healthy_threshold = h,
                unhealthy_threshold = u, max_history = mx\<rparr>)"

record health_check_result =
  endpoint_name :: string
  hr_status :: health_status
  latency_ms :: rat
  checked_at :: timestamp
  details :: "(string, string) dict"

record health_checker =
  hc_config :: health_check_config
  history_of :: "(string, health_check_result list) dict"
  consecutive_successes :: "(string, int) dict"
  consecutive_failures :: "(string, int) dict"

definition HealthChecker :: "health_check_config \<Rightarrow> health_checker" where
  "HealthChecker cfg = \<lparr>hc_config = cfg, history_of = [], consecutive_successes = [], consecutive_failures = []\<rparr>"

section \<open>Operations\<close>

definition hc_history :: "string \<Rightarrow> health_checker \<Rightarrow> health_check_result list" where
  "hc_history name c = dict_get_or (history_of c) name []"

definition last_status :: "string \<Rightarrow> health_checker \<Rightarrow> health_status" where
  "last_status name c = (case hc_history name c of [] \<Rightarrow> UNKNOWN | h \<Rightarrow> hr_status (last h))"

definition compute_status :: "string \<Rightarrow> bool \<Rightarrow> health_checker \<Rightarrow> health_checker \<times> health_status" where
  "compute_status name success c0 =
     (let c = (if success
               then c0\<lparr>consecutive_successes := dict_set name (dict_get_or (consecutive_successes c0) name 0 + 1)
                        (consecutive_successes c0),
                      consecutive_failures := dict_set name 0 (consecutive_failures c0)\<rparr>
               else c0\<lparr>consecutive_failures := dict_set name (dict_get_or (consecutive_failures c0) name 0 + 1)
                        (consecutive_failures c0),
                      consecutive_successes := dict_set name 0 (consecutive_successes c0)\<rparr>);
          consec_failures = dict_get_or (consecutive_failures c) name 0;
          consec_successes = dict_get_or (consecutive_successes c) name 0;
          status = (case last_status name c of
             UNKNOWN \<Rightarrow> if success then HEALTHY else UNHEALTHY
           | UNHEALTHY \<Rightarrow>
               if success \<and> consec_successes \<ge> healthy_threshold (hc_config c) then HEALTHY
               else if success then DEGRADED else UNHEALTHY
           | _ \<Rightarrow>
               if \<not> success \<and> consec_failures \<ge> unhealthy_threshold (hc_config c) then UNHEALTHY
               else if \<not> success then DEGRADED else HEALTHY)
      in (c, status))"

text \<open>\<open>deque(maxlen=n).append\<close> drops the oldest entries.\<close>

definition record_result :: "string \<Rightarrow> health_check_result \<Rightarrow> health_checker \<Rightarrow> health_checker" where
  "record_result name r c =
     (let h = dict_get_or (history_of c) name [] @ [r]
      in c\<lparr>history_of := dict_set name (drop (length h - nat (max_history (hc_config c))) h) (history_of c)\<rparr>)"

record probe_texts =
  error_type :: "exn \<Rightarrow> string"
  error_message :: "exn \<Rightarrow> string"
  timeout_message :: "rat \<Rightarrow> rat \<Rightarrow> string"

text \<open>\<open>check\<close>: the probe's exception (\<open>None\<close>: it returned), and the clock before and after it and
  when the result is made.\<close>

definition hc_check ::
    "probe_texts \<Rightarrow> exn option \<Rightarrow> timestamp \<Rightarrow> timestamp \<Rightarrow> timestamp \<Rightarrow> string \<Rightarrow> health_checker
     \<Rightarrow> (health_checker, health_check_result) outcome" where
  "hc_check T probe start stop now name c =
     (let elapsed_ms = (stop - start) * 1000;
          failed = (\<lambda>ds. let (c1, s) = compute_status name False c;
                         r = \<lparr>endpoint_name = name, hr_status = s, latency_ms = elapsed_ms, checked_at = now, details = ds\<rparr>
                     in (record_result name r c1, Inr r))
      in case probe of
           Some x \<Rightarrow>
             if \<not> is_exception x then (c, Inl x)
             else failed [(''error_type'', error_type T x), (''error_message'', error_message T x)]
         | None \<Rightarrow>
             if elapsed_ms > timeout_seconds (hc_config c) * 1000
             then failed [(''error_type'', ''TimeoutError''),
                          (''error_message'', timeout_message T (timeout_seconds (hc_config c) * 1000) elapsed_ms)]
             else (let (c1, s) = compute_status name True c;
                       r = \<lparr>endpoint_name = name, hr_status = s, latency_ms = elapsed_ms, checked_at = now, details = []\<rparr>
                   in (record_result name r c1, Inr r)))"

text \<open>\<open>check_all\<close>: one entry per endpoint with what its probe meets; an exception that is not
  caught ends the comprehension.\<close>

fun check_all_endpoints ::
    "probe_texts \<Rightarrow> (string \<times> exn option \<times> timestamp \<times> timestamp \<times> timestamp) list \<Rightarrow> health_checker
     \<Rightarrow> (health_checker, health_check_result list) outcome" where
  "check_all_endpoints T [] c = (c, Inr [])"
| "check_all_endpoints T ((name, probe, start, stop, now) # ps) c =
     (case hc_check T probe start stop now name c of
        (c1, Inl x) \<Rightarrow> (c1, Inl x)
      | (c1, Inr r) \<Rightarrow>
          (case check_all_endpoints T ps c1 of
             (c2, Inl x) \<Rightarrow> (c2, Inl x)
           | (c2, Inr rs) \<Rightarrow> (c2, Inr (r # rs))))"

definition clear_history :: "string option \<Rightarrow> health_checker \<Rightarrow> health_checker" where
  "clear_history name c =
     (case name of
        Some n \<Rightarrow> c\<lparr>history_of := dict_del n (history_of c),
                   consecutive_successes := dict_del n (consecutive_successes c),
                   consecutive_failures := dict_del n (consecutive_failures c)\<rparr>
      | None \<Rightarrow> c\<lparr>history_of := [], consecutive_successes := [], consecutive_failures := []\<rparr>)"

section \<open>The reference: the status as a function of the outcomes\<close>

text \<open>How many probes at the end of a sequence had a given outcome.\<close>

definition trailing :: "bool \<Rightarrow> bool list \<Rightarrow> nat" where
  "trailing b os = length (takeWhile (\<lambda>x. x = b) (rev os))"

definition down :: "health_check_config \<Rightarrow> bool list \<Rightarrow> bool" where
  "down cfg os \<longleftrightarrow> os \<noteq> [] \<and> (list_all Not os \<or> int (trailing False os) \<ge> unhealthy_threshold cfg)"

definition status_of :: "health_check_config \<Rightarrow> bool list \<Rightarrow> health_status" where
  "status_of cfg os =
     (if os = [] then UNKNOWN
      else if down cfg os then UNHEALTHY
      else if \<not> last os \<or> down cfg (butlast os) \<and> healthy_threshold cfg > 1 then DEGRADED
      else HEALTHY)"

text \<open>What has happened to an endpoint since its history was last cleared: the outcomes of its probes,
  where a probe succeeds if it returns in time.\<close>

datatype health_event =
    Check string "exn option" timestamp timestamp timestamp
  | Clear "string option"

definition probe_ok :: "health_check_config \<Rightarrow> exn option \<Rightarrow> timestamp \<Rightarrow> timestamp \<Rightarrow> bool" where
  "probe_ok cfg probe start stop \<longleftrightarrow> probe = None \<and> (stop - start) * 1000 \<le> timeout_seconds cfg * 1000"

fun health_step :: "probe_texts \<Rightarrow> health_checker \<Rightarrow> health_event \<Rightarrow> health_checker" where
  "health_step T c (Check n p s e now) = fst (hc_check T p s e now n c)"
| "health_step T c (Clear n) = clear_history n c"

fun outcomes :: "health_check_config \<Rightarrow> string \<Rightarrow> bool list \<Rightarrow> health_event \<Rightarrow> bool list" where
  "outcomes cfg name os (Check n p s e now) =
     (if n = name \<and> (\<forall>x \<in> set_option p. is_exception x) then os @ [probe_ok cfg p s e] else os)"
| "outcomes cfg name os (Clear None) = []"
| "outcomes cfg name os (Clear (Some n)) = (if n = name then [] else os)"

section \<open>Lemmas\<close>

lemma trailing_snoc [simp]:
  "trailing b (os @ [x]) = (if x = b then Suc (trailing b os) else 0)" "trailing b [] = 0"
  by (simp_all add: trailing_def)

lemma trailing_single [simp]: "trailing b [x] = (if x = b then 1 else 0)"
  using trailing_snoc(1) [of b "[]" x] by simp

lemma trailing_last: "os \<noteq> [] \<Longrightarrow> trailing b os > 0 \<longleftrightarrow> last os = b"
  by (cases os rule: rev_cases) simp_all

text \<open>The state represents a sequence of outcomes of an endpoint.\<close>

definition represents :: "health_checker \<Rightarrow> string \<Rightarrow> bool list \<Rightarrow> bool" where
  "represents c name os \<longleftrightarrow>
     last_status name c = status_of (hc_config c) os \<and>
     dict_get_or (consecutive_successes c) name 0 = int (trailing True os) \<and>
     dict_get_or (consecutive_failures c) name 0 = int (trailing False os) \<and>
     length (hc_history name c) = min (length os) (nat (max_history (hc_config c)))"

lemma down_failed: "down cfg os \<Longrightarrow> 1 \<le> unhealthy_threshold cfg \<Longrightarrow> \<not> last os"
  using trailing_last [of os False] by (cases os rule: rev_cases) (auto simp: down_def)

lemma status_of_snoc:
  assumes "1 \<le> unhealthy_threshold cfg" "1 \<le> healthy_threshold cfg"
  shows "status_of cfg (os @ [b]) = (case status_of cfg os of
      UNKNOWN \<Rightarrow> if b then HEALTHY else UNHEALTHY
    | UNHEALTHY \<Rightarrow> if b \<and> int (trailing True (os @ [b])) \<ge> healthy_threshold cfg then HEALTHY
        else if b then DEGRADED else UNHEALTHY
    | _ \<Rightarrow> if \<not> b \<and> int (trailing False (os @ [b])) \<ge> unhealthy_threshold cfg then UNHEALTHY
        else if \<not> b then DEGRADED else HEALTHY)"
proof (cases "os = []")
  case True
  with assms show ?thesis by (simp add: status_of_def down_def)
next
  case ne: False
  have step: "down cfg (os @ [b]) \<longleftrightarrow> \<not> b \<and> (list_all Not os \<or> int (trailing False os) + 1 \<ge> unhealthy_threshold cfg)"
    using assms(1) by (auto simp: down_def)
  show ?thesis
  proof (cases "down cfg os")
    case True
    then have "trailing True os = 0" using down_failed [OF True assms(1)] trailing_last [OF ne, of True] by simp
    with True ne assms step show ?thesis by (auto simp: status_of_def down_def)
  next
    case False
    then have "\<not> list_all Not os" using ne by (simp add: down_def)
    with False ne step show ?thesis by (auto simp: status_of_def)
  qed
qed

text \<open>Recording a probe extends the sequence of its endpoint and no other.\<close>

definition recorded :: "string \<Rightarrow> bool \<Rightarrow> health_check_result \<Rightarrow> health_checker \<Rightarrow> health_checker" where
  "recorded name b r c = record_result name r (fst (compute_status name b c))"

lemma compute_status_frame:
  "hc_config (fst (compute_status name b c)) = hc_config c"
  "history_of (fst (compute_status name b c)) = history_of c"
  by (simp_all add: compute_status_def Let_def)

lemma recorded_other: "n \<noteq> name \<Longrightarrow> represents (recorded name b r c) n os = represents c n os"
  by (simp add: represents_def recorded_def record_result_def last_status_def hc_history_def dict_get_or_set Let_def
      compute_status_def)

lemma recorded_history:
  assumes "1 \<le> max_history (hc_config c)"
  shows "hc_history name (recorded name b r c) =
    drop (Suc (length (hc_history name c)) - nat (max_history (hc_config c))) (hc_history name c @ [r])"
    "last_status name (recorded name b r c) = hr_status r"
proof -
  show h: "hc_history name (recorded name b r c) =
    drop (Suc (length (hc_history name c)) - nat (max_history (hc_config c))) (hc_history name c @ [r])"
    by (simp add: recorded_def record_result_def hc_history_def compute_status_frame dict_get_or_set Let_def)
  have "last (hc_history name (recorded name b r c)) = r" "hc_history name (recorded name b r c) \<noteq> []"
    unfolding h using assms by (auto simp: last_drop)
  then show "last_status name (recorded name b r c) = hr_status r"
    by (cases "hc_history name (recorded name b r c)") (auto simp: last_status_def)
qed

lemma compute_status_represents:
  assumes "represents c name os" "1 \<le> unhealthy_threshold (hc_config c)" "1 \<le> healthy_threshold (hc_config c)"
  shows "snd (compute_status name b c) = status_of (hc_config c) (os @ [b])"
    "dict_get_or (consecutive_successes (fst (compute_status name b c))) name 0 = int (trailing True (os @ [b]))"
    "dict_get_or (consecutive_failures (fst (compute_status name b c))) name 0 = int (trailing False (os @ [b]))"
proof -
  show s: "dict_get_or (consecutive_successes (fst (compute_status name b c))) name 0 = int (trailing True (os @ [b]))"
    and f: "dict_get_or (consecutive_failures (fst (compute_status name b c))) name 0 = int (trailing False (os @ [b]))"
    using assms(1) by (simp_all add: represents_def compute_status_def Let_def dict_get_or_set)
  have l: "last_status name (fst (compute_status name b c)) = status_of (hc_config c) os"
    using assms(1) by (simp add: represents_def last_status_def hc_history_def compute_status_frame)
  have "snd (compute_status name b c) = (case last_status name (fst (compute_status name b c)) of
      UNKNOWN \<Rightarrow> if b then HEALTHY else UNHEALTHY
    | UNHEALTHY \<Rightarrow> if b \<and> dict_get_or (consecutive_successes (fst (compute_status name b c))) name 0 \<ge>
          healthy_threshold (hc_config (fst (compute_status name b c))) then HEALTHY
        else if b then DEGRADED else UNHEALTHY
    | _ \<Rightarrow> if \<not> b \<and> dict_get_or (consecutive_failures (fst (compute_status name b c))) name 0 \<ge>
          unhealthy_threshold (hc_config (fst (compute_status name b c))) then UNHEALTHY
        else if \<not> b then DEGRADED else HEALTHY)"
    unfolding compute_status_def Let_def by simp
  also have "\<dots> = status_of (hc_config c) (os @ [b])"
    unfolding s f l compute_status_frame status_of_snoc [OF assms(2,3)] ..
  finally show "snd (compute_status name b c) = status_of (hc_config c) (os @ [b])" .
qed

definition config_ok :: "health_check_config \<Rightarrow> bool" where
  "config_ok cfg \<longleftrightarrow> 1 \<le> healthy_threshold cfg \<and> 1 \<le> unhealthy_threshold cfg \<and> 1 \<le> max_history cfg"

lemma recorded_represents:
  assumes "represents c name os" "config_ok (hc_config c)" "hr_status r = snd (compute_status name b c)"
  shows "represents (recorded name b r c) name (os @ [b])"
proof -
  note ok = assms(2)[unfolded config_ok_def]
  note cs = compute_status_represents [OF assms(1), of b]
  have cfg: "hc_config (recorded name b r c) = hc_config c"
    by (simp add: recorded_def record_result_def compute_status_frame Let_def)
  have "consecutive_successes (recorded name b r c) = consecutive_successes (fst (compute_status name b c))"
    "consecutive_failures (recorded name b r c) = consecutive_failures (fst (compute_status name b c))"
    by (simp_all add: recorded_def record_result_def Let_def)
  with cs ok have counters:
    "dict_get_or (consecutive_successes (recorded name b r c)) name 0 = int (trailing True (os @ [b]))"
    "dict_get_or (consecutive_failures (recorded name b r c)) name 0 = int (trailing False (os @ [b]))"
    by simp_all
  have "length (hc_history name (recorded name b r c)) = min (length (os @ [b])) (nat (max_history (hc_config c)))"
    using recorded_history(1) [of c name b r] ok assms(1) by (auto simp: represents_def min_def)
  moreover have "last_status name (recorded name b r c) = status_of (hc_config c) (os @ [b])"
    using recorded_history(2) [of c name b r] ok assms(3) cs(1) by simp
  ultimately show ?thesis using counters cfg unfolding represents_def by simp
qed

lemma hc_check_recorded:
  assumes "\<forall>x \<in> set_option p. is_exception x"
  shows "\<exists>r. hc_check T p s e now n c = (recorded n (probe_ok (hc_config c) p s e) r c, Inr r) \<and>
    endpoint_name r = n \<and> hr_status r = snd (compute_status n (probe_ok (hc_config c) p s e) c)"
  using assms
  by (cases p) (auto simp: hc_check_def Let_def probe_ok_def recorded_def case_prod_beta not_le)

lemma hc_check_uncaught:
  "\<not> is_exception x \<Longrightarrow> hc_check T (Some x) s e now n c = (c, Inl x)"
  by (simp add: hc_check_def Let_def)

lemma health_step_config [simp]: "hc_config (health_step T c e) = hc_config c"
proof (cases e)
  case (Check n p s e now)
  have "hc_config (recorded n b r c) = hc_config c" for b r
    by (simp add: recorded_def record_result_def compute_status_frame Let_def)
  with Check hc_check_recorded [of p T s e now n c] hc_check_uncaught [of _ T s e now n c] show ?thesis
    by (cases "\<forall>x \<in> set_option p. is_exception x") auto
qed (auto simp: clear_history_def split: option.split)

lemma represents_clear:
  "represents c name os \<Longrightarrow> represents (clear_history n c) name (outcomes (hc_config c) name os (Clear n))"
  by (cases n) (auto simp: represents_def clear_history_def last_status_def hc_history_def dict_get_or_def
      status_of_def)

lemma health_step_represents:
  assumes "represents c name os" "config_ok (hc_config c)"
  shows "represents (health_step T c e) name (outcomes (hc_config c) name os e)"
proof (cases e)
  case (Check n p s t now)
  show ?thesis
  proof (cases "\<forall>x \<in> set_option p. is_exception x")
    case True
    then obtain r where r: "hc_check T p s t now n c = (recorded n (probe_ok (hc_config c) p s t) r c, Inr r)"
      "hr_status r = snd (compute_status n (probe_ok (hc_config c) p s t) c)"
      using hc_check_recorded by blast
    show ?thesis
    proof (cases "n = name")
      case True
      with recorded_represents [OF assms, of r "probe_ok (hc_config c) p s t"] r Check show ?thesis
        using \<open>\<forall>x \<in> set_option p. is_exception x\<close> by simp
    next
      case False
      with recorded_other [of name n "probe_ok (hc_config c) p s t" r c os] r Check assms(1) show ?thesis by simp
    qed
  next
    case False
    then obtain x where "p = Some x" "\<not> is_exception x" by auto
    with hc_check_uncaught Check assms(1) show ?thesis by simp
  qed
qed (use represents_clear [OF assms(1)] in simp)

lemma health_run_represents:
  assumes "represents c name os" "config_ok (hc_config c)"
  shows "represents (foldl (health_step T) c es) name (foldl (outcomes (hc_config c) name) os es)"
  using assms
proof (induction es arbitrary: c os)
  case (Cons e es)
  then show ?case
    using Cons.IH [of "health_step T c e" "outcomes (hc_config c) name os e"] health_step_represents by simp
qed simp

section \<open>Properties\<close>

text \<open>
  C19: The status of an endpoint is a function of its own probe outcomes since its history was last
  cleared, whatever else was checked in between. It is unknown with no probe; unhealthy exactly
  when the last \<open>unhealthy_threshold\<close> probes failed or all have failed; otherwise it is degraded
  after a failure, and after a success it is healthy, unless that success directly follows the
  unhealthy state and \<open>healthy_threshold\<close> is above 1. In particular two successes in a row always
  make an endpoint healthy, whatever \<open>healthy_threshold\<close> is. At most \<open>max_history\<close> results are kept.
\<close>

theorem health_status_reference:
  assumes "HealthCheckConfig i t h u mx = Inr cfg" "c = foldl (health_step T) (HealthChecker cfg) es"
    and "os = foldl (outcomes cfg name) [] es"
  shows "last_status name c = status_of cfg os \<and>
    length (hc_history name c) = min (length os) (nat mx) \<and>
    dict_get_or (consecutive_failures c) name 0 = int (trailing False os) \<and>
    (\<forall>pre. os = pre @ [True, True] \<longrightarrow> last_status name c = HEALTHY)"
proof -
  have ok: "config_ok cfg" and cfg: "max_history cfg = mx"
    using assms(1) by (auto simp: HealthCheckConfig_def config_ok_def split: if_splits)
  have "represents (HealthChecker cfg) name []"
    by (simp add: represents_def HealthChecker_def last_status_def hc_history_def dict_get_or_def status_of_def)
  then have rep: "represents c name os"
    unfolding assms(2,3) using health_run_represents [of "HealthChecker cfg" name "[]" T es] ok
    by (simp add: HealthChecker_def)
  have "hc_config (foldl (health_step T) c0 es) = hc_config c0" for c0 by (induction es arbitrary: c0) simp_all
  then have c: "hc_config c = cfg" by (simp add: assms(2) HealthChecker_def)
  have "status_of cfg os = HEALTHY" if os: "os = pre @ [True, True]" for pre
  proof -
    have "\<not> down cfg (pre @ [True])" "\<not> down cfg (pre @ [True, True])"
      using down_failed [of cfg "pre @ [True]"] down_failed [of cfg "pre @ [True, True]"] ok
      by (auto simp: config_ok_def)
    then show ?thesis unfolding os status_of_def by (simp add: butlast_append)
  qed
  with rep c cfg show ?thesis unfolding represents_def by simp
qed

definition example_config :: health_check_config where
  "example_config = \<lparr>interval_seconds = 10, timeout_seconds = 1, healthy_threshold = 5, unhealthy_threshold = 2,
     max_history = 100\<rparr>"

definition example_texts :: probe_texts where
  "example_texts = \<lparr>error_type = (\<lambda>_. ''OSError''), error_message = (\<lambda>_. ''refused''),
     timeout_message = (\<lambda>_ _. ''timeout'')\<rparr>"

theorem health_status_reference_witness:
  "last_status ''a'' (foldl (health_step example_texts) (HealthChecker example_config)
     [Check ''a'' (Some (AppError ''x'')) 0 0 0, Check ''a'' None 1 1 1, Check ''b'' None 2 9 9,
      Check ''a'' None 10 10 10]) = HEALTHY"
proof -
  let ?es = "[Check ''a'' (Some (AppError ''x'')) 0 0 0, Check ''a'' None 1 1 1, Check ''b'' None 2 9 9,
    Check ''a'' None 10 10 10]"
  have "HealthCheckConfig 10 1 5 2 100 = Inr example_config"
    by (simp add: HealthCheckConfig_def example_config_def)
  moreover have "foldl (outcomes example_config ''a'') [] ?es = [False] @ [True, True]"
    by (simp add: probe_ok_def example_config_def)
  ultimately show ?thesis using health_status_reference [OF _ refl refl] by metis
qed

end
