(* ===== verification/Endpoint_Balancer.thy ===== *)
theory Endpoint_Balancer
  imports Mesh_Prelude
begin

text \<open>
  \<open>resilience/load_balancer.py\<close>: the pool of service endpoints with their health flags and
  connection counts, and the four strategies, among them smooth weighted round robin. All methods
  run under one lock, so an operation is one step. The random generator is a parameter.
\<close>

section \<open>State\<close>

datatype balancer_strategy = ROUND_ROBIN | WEIGHTED_ROUND_ROBIN | LEAST_CONNECTIONS | RANDOM

record service_endpoint =
  ep_name :: string
  ep_host :: string
  ep_port :: int
  ep_weight :: rat
  ep_healthy :: bool

definition ServiceEndpoint :: "string \<Rightarrow> string \<Rightarrow> int \<Rightarrow> rat \<Rightarrow> bool \<Rightarrow> exn + service_endpoint" where
  "ServiceEndpoint name host port weight healthy =
     (if weight \<le> 0 then Inl (ValueError ''weight'')
      else if \<not> (0 < port \<and> port \<le> 65535) then Inl (ValueError ''port'')
      else Inr \<lparr>ep_name = name, ep_host = host, ep_port = port, ep_weight = weight, ep_healthy = healthy\<rparr>)"

record 'g endpoint_balancer =
  endpoints :: "(string, service_endpoint) dict"
  health :: "(string, bool) dict"
  connections :: "(string, int) dict"
  eb_rr_counter :: int
  wrr_current_weights :: "(string, rat) dict"
  eb_rng :: 'g

definition EndpointBalancer :: "'g \<Rightarrow> 'g endpoint_balancer" where
  "EndpointBalancer g = \<lparr>endpoints = [], health = [], connections = [], eb_rr_counter = 0,
     wrr_current_weights = [], eb_rng = g\<rparr>"

section \<open>Endpoint management\<close>

definition add_endpoint :: "service_endpoint \<Rightarrow> 'g endpoint_balancer \<Rightarrow> 'g endpoint_balancer" where
  "add_endpoint e b =
     (let existing = dict_get_or (connections b) (ep_name e) 0 in
      b\<lparr>endpoints := dict_set (ep_name e) e (endpoints b),
        health := dict_set (ep_name e) (ep_healthy e) (health b),
        connections := dict_set (ep_name e) existing (connections b),
        wrr_current_weights := dict_set (ep_name e) 0 (wrr_current_weights b)\<rparr>)"

definition remove_endpoint :: "string \<Rightarrow> 'g endpoint_balancer \<Rightarrow> 'g endpoint_balancer" where
  "remove_endpoint name b =
     b\<lparr>endpoints := dict_del name (endpoints b), health := dict_del name (health b),
       connections := dict_del name (connections b),
       wrr_current_weights := dict_del name (wrr_current_weights b)\<rparr>"

definition set_health :: "bool \<Rightarrow> string \<Rightarrow> 'g endpoint_balancer \<Rightarrow> ('g endpoint_balancer, unit) outcome" where
  \<comment> \<open>\<open>mark_healthy\<close> and \<open>mark_unhealthy\<close>\<close>
  "set_health v name b =
     (if \<not> dict_has (endpoints b) name then (b, Inl (KeyError name))
      else (b\<lparr>health := dict_set name v (health b)\<rparr>, Inr ()))"

definition record_connection_open :: "string \<Rightarrow> 'g endpoint_balancer \<Rightarrow> ('g endpoint_balancer, unit) outcome" where
  "record_connection_open name b =
     (case dict_get (connections b) name of
        None \<Rightarrow> (b, Inl (KeyError name))
      | Some c \<Rightarrow> (b\<lparr>connections := dict_set name (c + 1) (connections b)\<rparr>, Inr ()))"

definition record_connection_close :: "string \<Rightarrow> 'g endpoint_balancer \<Rightarrow> ('g endpoint_balancer, unit) outcome" where
  "record_connection_close name b =
     (case dict_get (connections b) name of
        None \<Rightarrow> (b, Inl (KeyError name))
      | Some c \<Rightarrow> (b\<lparr>connections := dict_set name (max 0 (c - 1)) (connections b)\<rparr>, Inr ()))"

section \<open>Selection\<close>

definition healthy_list :: "'g endpoint_balancer \<Rightarrow> service_endpoint list" where
  "healthy_list b =
     map snd (filter (\<lambda>(name, e). dict_get_or (health b) name False) (endpoints b))"

definition eb_round_robin :: "service_endpoint list \<Rightarrow> 'g endpoint_balancer \<Rightarrow> 'g endpoint_balancer \<times> service_endpoint" where
  "eb_round_robin healthy b =
     (b\<lparr>eb_rr_counter := eb_rr_counter b + 1\<rparr>, healthy ! nat (eb_rr_counter b mod int (length healthy)))"

text \<open>The loop of \<open>_weighted_round_robin\<close>: every current weight grows by the endpoint's weight; the
  first endpoint of the greatest current weight so far is kept (\<open>None\<close> stands for minus infinity).\<close>

fun wrr_scan :: "service_endpoint list \<Rightarrow> (string, rat) dict \<Rightarrow> (service_endpoint \<times> rat) option
    \<Rightarrow> (string, rat) dict \<times> (service_endpoint \<times> rat) option" where
  "wrr_scan [] cw best = (cw, best)"
| "wrr_scan (e # es) cw best =
     (let w = dict_get_or cw (ep_name e) 0 + ep_weight e;
          better = (case best of None \<Rightarrow> True | Some (_, bw) \<Rightarrow> w > bw)
      in wrr_scan es (dict_set (ep_name e) w cw) (if better then Some (e, w) else best))"

definition weighted_round_robin ::
    "service_endpoint list \<Rightarrow> 'g endpoint_balancer \<Rightarrow> 'g endpoint_balancer \<times> service_endpoint option" where
  "weighted_round_robin healthy b =
     (let total_weight = sum_list (map ep_weight healthy) in
      case wrr_scan healthy (wrr_current_weights b) None of
        (cw, None) \<Rightarrow> (b\<lparr>wrr_current_weights := cw\<rparr>, None)
      | (cw, Some (e, _)) \<Rightarrow>
          (b\<lparr>wrr_current_weights := dict_set (ep_name e) (dict_get_or cw (ep_name e) 0 - total_weight) cw\<rparr>, Some e))"

definition least_connections :: "service_endpoint \<Rightarrow> service_endpoint list \<Rightarrow> 'g endpoint_balancer \<Rightarrow> service_endpoint" where
  "least_connections e es b = min_by_from (\<lambda>e. dict_get_or (connections b) (ep_name e) 0) e es"

definition eb_select ::
    "'g rng_ops \<Rightarrow> balancer_strategy \<Rightarrow> 'g endpoint_balancer \<Rightarrow> ('g endpoint_balancer, service_endpoint) outcome" where
  "eb_select R strategy b =
     (case healthy_list b of
        [] \<Rightarrow> (b, Inl NoHealthyEndpointError)
      | e # es \<Rightarrow>
          (case strategy of
             ROUND_ROBIN \<Rightarrow> map_prod id Inr (eb_round_robin (e # es) b)
           | WEIGHTED_ROUND_ROBIN \<Rightarrow>
               (case weighted_round_robin (e # es) b of
                  (b', None) \<Rightarrow> (b', Inl (AppError ''AssertionError''))
                | (b', Some x) \<Rightarrow> (b', Inr x))
           | LEAST_CONNECTIONS \<Rightarrow> (b, Inr (least_connections e es b))
           | RANDOM \<Rightarrow>
               (let (g, i) = draw_index R (eb_rng b) (length (e # es))
                in (b\<lparr>eb_rng := g\<rparr>, Inr ((e # es) ! i)))))"

section \<open>Invariant\<close>

text \<open>The four dictionaries have the same keys, every endpoint is stored under its name with a
  positive weight, and connection counts are not negative.\<close>

definition balancer_wf :: "'g endpoint_balancer \<Rightarrow> bool" where
  "balancer_wf b \<longleftrightarrow> dict_wf (endpoints b) \<and>
     (\<forall>(k, e) \<in> set (endpoints b). ep_name e = k \<and> 0 < ep_weight e) \<and>
     dom (dict_get (health b)) = dom (dict_get (endpoints b)) \<and>
     dom (dict_get (connections b)) = dom (dict_get (endpoints b)) \<and>
     dom (dict_get (wrr_current_weights b)) = dom (dict_get (endpoints b)) \<and>
     (\<forall>k c. dict_get (connections b) k = Some c \<longrightarrow> 0 \<le> c)"

datatype balancer_event =
    AddEndpoint service_endpoint
  | RemoveEndpoint string
  | SetHealth bool string
  | OpenConnection string
  | CloseConnection string
  | Select balancer_strategy

fun balancer_step :: "'g rng_ops \<Rightarrow> 'g endpoint_balancer \<Rightarrow> balancer_event \<Rightarrow> 'g endpoint_balancer" where
  "balancer_step R b (AddEndpoint e) = (if 0 < ep_weight e then add_endpoint e b else b)"
| "balancer_step R b (RemoveEndpoint n) = remove_endpoint n b"
| "balancer_step R b (SetHealth v n) = fst (set_health v n b)"
| "balancer_step R b (OpenConnection n) = fst (record_connection_open n b)"
| "balancer_step R b (CloseConnection n) = fst (record_connection_close n b)"
| "balancer_step R b (Select s) = fst (eb_select R s b)"

section \<open>Lemmas: weighted round robin\<close>

abbreviation weight_of :: "(string, rat) dict \<Rightarrow> service_endpoint \<Rightarrow> rat" where
  "weight_of cw e \<equiv> dict_get_or cw (ep_name e) 0"

lemma wrr_scan_weights:
  assumes "distinct (map ep_name es)"
  shows "(\<forall>e \<in> set es. weight_of (fst (wrr_scan es cw best)) e = weight_of cw e + ep_weight e) \<and>
    (\<forall>k. k \<notin> ep_name ` set es \<longrightarrow> dict_get (fst (wrr_scan es cw best)) k = dict_get cw k) \<and>
    dom (dict_get (fst (wrr_scan es cw best))) = dom (dict_get cw) \<union> ep_name ` set es"
  using assms
proof (induction es arbitrary: cw best)
  case (Cons e es)
  let ?w = "weight_of cw e + ep_weight e" and ?cw = "dict_set (ep_name e) (weight_of cw e + ep_weight e) cw"
  obtain best' where scan: "wrr_scan (e # es) cw best = wrr_scan es ?cw best'"
    unfolding wrr_scan.simps Let_def by blast
  have IH: "\<forall>x \<in> set es. weight_of (fst (wrr_scan es ?cw best')) x = weight_of ?cw x + ep_weight x"
    "\<forall>k. k \<notin> ep_name ` set es \<longrightarrow> dict_get (fst (wrr_scan es ?cw best')) k = dict_get ?cw k"
    "dom (dict_get (fst (wrr_scan es ?cw best'))) = dom (dict_get ?cw) \<union> ep_name ` set es"
    using Cons by simp_all
  have e: "ep_name e \<notin> ep_name ` set es" using Cons.prems by simp
  then have "weight_of (fst (wrr_scan es ?cw best')) e = ?w"
    using IH(2) by (simp add: dict_get_or_def)
  moreover have "weight_of ?cw x = weight_of cw x" if "x \<in> set es" for x
    using imageI [OF that, of ep_name] e by (auto simp: dict_get_or_set)
  ultimately show ?case unfolding scan using IH by (auto simp: dict_get_or_def)
qed simp

lemma wrr_scan_best:
  assumes "distinct (map ep_name es)" "es \<noteq> [] \<or> best \<noteq> None"
  shows "\<exists>e w. snd (wrr_scan es cw best) = Some (e, w) \<and>
    (e \<in> set es \<and> w = weight_of cw e + ep_weight e \<or> best = Some (e, w)) \<and>
    (\<forall>x \<in> set es. weight_of cw x + ep_weight x \<le> w) \<and> (\<forall>x v. best = Some (x, v) \<longrightarrow> v \<le> w)"
  using assms
proof (induction es arbitrary: cw best)
  case (Cons a es)
  let ?w = "weight_of cw a + ep_weight a" and ?cw = "dict_set (ep_name a) (weight_of cw a + ep_weight a) cw"
  define best1 where "best1 = (if case best of None \<Rightarrow> True | Some (_, bw) \<Rightarrow> ?w > bw then Some (a, ?w) else best)"
  have scan: "wrr_scan (a # es) cw best = wrr_scan es ?cw best1"
    unfolding wrr_scan.simps Let_def best1_def ..
  have b1: "best1 \<noteq> None" "best1 = Some (a, ?w) \<or> best1 = best"
    "\<And>x v. best1 = Some (x, v) \<Longrightarrow> ?w \<le> v" "\<And>x v y u. best1 = Some (x, v) \<Longrightarrow> best = Some (y, u) \<Longrightarrow> u \<le> v"
    by (auto simp: best1_def split: option.splits if_splits)
  have same: "weight_of ?cw x = weight_of cw x" if "x \<in> set es" for x
    using imageI [OF that, of ep_name] Cons.prems(1) by (auto simp: dict_get_or_set)
  obtain e w where ew: "snd (wrr_scan es ?cw best1) = Some (e, w)"
    "e \<in> set es \<and> w = weight_of ?cw e + ep_weight e \<or> best1 = Some (e, w)"
    "\<forall>x \<in> set es. weight_of ?cw x + ep_weight x \<le> w" "\<forall>x v. best1 = Some (x, v) \<longrightarrow> v \<le> w"
    using Cons.IH [of best1 ?cw] Cons.prems(1) b1(1) by auto
  obtain x v where xv: "best1 = Some (x, v)" using b1(1) by fastforce
  have "?w \<le> w" using b1(3) [OF xv] ew(4) xv by fastforce
  moreover have "u \<le> w" if "best = Some (y, u)" for y u using b1(4) [OF xv that] ew(4) xv by fastforce
  moreover have "e \<in> set (a # es) \<and> w = weight_of cw e + ep_weight e \<or> best = Some (e, w)"
    using ew(2) b1(2) same by auto
  ultimately show ?case unfolding scan using ew(1,3) same by auto
qed auto

text \<open>One round: the endpoint chosen has the greatest weight after the increase, and pays the total.\<close>

lemma weighted_round_robin_step:
  assumes "distinct (map ep_name hs)" "hs \<noteq> []"
  obtains e cw where "weighted_round_robin hs b = (b\<lparr>wrr_current_weights := cw\<rparr>, Some e)" "e \<in> set hs"
    "\<And>x. x \<in> set hs \<Longrightarrow> weight_of cw x = weight_of (wrr_current_weights b) x + ep_weight x -
       (if x = e then sum_list (map ep_weight hs) else 0)"
    "\<And>x. x \<in> set hs \<Longrightarrow> weight_of (wrr_current_weights b) x + ep_weight x \<le>
       weight_of (wrr_current_weights b) e + ep_weight e"
    "dom (dict_get cw) = dom (dict_get (wrr_current_weights b)) \<union> ep_name ` set hs"
proof -
  let ?cw = "wrr_current_weights b" and ?W = "sum_list (map ep_weight hs)"
  obtain cw1 best where scan: "wrr_scan hs ?cw None = (cw1, best)" by fastforce
  obtain e w where ew: "best = Some (e, w)" "e \<in> set hs" "w = weight_of ?cw e + ep_weight e"
    "\<forall>x \<in> set hs. weight_of ?cw x + ep_weight x \<le> w"
    using wrr_scan_best [OF assms(1), of None ?cw] assms(2) scan by auto
  have cw1: "\<forall>x \<in> set hs. weight_of cw1 x = weight_of ?cw x + ep_weight x"
    "dom (dict_get cw1) = dom (dict_get ?cw) \<union> ep_name ` set hs"
    using wrr_scan_weights [OF assms(1), of ?cw None] scan by simp_all
  let ?cw' = "dict_set (ep_name e) (weight_of cw1 e - ?W) cw1"
  have inj: "x = e" if "x \<in> set hs" "ep_name x = ep_name e" for x
    using assms(1) ew(2) that by (auto simp: distinct_map dest: inj_onD)
  have "weighted_round_robin hs b = (b\<lparr>wrr_current_weights := ?cw'\<rparr>, Some e)"
    by (simp add: weighted_round_robin_def scan ew(1))
  moreover have "weight_of ?cw' x = weight_of ?cw x + ep_weight x - (if x = e then ?W else 0)"
    if "x \<in> set hs" for x
    using cw1(1) that inj [OF that] ew(2) by (auto simp: dict_get_or_set)
  moreover have "dom (dict_get ?cw') = dom (dict_get ?cw) \<union> ep_name ` set hs"
    using cw1(2) ew(2) by auto
  ultimately show thesis using ew that by blast
qed

text \<open>The balance of an endpoint over several rounds: what it gained minus what it paid.\<close>

definition wrr_pick :: "'g endpoint_balancer \<Rightarrow> 'g endpoint_balancer \<times> service_endpoint option" where
  "wrr_pick b = weighted_round_robin (healthy_list b) b"

lemma picks_wrr:
  "weighted_round_robin (healthy_list b) b = (b', x) \<Longrightarrow> picks wrr_pick (Suc n) b = x # picks wrr_pick n b'"
  by (simp add: wrr_pick_def [of b])

lemma healthy_list_frame [simp]:
  "healthy_list (b\<lparr>wrr_current_weights := cw\<rparr>) = healthy_list b"
  "healthy_list (b\<lparr>eb_rr_counter := c\<rparr>) = healthy_list b" "healthy_list (b\<lparr>eb_rng := g\<rparr>) = healthy_list b"
  by (simp_all add: healthy_list_def)

lemma wrr_balance:
  fixes b :: "'g endpoint_balancer"
  defines "hs \<equiv> healthy_list b"
  defines "W \<equiv> sum_list (map ep_weight hs)"
  assumes "distinct (map ep_name hs)" "hs \<noteq> []" "\<forall>e \<in> set hs. 0 < ep_weight e"
    and "(\<Sum>e \<in> set hs. weight_of (wrr_current_weights b) e) = 0"
    and "\<forall>e \<in> set hs. - W < weight_of (wrr_current_weights b) e"
    and "e \<in> set hs"
  shows "W * of_nat (count_list (picks wrr_pick n b) (Some e)) <
    weight_of (wrr_current_weights b) e + of_nat n * ep_weight e + W"
  using assms(3-) unfolding W_def hs_def
proof (induction n arbitrary: b e)
  case (Suc n)
  let ?hs = "healthy_list b" and ?cw = "wrr_current_weights b"
  let ?W = "sum_list (map ep_weight ?hs)"
  obtain c cw where step: "weighted_round_robin ?hs b = (b\<lparr>wrr_current_weights := cw\<rparr>, Some c)" "c \<in> set ?hs"
    "\<And>x. x \<in> set ?hs \<Longrightarrow> weight_of cw x = weight_of ?cw x + ep_weight x - (if x = c then ?W else 0)"
    "\<And>x. x \<in> set ?hs \<Longrightarrow> weight_of ?cw x + ep_weight x \<le> weight_of ?cw c + ep_weight c"
    using weighted_round_robin_step [OF Suc.prems(1,2), of b] by metis
  have "distinct ?hs" using Suc.prems(1) by (simp add: distinct_map)
  then have W: "?W = (\<Sum>x \<in> set ?hs. ep_weight x)" by (rule sum_list_distinct_conv_sum_set)
  have pos: "0 < ?W" unfolding W using Suc.prems(2,3) by (intro sum_pos) auto
  have after: "(\<Sum>x \<in> set ?hs. weight_of cw x) = 0"
    using step(2) Suc.prems(4) by (simp add: step(3) sum.distrib sum_subtractf W [symmetric])
  have "0 < weight_of ?cw c + ep_weight c"
  proof (rule ccontr)
    assume "\<not> 0 < weight_of ?cw c + ep_weight c"
    then have "\<forall>x \<in> set ?hs. weight_of ?cw x + ep_weight x \<le> 0" using step(4) by fastforce
    then have "(\<Sum>x \<in> set ?hs. weight_of ?cw x + ep_weight x) \<le> 0" by (simp add: sum_nonpos)
    with pos Suc.prems(4) W show False by (simp add: sum.distrib)
  qed
  then have low: "\<forall>x \<in> set ?hs. - ?W < weight_of cw x"
    using Suc.prems(3,5) pos step(3) by fastforce
  have IH: "?W * of_nat (count_list (picks wrr_pick n (b\<lparr>wrr_current_weights := cw\<rparr>)) (Some e)) <
      weight_of cw e + of_nat n * ep_weight e + ?W"
    using Suc.IH [of "b\<lparr>wrr_current_weights := cw\<rparr>" e] Suc.prems after low by simp
  show ?case
    using IH step(3) [OF Suc.prems(6)] by (simp add: picks_wrr [OF step(1)] algebra_simps del: picks.simps split: if_splits)
next
  case 0
  then have "- sum_list (map ep_weight (healthy_list b)) < weight_of (wrr_current_weights b) e" by blast
  then show ?case by simp
qed

lemma wrr_pick_Some:
  assumes "distinct (map ep_name (healthy_list b))" "healthy_list b \<noteq> []"
  shows "\<exists>es. picks wrr_pick n b = map Some es \<and> length es = n \<and> set es \<subseteq> set (healthy_list b)"
  using assms
proof (induction n arbitrary: b)
  case (Suc n)
  obtain c cw where step: "weighted_round_robin (healthy_list b) b = (b\<lparr>wrr_current_weights := cw\<rparr>, Some c)"
    "c \<in> set (healthy_list b)"
    using weighted_round_robin_step [OF Suc.prems, of b] by metis
  obtain es where "picks wrr_pick n (b\<lparr>wrr_current_weights := cw\<rparr>) = map Some es" "length es = n"
    "set es \<subseteq> set (healthy_list b)"
    using Suc.IH [of "b\<lparr>wrr_current_weights := cw\<rparr>"] Suc.prems by auto
  with step show ?case by (intro exI [of _ "c # es"]) (simp add: picks_wrr del: picks.simps)
qed simp

lemma wrr_pick_total:
  assumes "distinct (map ep_name (healthy_list b))" "healthy_list b \<noteq> []"
  shows "(\<Sum>e \<in> set (healthy_list b). count_list (picks wrr_pick n b) (Some e)) = n"
proof -
  obtain es where es: "picks wrr_pick n b = map Some es" "length es = n" "set es \<subseteq> set (healthy_list b)"
    using wrr_pick_Some [OF assms] by blast
  have "count_list (map Some es) (Some e) = count_list es e" for e by (induction es) auto
  moreover have "(\<Sum>e \<in> set (healthy_list b). count_list es e) = length es"
    by (rule sum_count_set) (simp_all add: es(3))
  ultimately show ?thesis using es by simp
qed

section \<open>Lemmas: the pool\<close>

lemma healthy_list_set:
  assumes "balancer_wf b"
  shows "e \<in> set (healthy_list b) \<longleftrightarrow>
    dict_get (endpoints b) (ep_name e) = Some e \<and> dict_get (health b) (ep_name e) = Some True"
proof -
  have wf: "dict_wf (endpoints b)" "\<forall>(k, e) \<in> set (endpoints b). ep_name e = k \<and> 0 < ep_weight e"
    using assms by (simp_all add: balancer_wf_def)
  have "e \<in> set (healthy_list b) \<longleftrightarrow> (\<exists>k. (k, e) \<in> set (endpoints b) \<and> dict_get_or (health b) k False)"
    by (force simp: healthy_list_def)
  also have "\<dots> \<longleftrightarrow> (ep_name e, e) \<in> set (endpoints b) \<and> dict_get_or (health b) (ep_name e) False"
    using wf(2) by force
  also have "dict_get_or (health b) (ep_name e) False \<longleftrightarrow> dict_get (health b) (ep_name e) = Some True"
    by (auto simp: dict_get_or_def split: option.split)
  finally show ?thesis using wf(1) by (simp add: map_of_eq_Some_iff)
qed

lemma healthy_list_names:
  assumes "balancer_wf b"
  shows "distinct (map ep_name (healthy_list b))" "e \<in> set (healthy_list b) \<Longrightarrow> 0 < ep_weight e"
proof -
  have wf: "dict_wf (endpoints b)" "\<forall>(k, e) \<in> set (endpoints b). ep_name e = k \<and> 0 < ep_weight e"
    using assms by (simp_all add: balancer_wf_def)
  let ?f = "filter (\<lambda>(name, e). dict_get_or (health b) name False) (endpoints b)"
  have "map ep_name (map snd ?f) = map fst ?f" using wf(2) by (auto intro!: map_cong)
  then have "map ep_name (healthy_list b) = map fst ?f" by (simp only: healthy_list_def)
  then show "distinct (map ep_name (healthy_list b))" using wf(1) by (simp add: distinct_map_filter)
  show "0 < ep_weight e" if "e \<in> set (healthy_list b)" using that wf(2) by (auto simp: healthy_list_def)
qed

lemma add_endpoint_wf:
  assumes "balancer_wf b" "0 < ep_weight e"
  shows "balancer_wf (add_endpoint e b)"
proof -
  have "set (dict_set k v d) \<subseteq> insert (k, v) (set d)" for k v and d :: "(string, service_endpoint) dict"
    by (induction d) auto
  then have "\<forall>(k, x) \<in> set (dict_set (ep_name e) e (endpoints b)). ep_name x = k \<and> 0 < ep_weight x"
    using assms unfolding balancer_wf_def by blast
  moreover have "0 \<le> dict_get_or (connections b) (ep_name e) 0"
    using assms(1) by (auto simp: balancer_wf_def dict_get_or_def split: option.split)
  ultimately show ?thesis
    using assms(1) unfolding balancer_wf_def add_endpoint_def Let_def by (auto split: if_splits)
qed

lemma remove_endpoint_wf: "balancer_wf b \<Longrightarrow> balancer_wf (remove_endpoint n b)"
proof -
  have "set (dict_del n (endpoints b)) \<subseteq> set (endpoints b)" by (auto simp: dict_del_filter)
  then show "balancer_wf b \<Longrightarrow> ?thesis" unfolding balancer_wf_def remove_endpoint_def by auto
qed

lemma eb_select_keeps:
  assumes "balancer_wf b"
  shows "balancer_wf (fst (eb_select R s b))"
proof (cases "healthy_list b")
  case Nil
  with assms show ?thesis by (simp add: eb_select_def)
next
  case (Cons e es)
  have frame: "balancer_wf (b\<lparr>eb_rr_counter := c\<rparr>)" "balancer_wf (b\<lparr>eb_rng := g\<rparr>)" for c g
    using assms by (simp_all add: balancer_wf_def)
  show ?thesis
  proof (cases s)
    case WEIGHTED_ROUND_ROBIN
    have ne: "healthy_list b \<noteq> []" using Cons by simp
    obtain x cw where step: "weighted_round_robin (healthy_list b) b = (b\<lparr>wrr_current_weights := cw\<rparr>, Some x)"
      "dom (dict_get cw) = dom (dict_get (wrr_current_weights b)) \<union> ep_name ` set (healthy_list b)"
      using weighted_round_robin_step [OF healthy_list_names(1) [OF assms] ne, of b] by metis
    have "ep_name ` set (healthy_list b) \<subseteq> dom (dict_get (endpoints b))"
      using healthy_list_set [OF assms] by auto
    with assms step(2) have "balancer_wf (b\<lparr>wrr_current_weights := cw\<rparr>)" by (auto simp: balancer_wf_def)
    with step(1) Cons WEIGHTED_ROUND_ROBIN show ?thesis by (simp add: eb_select_def)
  qed (use Cons assms frame in \<open>simp_all add: eb_select_def eb_round_robin_def case_prod_beta\<close>)
qed

interpretation balancer: inv_system "balancer_step R" balancer_wf for R
proof
  fix b :: "'a endpoint_balancer" and e
  assume wf: "balancer_wf b"
  show "balancer_wf (balancer_step R b e)"
  proof (cases e)
    case (SetHealth v n)
    with wf show ?thesis by (auto simp: set_health_def balancer_wf_def dict_has_def)
  next
    case (OpenConnection n)
    with wf show ?thesis
      by (auto simp: record_connection_open_def balancer_wf_def split: option.split)
  next
    case (CloseConnection n)
    with wf show ?thesis
      by (auto simp: record_connection_close_def balancer_wf_def split: option.split)
  qed (simp_all add: wf add_endpoint_wf remove_endpoint_wf eb_select_keeps)
qed

text \<open>Round robin goes round the healthy endpoints.\<close>

interpretation eb_rotor: rotor "eb_select R ROUND_ROBIN" "\<lambda>b. map Inr (healthy_list b)" eb_rr_counter for R
proof (unfold_locales, goal_cases)
  case (1 b)
  then obtain e es where h: "healthy_list b = e # es" by (cases "healthy_list b") auto
  have "nat (eb_rr_counter b mod int (length (e # es))) < length (e # es)" by (simp add: nat_less_iff)
  then have "map (Inr :: _ \<Rightarrow> exn + _) (e # es) ! nat (eb_rr_counter b mod int (length (e # es))) =
      Inr ((e # es) ! nat (eb_rr_counter b mod int (length (e # es))))" by (rule nth_map)
  with h show ?case by (simp add: eb_select_def eb_round_robin_def)
qed (auto simp: eb_select_def eb_round_robin_def split: list.split)

section \<open>Properties\<close>

text \<open>
  Selection is sound. After any operations, \<open>select\<close> raises exactly when no endpoint is healthy
  and otherwise returns a registered endpoint whose health flag is set; \<open>least_connections\<close> returns
  one with the fewest open connections, which are never counted below zero; and over \<open>k\<close> rounds
  round robin returns every healthy endpoint exactly \<open>k\<close> times.
\<close>

theorem endpoint_selection_sound:
  assumes "rng_ok R" "b = foldl (balancer_step R) (EndpointBalancer g) es"
  shows "(healthy_list b = [] \<longrightarrow> snd (eb_select R s b) = Inl NoHealthyEndpointError) \<and>
    (healthy_list b \<noteq> [] \<longrightarrow> (\<exists>e. snd (eb_select R s b) = Inr e \<and>
      dict_get (endpoints b) (ep_name e) = Some e \<and> dict_get (health b) (ep_name e) = Some True \<and>
      (s = LEAST_CONNECTIONS \<longrightarrow> (\<forall>x \<in> set (healthy_list b).
        dict_get_or (connections b) (ep_name e) 0 \<le> dict_get_or (connections b) (ep_name x) 0)))) \<and>
    (\<forall>k c. dict_get (connections b) k = Some c \<longrightarrow> 0 \<le> c) \<and>
    (\<forall>e \<in> set (healthy_list b).
      count_list (picks (eb_select R ROUND_ROBIN) (k * length (healthy_list b)) b) (Inr e) = k)"
proof (intro conjI impI ballI)
  have "balancer_wf (EndpointBalancer g)" by (simp add: EndpointBalancer_def balancer_wf_def)
  then have wf: "balancer_wf b" unfolding assms(2) by (rule balancer.run_inv)
  show "snd (eb_select R s b) = Inl NoHealthyEndpointError" if "healthy_list b = []"
    using that by (simp add: eb_select_def)
  show "\<forall>k c. dict_get (connections b) k = Some c \<longrightarrow> 0 \<le> c" using wf by (simp add: balancer_wf_def)
  show "\<exists>e. snd (eb_select R s b) = Inr e \<and> dict_get (endpoints b) (ep_name e) = Some e \<and>
      dict_get (health b) (ep_name e) = Some True \<and> (s = LEAST_CONNECTIONS \<longrightarrow> (\<forall>x \<in> set (healthy_list b).
        dict_get_or (connections b) (ep_name e) 0 \<le> dict_get_or (connections b) (ep_name x) 0))"
    if ne: "healthy_list b \<noteq> []"
  proof -
    obtain x xs where h: "healthy_list b = x # xs" using ne by (cases "healthy_list b") auto
    have "\<exists>e. snd (eb_select R s b) = Inr e \<and> e \<in> set (healthy_list b) \<and> (s = LEAST_CONNECTIONS \<longrightarrow>
        e = least_connections x xs b)"
    proof (cases s)
      case ROUND_ROBIN
      have "nat (eb_rr_counter b mod int (length (x # xs))) < length (x # xs)" by (simp add: nat_less_iff)
      then have "(x # xs) ! nat (eb_rr_counter b mod int (length (x # xs))) \<in> set (x # xs)" by (rule nth_mem)
      with ROUND_ROBIN show ?thesis by (simp add: eb_select_def eb_round_robin_def h)
    next
      case WEIGHTED_ROUND_ROBIN
      obtain e cw where "weighted_round_robin (healthy_list b) b = (b\<lparr>wrr_current_weights := cw\<rparr>, Some e)"
        "e \<in> set (healthy_list b)"
        using weighted_round_robin_step [OF healthy_list_names(1) [OF wf] ne, of b] by metis
      with WEIGHTED_ROUND_ROBIN h show ?thesis by (simp add: eb_select_def)
    next
      case LEAST_CONNECTIONS
      with min_by_from_in [of "\<lambda>e. dict_get_or (connections b) (ep_name e) 0" x xs] show ?thesis
        by (simp add: eb_select_def h least_connections_def)
    next
      case RANDOM
      have "snd (draw_index R (eb_rng b) (length (x # xs))) < length (x # xs)"
        using assms(1) by (simp add: rng_ok_def)
      then have "(x # xs) ! snd (draw_index R (eb_rng b) (length (x # xs))) \<in> set (x # xs)" by (rule nth_mem)
      with RANDOM show ?thesis by (simp add: eb_select_def h case_prod_beta)
    qed
    then obtain e where e: "snd (eb_select R s b) = Inr e" "e \<in> set (healthy_list b)"
      "s = LEAST_CONNECTIONS \<longrightarrow> e = least_connections x xs b" by blast
    with healthy_list_set [OF wf, of e] show ?thesis
      using min_by_from_min [of _ x xs "\<lambda>e. dict_get_or (connections b) (ep_name e) 0"]
      by (auto simp: h least_connections_def)
  qed
  show "count_list (picks (eb_select R ROUND_ROBIN) (k * length (healthy_list b)) b) (Inr e) = k"
    if e: "e \<in> set (healthy_list b)" for e
  proof -
    have "mset (picks (eb_select R ROUND_ROBIN) (k * length (healthy_list b)) b) =
        repeat_mset k (image_mset Inr (mset (healthy_list b)))"
      using eb_rotor.picks_fair [of b R k] e by fastforce
    moreover have "distinct (healthy_list b)" using healthy_list_names(1) [OF wf] by (simp add: distinct_map)
    then have "count (image_mset (Inr :: _ \<Rightarrow> exn + _) (mset (healthy_list b))) (Inr e) = 1"
      using e count_image_inj [of "Inr :: _ \<Rightarrow> exn + _" "mset (healthy_list b)" e] by (simp add: distinct_count_atmost_1)
    ultimately show ?thesis by (simp add: count_mset [symmetric])
  qed
qed

definition example_endpoint :: "string \<Rightarrow> rat \<Rightarrow> service_endpoint" where
  "example_endpoint n w = \<lparr>ep_name = n, ep_host = ''10.0.0.1'', ep_port = 8080, ep_weight = w, ep_healthy = True\<rparr>"

definition first_endpoint :: "nat rng_ops" where
  "first_endpoint = \<lparr>draw_index = (\<lambda>g n. (g, 0)), draw_order = (\<lambda>g n. (g, [0..<n]))\<rparr>"

definition example_pool :: "nat endpoint_balancer" where
  "example_pool = foldl (balancer_step first_endpoint) (EndpointBalancer 0)
     [AddEndpoint (example_endpoint ''a'' 3), AddEndpoint (example_endpoint ''b'' 1)]"

lemma example_pool_healthy: "healthy_list example_pool = [example_endpoint ''a'' 3, example_endpoint ''b'' 1]"
  by (simp add: example_pool_def EndpointBalancer_def add_endpoint_def healthy_list_def example_endpoint_def
      dict_get_or_def)

theorem endpoint_selection_sound_witness:
  "count_list (picks (eb_select first_endpoint ROUND_ROBIN) 4 example_pool) (Inr (example_endpoint ''a'' 3)) = 2"
proof -
  have "rng_ok first_endpoint" by (simp add: rng_ok_def first_endpoint_def)
  from endpoint_selection_sound [OF this example_pool_def, of RANDOM 2] show ?thesis
    by (simp add: example_pool_healthy)
qed

text \<open>
  C17: Smooth weighted round robin is proportional. From fresh weights and while the healthy pool does
  not change, after any number \<open>n\<close> of requests no endpoint is one request or more ahead of its share
  \<open>n * weight / total\<close>; and whenever all shares are whole numbers, every endpoint has received
  exactly its share.
\<close>

theorem weighted_round_robin_proportional:
  assumes "balancer_wf b" "e \<in> set (healthy_list b)"
    and "\<forall>x \<in> set (healthy_list b). dict_get_or (wrr_current_weights b) (ep_name x) 0 = 0"
    and "W = sum_list (map ep_weight (healthy_list b))"
  shows "of_nat (count_list (picks wrr_pick n b) (Some e)) < of_nat n * ep_weight e / W + 1 \<and>
    ((\<forall>x \<in> set (healthy_list b). \<exists>z :: int. of_nat n * ep_weight x / W = of_int z) \<longrightarrow>
      of_nat (count_list (picks wrr_pick n b) (Some e)) = of_nat n * ep_weight e / W)"
proof -
  let ?hs = "healthy_list b" and ?c = "\<lambda>x. count_list (picks wrr_pick n b) (Some x)"
  note names = healthy_list_names [OF assms(1)]
  have ne: "?hs \<noteq> []" using assms(2) by auto
  have d: "distinct ?hs" using names(1) by (simp add: distinct_map)
  then have W: "W = (\<Sum>x \<in> set ?hs. ep_weight x)" unfolding assms(4) by (rule sum_list_distinct_conv_sum_set)
  have pos: "0 < W" unfolding W using ne names(2) by (intro sum_pos) auto
  have bound: "of_nat (?c x) < of_nat n * ep_weight x / W + 1" if x: "x \<in> set ?hs" for x
  proof -
    have "W * of_nat (?c x) < of_nat n * ep_weight x + W"
      using wrr_balance [OF names(1) ne, of x n] x names(2) assms(3,4) pos by simp
    with pos show ?thesis by (simp add: field_simps)
  qed
  moreover have "of_nat (?c e) = of_nat n * ep_weight e / W"
    if int: "\<forall>x \<in> set ?hs. \<exists>z :: int. of_nat n * ep_weight x / W = of_int z"
  proof -
    have le: "of_nat (?c x) \<le> of_nat n * ep_weight x / W" if x: "x \<in> set ?hs" for x
    proof -
      obtain z :: int where z: "of_nat n * ep_weight x / W = of_int z" using int x by blast
      with bound [OF x] have "(of_int (int (?c x)) :: rat) < of_int (z + 1)" by simp
      then have "int (?c x) < z + 1" unfolding of_int_less_iff .
      then have "int (?c x) \<le> z" by simp
      then have "(of_int (int (?c x)) :: rat) \<le> of_int z" unfolding of_int_le_iff .
      then show ?thesis unfolding z by simp
    qed
    have "(\<Sum>x \<in> set ?hs. of_nat n * ep_weight x / W) = of_nat n"
      using pos by (simp add: W [symmetric] sum_divide_distrib [symmetric] sum_distrib_left [symmetric])
    moreover have "(\<Sum>x \<in> set ?hs. (of_nat (?c x) :: rat)) = of_nat n"
      using wrr_pick_total [OF names(1) ne, of n] by (simp add: of_nat_sum [symmetric] del: of_nat_sum)
    ultimately have "(\<Sum>x \<in> set ?hs. of_nat n * ep_weight x / W - of_nat (?c x)) = 0"
      by (simp add: sum_subtractf)
    then have "of_nat n * ep_weight e / W - of_nat (?c e) = 0"
      using le assms(2) by (subst (asm) sum_nonneg_eq_0_iff) auto
    then show ?thesis by simp
  qed
  ultimately show ?thesis using assms(2) by blast
qed

theorem weighted_round_robin_proportional_witness:
  "count_list (picks wrr_pick 8 example_pool) (Some (example_endpoint ''a'' 3)) = 6"
proof -
  have "balancer_wf example_pool"
    unfolding example_pool_def by (rule balancer.run_inv) (simp add: EndpointBalancer_def balancer_wf_def)
  moreover have "example_endpoint ''a'' 3 \<in> set (healthy_list example_pool)" by (simp add: example_pool_healthy)
  moreover have "\<forall>x \<in> set (healthy_list example_pool). dict_get_or (wrr_current_weights example_pool) (ep_name x) 0 = 0"
    by (simp add: example_pool_healthy)
      (simp add: example_pool_def EndpointBalancer_def add_endpoint_def example_endpoint_def dict_get_or_def)
  moreover have W: "sum_list (map ep_weight (healthy_list example_pool)) = 4"
    by (simp add: example_pool_healthy example_endpoint_def)
  moreover have "\<forall>x \<in> set (healthy_list example_pool). \<exists>z :: int. of_nat 8 * ep_weight x / 4 = of_int z"
    by (auto simp: example_pool_healthy example_endpoint_def intro: exI [of _ 6] exI [of _ 2])
  ultimately have "(of_nat (count_list (picks wrr_pick 8 example_pool) (Some (example_endpoint ''a'' 3))) :: rat) =
      of_nat 8 * ep_weight (example_endpoint ''a'' 3) / 4"
    using weighted_round_robin_proportional [of example_pool "example_endpoint ''a'' 3" 4 8] by simp
  then show ?thesis by (simp add: example_endpoint_def)
qed

end
