(* ===== verification/Retry_Policy.thy ===== *)
theory Retry_Policy
  imports Mesh_Prelude
begin

text \<open>
  \<open>resilience/retry.py\<close> and \<open>resilience/recovery_tester.py\<close>: retrying a callable with exponential
  back-off and jitter, and probing a service to decide whether its circuit may close. What the
  callable does at each call is an argument, as is the jitter drawn.
\<close>

section \<open>Retries\<close>

record retry_config =
  max_retries :: int
  base_delay_seconds :: rat
  max_delay_seconds :: rat
  exponential_base :: rat
  jitter :: bool

definition RetryConfig :: "int \<Rightarrow> rat \<Rightarrow> rat \<Rightarrow> rat \<Rightarrow> bool \<Rightarrow> exn + retry_config" where
  "RetryConfig n d mx x j =
     (if n < 0 then Inl (ValueError ''max_retries'')
      else if d < 0 then Inl (ValueError ''base_delay_seconds'')
      else if mx < d then Inl (ValueError ''max_delay_seconds'')
      else if x < 1 then Inl (ValueError ''exponential_base'')
      else Inr \<lparr>max_retries = n, base_delay_seconds = d, max_delay_seconds = mx, exponential_base = x, jitter = j\<rparr>)"

text \<open>\<open>uniform k a b\<close> is the number drawn by the \<open>k\<close>-th call of \<open>random.uniform(a, b)\<close>.\<close>

definition compute_delay :: "(nat \<Rightarrow> rat \<Rightarrow> rat \<Rightarrow> rat) \<Rightarrow> retry_config \<Rightarrow> nat \<Rightarrow> rat" where
  "compute_delay uniform cfg attempt =
     (let raw = min (base_delay_seconds cfg * exponential_base cfg ^ attempt) (max_delay_seconds cfg)
      in if jitter cfg then uniform attempt 0 raw else raw)"

text \<open>The loop: the outcome, how often the callable was called, and the sleeps between the calls.\<close>

function retry_loop ::
    "(nat \<Rightarrow> rat \<Rightarrow> rat \<Rightarrow> rat) \<Rightarrow> retry_config \<Rightarrow> (nat \<Rightarrow> exn + 'a) \<Rightarrow> nat \<Rightarrow> exn option \<Rightarrow> (exn + 'a) \<times> nat \<times> rat list"
  where
  "retry_loop uniform cfg fn attempt last_exc =
     (let total_attempts = max_retries cfg + 1 in
      if int attempt \<ge> total_attempts
      then (Inl (RetryExhaustedError total_attempts
              (case last_exc of None \<Rightarrow> AppError ''Unknown error'' | Some x \<Rightarrow> x)), attempt, [])
      else case fn attempt of
        Inr v \<Rightarrow> (Inr v, attempt + 1, [])
      | Inl x \<Rightarrow>
          if \<not> is_exception x then (Inl x, attempt + 1, [])
          else if total_attempts - int attempt - 1 > 0
          then (case retry_loop uniform cfg fn (attempt + 1) (Some x) of
                  (r, n, ds) \<Rightarrow> (r, n, compute_delay uniform cfg attempt # ds))
          else retry_loop uniform cfg fn (attempt + 1) (Some x))"
  by pat_completeness auto
termination
  by (relation "measure (\<lambda>(u, cfg, fn, attempt, l). nat (max_retries cfg + 1 - int attempt))") auto

declare retry_loop.simps [simp del]

definition retry_execute ::
    "(nat \<Rightarrow> rat \<Rightarrow> rat \<Rightarrow> rat) \<Rightarrow> retry_config \<Rightarrow> (nat \<Rightarrow> exn + 'a) \<Rightarrow> (exn + 'a) \<times> nat \<times> rat list" where
  "retry_execute uniform cfg fn = retry_loop uniform cfg fn 0 None"

text \<open>\<open>execute_async\<close> is the same loop with \<open>await\<close>.\<close>

definition retry_execute_async ::
    "(nat \<Rightarrow> rat \<Rightarrow> rat \<Rightarrow> rat) \<Rightarrow> retry_config \<Rightarrow> (nat \<Rightarrow> exn + 'a) \<Rightarrow> (exn + 'a) \<times> nat \<times> rat list" where
  "retry_execute_async uniform cfg fn = retry_loop uniform cfg fn 0 None"

section \<open>Recovery tests\<close>

record recovery_result =
  total_attempts :: int
  successes :: int
  failures :: int
  should_close :: bool
  recovery_latency_ms :: rat

definition RecoveryTestResult :: "int \<Rightarrow> int \<Rightarrow> int \<Rightarrow> bool \<Rightarrow> rat \<Rightarrow> exn + recovery_result" where
  "RecoveryTestResult t s f c l =
     (if t < 0 then Inl (ValueError ''total_attempts'')
      else if s < 0 then Inl (ValueError ''successes'')
      else if f < 0 then Inl (ValueError ''failures'')
      else if s + f > t then Inl (ValueError ''total_attempts'')
      else if l < 0 then Inl (ValueError ''latency_ms'')
      else Inr \<lparr>total_attempts = t, successes = s, failures = f, should_close = c, recovery_latency_ms = l\<rparr>)"

definition success_rate :: "recovery_result \<Rightarrow> rat" where
  "success_rate r = (if total_attempts r = 0 then 0 else of_int (successes r) / of_int (total_attempts r))"

record recovery_tester =
  max_test_requests :: int
  rt_success_threshold :: int
  stop_on_first_failure :: bool

definition RecoveryTester :: "int \<Rightarrow> int \<Rightarrow> bool \<Rightarrow> exn + recovery_tester" where
  "RecoveryTester m s f =
     (if m < 1 then Inl (ValueError ''max_test_requests'')
      else if s < 1 then Inl (ValueError ''success_threshold'')
      else if s > m then Inl (ValueError ''success_threshold'')
      else Inr \<lparr>max_test_requests = m, rt_success_threshold = s, stop_on_first_failure = f\<rparr>)"

text \<open>The loop over the remaining probes: the counts, or the exception that is not caught.\<close>

fun probe_loop :: "recovery_tester \<Rightarrow> exn option list \<Rightarrow> int \<Rightarrow> int \<Rightarrow> exn + int \<times> int" where
  "probe_loop t [] s f = Inr (s, f)"
| "probe_loop t (None # ps) s f =
     (if s + 1 \<ge> rt_success_threshold t then Inr (s + 1, f) else probe_loop t ps (s + 1) f)"
| "probe_loop t (Some x # ps) s f =
     (if \<not> is_exception x then Inl x
      else if stop_on_first_failure t then Inr (s, f + 1) else probe_loop t ps s (f + 1))"

definition test_recovery :: "recovery_tester \<Rightarrow> (nat \<Rightarrow> exn option) \<Rightarrow> timestamp \<Rightarrow> timestamp \<Rightarrow> exn + recovery_result" where
  "test_recovery t service start stop =
     (case probe_loop t (map service [0..<nat (max_test_requests t)]) 0 0 of
        Inl x \<Rightarrow> Inl x
      | Inr (s, f) \<Rightarrow> RecoveryTestResult (s + f) s f (s \<ge> rt_success_threshold t) ((stop - start) * 1000))"

section \<open>Lemmas\<close>

definition attempt_raises :: "(nat \<Rightarrow> exn + 'a) \<Rightarrow> nat \<Rightarrow> bool" where
  "attempt_raises fn i \<longleftrightarrow> (case fn i of Inl x \<Rightarrow> is_exception x | Inr _ \<Rightarrow> False)"

lemma retry_loop_settled:
  "k \<le> i \<Longrightarrow> int i \<le> max_retries cfg \<Longrightarrow> (\<forall>j. k \<le> j \<and> j < i \<longrightarrow> attempt_raises fn j) \<Longrightarrow> \<not> attempt_raises fn i \<Longrightarrow>
     retry_loop u cfg fn k l = (fn i, i + 1, map (compute_delay u cfg) [k..<i])"
proof (induction "i - k" arbitrary: k l)
  case 0
  then show ?case by (subst retry_loop.simps) (auto simp: Let_def attempt_raises_def split: sum.splits)
next
  case (Suc d)
  then have "attempt_raises fn k" by simp
  then obtain x where x: "fn k = Inl x" "is_exception x" by (auto simp: attempt_raises_def split: sum.splits)
  have "retry_loop u cfg fn (k + 1) (Some x) = (fn i, i + 1, map (compute_delay u cfg) [k + 1..<i])"
    using Suc by (intro Suc.hyps(1)) auto
  moreover have "[k..<i] = k # [k + 1..<i]" using Suc by (simp add: upt_conv_Cons)
  ultimately show ?case using x Suc by (subst retry_loop.simps) (simp add: Let_def)
qed

lemma retry_loop_exhausted:
  "int k \<le> max_retries cfg \<Longrightarrow> (\<forall>j. k \<le> j \<and> int j \<le> max_retries cfg \<longrightarrow> attempt_raises fn j) \<Longrightarrow>
     \<exists>x. fn (nat (max_retries cfg)) = Inl x \<and> retry_loop u cfg fn k l =
       (Inl (RetryExhaustedError (max_retries cfg + 1) x), nat (max_retries cfg) + 1,
        map (compute_delay u cfg) [k..<nat (max_retries cfg)])"
proof (induction "nat (max_retries cfg) - k" arbitrary: k l)
  case 0
  then have k: "nat (max_retries cfg) = k" "max_retries cfg = int k" by simp_all
  then have "attempt_raises fn k" using "0.prems"(2) by simp
  then obtain x where x: "fn k = Inl x" "is_exception x" by (auto simp: attempt_raises_def split: sum.splits)
  have "retry_loop u cfg fn (k + 1) (Some x) = (Inl (RetryExhaustedError (max_retries cfg + 1) x), k + 1, [])"
    using k by (subst retry_loop.simps) simp
  with x k show ?case by (subst retry_loop.simps) (simp add: Let_def)
next
  case (Suc d)
  then have "attempt_raises fn k" by simp
  then obtain x where x: "fn k = Inl x" "is_exception x" by (auto simp: attempt_raises_def split: sum.splits)
  have lt: "int k < max_retries cfg" using Suc.hyps(2) by linarith
  have "d = nat (max_retries cfg) - (k + 1)" "int (k + 1) \<le> max_retries cfg"
    "\<forall>j. k + 1 \<le> j \<and> int j \<le> max_retries cfg \<longrightarrow> attempt_raises fn j"
    using Suc.hyps(2) lt Suc.prems(2) by simp_all
  then obtain y where "fn (nat (max_retries cfg)) = Inl y" "retry_loop u cfg fn (k + 1) (Some x) =
      (Inl (RetryExhaustedError (max_retries cfg + 1) y), nat (max_retries cfg) + 1,
       map (compute_delay u cfg) [k + 1..<nat (max_retries cfg)])"
    using Suc.hyps(1) by blast
  moreover have "[k..<nat (max_retries cfg)] = k # [k + 1..<nat (max_retries cfg)]"
    using lt by (simp add: upt_conv_Cons)
  ultimately show ?case using x lt by (subst retry_loop.simps) (simp add: Let_def)
qed

abbreviation succeeded :: "exn option list \<Rightarrow> nat" where
  "succeeded ps \<equiv> length (filter (\<lambda>p. p = None) ps)"

lemma probe_loop_counts:
  assumes "\<forall>x. Some x \<in> set ps \<longrightarrow> is_exception x" "s < rt_success_threshold t"
  shows "\<exists>s' f'. probe_loop t ps s f = Inr (s', f') \<and> s \<le> s' \<and> f \<le> f' \<and> s' + f' \<le> s + f + int (length ps) \<and>
    (s' \<ge> rt_success_threshold t \<longleftrightarrow> s + int (if stop_on_first_failure t
       then length (takeWhile (\<lambda>p. p = None) ps) else succeeded ps) \<ge> rt_success_threshold t)"
  using assms
proof (induction ps arbitrary: s f)
  case (Cons p ps)
  show ?case
  proof (cases p)
    case None
    show ?thesis
    proof (cases "s + 1 \<ge> rt_success_threshold t")
      case True
      with None Cons.prems show ?thesis by auto
    next
      case False
      with Cons.IH [of "s + 1" f] Cons.prems None show ?thesis by (fastforce split: if_splits)
    qed
  next
    case (Some x)
    with Cons.IH [of s "f + 1"] Cons.prems show ?thesis by (fastforce split: if_splits)
  qed
qed simp

lemma takeWhile_prefix:
  assumes "n \<le> length xs"
  shows "n \<le> length (takeWhile P xs) \<longleftrightarrow> (\<forall>i < n. P (xs ! i))"
proof
  assume "n \<le> length (takeWhile P xs)"
  then show "\<forall>i < n. P (xs ! i)"
    by (metis nth_mem order.strict_trans2 set_takeWhileD takeWhile_nth)
next
  assume all: "\<forall>i < n. P (xs ! i)"
  show "n \<le> length (takeWhile P xs)"
  proof (rule ccontr)
    assume "\<not> n \<le> length (takeWhile P xs)"
    with all assms show False using nth_length_takeWhile [of P xs] by auto
  qed
qed

section \<open>Properties\<close>



text \<open>
  A recovery test always gives a verdict (its own consistency checks never fail) on at most
  \<open>max_test_requests\<close> probes. When it stops at the first failure it recommends closing exactly if the
  first \<open>success_threshold\<close> probes all succeed; otherwise exactly if so many of all the probes
  succeed, in whatever positions.
\<close>

theorem recovery_verdict:
  assumes "RecoveryTester m s f = Inr t" "\<forall>i x. service i = Some x \<longrightarrow> is_exception x" "start \<le> stop"
  shows "\<exists>r. test_recovery t service start stop = Inr r \<and> total_attempts r = successes r + failures r \<and>
    0 \<le> successes r \<and> 0 \<le> failures r \<and> total_attempts r \<le> m \<and>
    (should_close r \<longleftrightarrow> (if f then \<forall>i < nat s. service i = None
       else s \<le> int (card {i. i < nat m \<and> service i = None})))"
proof -
  have t: "max_test_requests t = m" "rt_success_threshold t = s" "stop_on_first_failure t = f"
    and ok: "1 \<le> s" "s \<le> m"
    using assms(1) by (auto simp: RecoveryTester_def split: if_splits)
  let ?ps = "map service [0..<nat m]"
  have ex: "\<forall>x. Some x \<in> set ?ps \<longrightarrow> is_exception x" using assms(2) by (metis ex_map_conv)
  obtain s' f' where loop: "probe_loop t ?ps 0 0 = Inr (s', f')" "0 \<le> s'" "0 \<le> f'" "s' + f' \<le> m"
    "s' \<ge> s \<longleftrightarrow> int (if f then length (takeWhile (\<lambda>p. p = None) ?ps) else succeeded ?ps) \<ge> s"
    using probe_loop_counts [OF ex, of 0 t 0] ok t by auto
  have "succeeded ?ps = card {i. i < nat m \<and> service i = None}"
    by (simp add: length_filter_conv_card cong: conj_cong)
  moreover have "int (length (takeWhile (\<lambda>p. p = None) ?ps)) \<ge> s \<longleftrightarrow> (\<forall>i < nat s. service i = None)"
  proof -
    have "nat s \<le> length ?ps" using ok by simp
    from takeWhile_prefix [OF this, of "\<lambda>p. p = None"] ok show ?thesis by (auto simp: nat_le_iff)
  qed
  ultimately have verdict: "s' \<ge> s \<longleftrightarrow> (if f then \<forall>i < nat s. service i = None
      else s \<le> int (card {i. i < nat m \<and> service i = None}))"
    using loop(5) by (cases f) simp_all
  have "test_recovery t service start stop = Inr \<lparr>total_attempts = s' + f', successes = s', failures = f',
      should_close = (s' \<ge> s), recovery_latency_ms = (stop - start) * 1000\<rparr>"
    using loop assms(3) by (simp add: test_recovery_def t RecoveryTestResult_def)
  with loop(2-4) verdict show ?thesis by auto
qed

theorem recovery_verdict_witness:
  "\<exists>r. test_recovery \<lparr>max_test_requests = 3, rt_success_threshold = 2, stop_on_first_failure = False\<rparr>
     (\<lambda>i. if i = 1 then Some (AppError ''down'') else None) 0 1 = Inr r \<and> should_close r"
proof -
  let ?t = "\<lparr>max_test_requests = 3, rt_success_threshold = 2, stop_on_first_failure = False\<rparr>"
  let ?sv = "\<lambda>i :: nat. if i = 1 then Some (AppError ''down'') else None"
  have "RecoveryTester 3 2 False = Inr ?t" by (simp add: RecoveryTester_def)
  moreover have "{i. i < nat 3 \<and> ?sv i = None} = {0, 2}" by auto
  moreover have "\<forall>i x. ?sv i = Some x \<longrightarrow> is_exception x" by auto
  ultimately obtain r where "test_recovery ?t ?sv 0 1 = Inr r" "should_close r"
    using recovery_verdict [of 3 2 False ?t ?sv 0 1] by auto
  then show ?thesis by blast
qed

end
