(* ===== verification/Fallbacks.thy ===== *)
theory Fallbacks
  imports Mesh_Prelude
begin

text \<open>
  \<open>resilience/fallback_registry.py\<close>: the static and the caching handler, and the registry that
  dispatches to them. A caching handler is an object that its owner keeps updating after it was
  registered, perhaps under several service names; so the caches live in a store and a handler
  holds the address of its cache. Handlers defined outside the package are functions.
\<close>

section \<open>Handlers and the registry\<close>

type_synonym 'v fb_context = "(string, 'v) dict"

datatype 'v fallback_handler =
    StaticFallbackHandler 'v
  | CacheFallbackHandler nat
  | CustomHandler "string \<Rightarrow> exn \<Rightarrow> 'v fb_context \<Rightarrow> exn + 'v"

record 'v fallback_state =
  caches :: "(nat, (string, 'v) dict) dict"
  fb_handlers :: "(string, 'v fallback_handler) dict"

definition update_cache :: "nat \<Rightarrow> string \<Rightarrow> 'v \<Rightarrow> 'v fallback_state \<Rightarrow> 'v fallback_state" where
  "update_cache p service v s =
     s\<lparr>caches := dict_set p (dict_set service v (dict_get_or (caches s) p [])) (caches s)\<rparr>"

definition has_cached_value :: "nat \<Rightarrow> string \<Rightarrow> 'v fallback_state \<Rightarrow> bool" where
  "has_cached_value p service s = dict_has (dict_get_or (caches s) p []) service"

definition cache_handle :: "nat \<Rightarrow> string \<Rightarrow> 'v fallback_state \<Rightarrow> exn + 'v" where
  "cache_handle p service s =
     (if \<not> has_cached_value p service s then Inl (KeyError service)
      else case dict_get (dict_get_or (caches s) p []) service of
        None \<Rightarrow> Inl (KeyError service) | Some v \<Rightarrow> Inr v)"

fun handle :: "'v fallback_handler \<Rightarrow> string \<Rightarrow> exn \<Rightarrow> 'v fb_context \<Rightarrow> 'v fallback_state \<Rightarrow> exn + 'v" where
  "handle (StaticFallbackHandler v) service error ctx s = Inr v"
| "handle (CacheFallbackHandler p) service error ctx s = cache_handle p service s"
| "handle (CustomHandler f) service error ctx s = f service error ctx"

definition fb_register :: "string \<Rightarrow> 'v fallback_handler \<Rightarrow> 'v fallback_state \<Rightarrow> ('v fallback_state, unit) outcome" where
  "fb_register service h s =
     (if service = [] then (s, Inl (ValueError ''service_name''))
      else (s\<lparr>fb_handlers := dict_set service h (fb_handlers s)\<rparr>, Inr ()))"

definition get_handler :: "string \<Rightarrow> 'v fallback_state \<Rightarrow> 'v fallback_handler option" where
  "get_handler service s = dict_get (fb_handlers s) service"

definition has_fallback :: "string \<Rightarrow> 'v fallback_state \<Rightarrow> bool" where
  "has_fallback service s = dict_has (fb_handlers s) service"

definition execute_fallback ::
    "string \<Rightarrow> exn \<Rightarrow> 'v fb_context option \<Rightarrow> 'v fallback_state \<Rightarrow> exn + 'v" where
  "execute_fallback service error ctx s =
     (case dict_get (fb_handlers s) service of
        None \<Rightarrow> Inl (KeyError service)
      | Some h \<Rightarrow> handle h service error (case ctx of None \<Rightarrow> [] | Some c \<Rightarrow> c) s)"

definition fb_unregister :: "string \<Rightarrow> 'v fallback_state \<Rightarrow> ('v fallback_state, unit) outcome" where
  "fb_unregister service s =
     (if \<not> dict_has (fb_handlers s) service then (s, Inl (KeyError service))
      else (s\<lparr>fb_handlers := dict_del service (fb_handlers s)\<rparr>, Inr ()))"

definition registered_services :: "'v fallback_state \<Rightarrow> string list" where
  "registered_services s = sort (dict_keys (fb_handlers s))"

section \<open>The specification\<close>

datatype 'v fallback_event =
    RegisterFallback string "'v fallback_handler"
  | UnregisterFallback string
  | UpdateCache nat string 'v

fun fallback_step :: "'v fallback_state \<Rightarrow> 'v fallback_event \<Rightarrow> 'v fallback_state" where
  "fallback_step s (RegisterFallback n h) = fst (fb_register n h s)"
| "fallback_step s (UnregisterFallback n) = fst (fb_unregister n s)"
| "fallback_step s (UpdateCache p n v) = update_cache p n v s"

text \<open>What the events so far say about a service name and about a cache.\<close>

fun last_handler :: "string \<Rightarrow> 'v fallback_event list \<Rightarrow> 'v fallback_handler option" where
  "last_handler n [] = None"
| "last_handler n (RegisterFallback m h # es) = (if m = n \<and> n \<noteq> [] then Some h else last_handler n es)"
| "last_handler n (UnregisterFallback m # es) = (if m = n then None else last_handler n es)"
| "last_handler n (UpdateCache _ _ _ # es) = last_handler n es"

fun last_cached :: "nat \<Rightarrow> string \<Rightarrow> 'v fallback_event list \<Rightarrow> 'v option" where
  "last_cached p n [] = None"
| "last_cached p n (UpdateCache q m v # es) = (if q = p \<and> m = n then Some v else last_cached p n es)"
| "last_cached p n (_ # es) = last_cached p n es"

section \<open>Lemmas\<close>

text \<open>The registry is a keyed store; its raising variants differ only on the error branches.\<close>

interpretation fb_store: keyed_store "\<lambda>s n. get_handler n s"
    "\<lambda>n h s. s\<lparr>fb_handlers := dict_set n h (fb_handlers s)\<rparr>"
    "\<lambda>n s. s\<lparr>fb_handlers := dict_del n (fb_handlers s)\<rparr>"
  by unfold_locales (simp_all add: get_handler_def fun_eq_iff)

lemma get_handler_register:
  "get_handler n (fst (fb_register m h s)) = (if m = n \<and> n \<noteq> [] then Some h else get_handler n s)"
  using fb_store.find_put_same [of n h s] fb_store.find_put_other [of n m h s]
  by (cases "m = n") (simp_all add: fb_register_def)

lemma get_handler_unregister:
  "get_handler n (fst (fb_unregister m s)) = (if m = n then None else get_handler n s)"
  using fb_store.find_remove [of m s] by (auto simp: fb_unregister_def dict_has_def get_handler_def fun_eq_iff)

lemma fallback_run:
  assumes "s = foldl fallback_step \<lparr>caches = [], fb_handlers = []\<rparr> es"
  shows "get_handler n s = last_handler n (rev es)"
    "dict_get (dict_get_or (caches s) p []) n = last_cached p n (rev es)"
  using assms
proof (induction es arbitrary: s rule: rev_induct)
  case Nil
  { case 1 then show ?case by (simp add: get_handler_def) }
  { case 2 then show ?case by (simp add: dict_get_or_def) }
next
  case (snoc e es)
  let ?s = "foldl fallback_step \<lparr>caches = [], fb_handlers = []\<rparr> es"
  { case 1
    then show ?case using snoc(1) [OF refl]
      by (cases e) (auto simp: get_handler_register get_handler_unregister, simp add: update_cache_def get_handler_def) }
  { case 2
    then show ?case using snoc(2) [OF refl]
      by (cases e) (auto simp: fb_register_def fb_unregister_def update_cache_def dict_get_or_def split: if_splits) }
qed

section \<open>Property\<close>

text \<open>
  A fallback is answered by the handler registered last for the service and not removed since: a
  static handler gives its value, a caching handler the value last stored for this service in its
  cache, also when that happened after the registration, and a foreign handler is called with the
  context given (or an empty one). With no handler, or nothing cached, a \<open>KeyError\<close> is raised.
\<close>

theorem fallback_answer:
  assumes "s = foldl fallback_step \<lparr>caches = [], fb_handlers = []\<rparr> es"
  shows "execute_fallback n error ctx s = (case last_handler n (rev es) of
      None \<Rightarrow> Inl (KeyError n)
    | Some (StaticFallbackHandler v) \<Rightarrow> Inr v
    | Some (CacheFallbackHandler p) \<Rightarrow> (case last_cached p n (rev es) of None \<Rightarrow> Inl (KeyError n) | Some v \<Rightarrow> Inr v)
    | Some (CustomHandler f) \<Rightarrow> f n error (case ctx of None \<Rightarrow> [] | Some c \<Rightarrow> c)) \<and>
    (has_fallback n s \<longleftrightarrow> last_handler n (rev es) \<noteq> None) \<and> set (registered_services s) = {m. has_fallback m s}"
proof -
  note run = fallback_run [OF assms]
  have "cache_handle p n s = (case last_cached p n (rev es) of None \<Rightarrow> Inl (KeyError n) | Some v \<Rightarrow> Inr v)" for p
    using run(2) [of p n] by (auto simp: cache_handle_def has_cached_value_def dict_has_def split: option.split)
  then have "execute_fallback n error ctx s = (case last_handler n (rev es) of
      None \<Rightarrow> Inl (KeyError n)
    | Some (StaticFallbackHandler v) \<Rightarrow> Inr v
    | Some (CacheFallbackHandler p) \<Rightarrow> (case last_cached p n (rev es) of None \<Rightarrow> Inl (KeyError n) | Some v \<Rightarrow> Inr v)
    | Some (CustomHandler f) \<Rightarrow> f n error (case ctx of None \<Rightarrow> [] | Some c \<Rightarrow> c))"
    using run(1) [of n] by (simp add: execute_fallback_def get_handler_def split: option.split fallback_handler.split)
  moreover have "has_fallback n s \<longleftrightarrow> last_handler n (rev es) \<noteq> None"
    using run(1) [of n] by (simp add: has_fallback_def dict_has_def get_handler_def)
  moreover have "set (registered_services s) = {m. has_fallback m s}"
    by (auto simp: registered_services_def has_fallback_def dict_has_iff)
  ultimately show ?thesis by blast
qed

theorem fallback_answer_witness:
  "execute_fallback ''api'' (CircuitBreakerOpenError ''api'') None (foldl fallback_step \<lparr>caches = [], fb_handlers = []\<rparr>
     [RegisterFallback ''api'' (StaticFallbackHandler 0), RegisterFallback ''api'' (CacheFallbackHandler 7),
      UpdateCache 7 ''api'' (3 :: nat)]) = Inr 3"
  by (subst fallback_answer [OF refl, THEN conjunct1]) simp

end
