(* ===== verification/Resource_Quota.thy ===== *)
theory Resource_Quota
  imports Mesh_Prelude
begin

text \<open>
  \<open>quotas/resource_quota.py\<close>: the quota of an agent and its validation, and the
  \<open>QuotaEnforcer\<close> with every method. The four usage dimensions, which the code keeps as four
  fixed string keys of a dictionary, are a datatype, and a usage record is a function of it; the
  loops over \<open>requests.items()\<close> keep the order of the source.
\<close>

section \<open>State\<close>

datatype dimension = Tokens | Memory_mb | Cpu_seconds | Api_calls

definition dimensions :: "dimension list" where
  "dimensions = [Tokens, Memory_mb, Cpu_seconds, Api_calls]"

fun dimension_name :: "dimension \<Rightarrow> string" where
  "dimension_name Tokens = ''tokens''"
| "dimension_name Memory_mb = ''memory_mb''"
| "dimension_name Cpu_seconds = ''cpu_seconds''"
| "dimension_name Api_calls = ''api_calls''"

type_synonym usage_map = "dimension \<Rightarrow> pyfloat"

record resource_quota =
  rq_agent_id :: string
  rq_limits :: "dimension \<Rightarrow> pyfloat option"
  rq_label :: string

fun first_negative :: "(dimension \<Rightarrow> pyfloat option) \<Rightarrow> dimension list \<Rightarrow> dimension option" where
  "first_negative f [] = None"
| "first_negative f (d # ds) =
     (case f d of Some v \<Rightarrow> (if v < 0 then Some d else first_negative f ds)
      | None \<Rightarrow> first_negative f ds)"

fun limit_name :: "dimension \<Rightarrow> string" where
  "limit_name Tokens = ''token_limit''"
| "limit_name Memory_mb = ''memory_limit_mb''"
| "limit_name Cpu_seconds = ''cpu_limit_seconds''"
| "limit_name Api_calls = ''api_call_limit''"

definition ResourceQuota ::
    "string \<Rightarrow> (dimension \<Rightarrow> pyfloat option) \<Rightarrow> string \<Rightarrow> exn + resource_quota" where
  "ResourceQuota agent_id limits lbl =
     (if blank agent_id then Inl (ValueError ''agent_id'')
      else case first_negative limits dimensions of
             Some d \<Rightarrow> Inl (ValueError (limit_name d))
           | None \<Rightarrow> Inr \<lparr>rq_agent_id = agent_id, rq_limits = limits, rq_label = lbl\<rparr>)"

record quota_enforcer =
  qe_quotas :: "(string, resource_quota) dict"
  qe_usage :: "(string, usage_map) dict"

definition QuotaEnforcer :: quota_enforcer where
  "QuotaEnforcer = \<lparr>qe_quotas = [], qe_usage = []\<rparr>"

definition zero_usage :: usage_map where
  "zero_usage = (\<lambda>_. 0)"

section \<open>Operations\<close>

definition qe_register :: "resource_quota \<Rightarrow> quota_enforcer \<Rightarrow> quota_enforcer" where
  "qe_register q e =
     (let e1 = e\<lparr>qe_quotas := dict_set (rq_agent_id q) q (qe_quotas e)\<rparr> in
      if dict_has (qe_usage e1) (rq_agent_id q) then e1
      else e1\<lparr>qe_usage := dict_set (rq_agent_id q) zero_usage (qe_usage e1)\<rparr>)"

definition qe_unregister :: "string \<Rightarrow> quota_enforcer \<Rightarrow> quota_enforcer \<times> bool" where
  "qe_unregister a e =
     (if \<not> dict_has (qe_quotas e) a then (e, False)
      else (e\<lparr>qe_quotas := dict_del a (qe_quotas e), qe_usage := dict_del a (qe_usage e)\<rparr>, True))"

text \<open>The loop shared by \<open>check\<close> and \<open>check_and_record\<close>: \<open>Inr True\<close> when every dimension
  fits, \<open>Inr False\<close> or the violation at the first one that does not.\<close>

fun check_dims ::
    "string \<Rightarrow> (dimension \<Rightarrow> pyfloat option) \<Rightarrow> usage_map \<Rightarrow> usage_map \<Rightarrow> bool \<Rightarrow> dimension list
     \<Rightarrow> exn + bool" where
  "check_dims a limits current requests raise_on_violation [] = Inr True"
| "check_dims a limits current requests raise_on_violation (d # ds) =
     (if requests d \<le> 0 then check_dims a limits current requests raise_on_violation ds
      else case limits d of
        None \<Rightarrow> check_dims a limits current requests raise_on_violation ds
      | Some limit \<Rightarrow>
          (let remaining = max 0 (limit - current d) in
           if requests d > remaining then
             (if raise_on_violation
              then Inl (QuotaViolation a (dimension_name d) (requests d) remaining limit)
              else Inr False)
           else check_dims a limits current requests raise_on_violation ds))"

definition qe_lookup :: "string \<Rightarrow> quota_enforcer \<Rightarrow> exn + (resource_quota \<times> usage_map)" where
  \<comment> \<open>the guard \<open>if agent_id not in self._quotas\<close> and the two lookups after it\<close>
  "qe_lookup a e =
     (case (dict_get (qe_quotas e) a, dict_get (qe_usage e) a) of
        (None, _) \<Rightarrow> Inl (KeyError a)
      | (Some _, None) \<Rightarrow> Inl (KeyError a)
      | (Some q, Some u) \<Rightarrow> Inr (q, u))"

definition qe_check :: "string \<Rightarrow> usage_map \<Rightarrow> bool \<Rightarrow> quota_enforcer \<Rightarrow> exn + bool" where
  "qe_check a requests raise_on_violation e =
     (case qe_lookup a e of
        Inl x \<Rightarrow> Inl x
      | Inr (q, current) \<Rightarrow>
          check_dims a (rq_limits q) current requests raise_on_violation dimensions)"

definition add_usage :: "usage_map \<Rightarrow> usage_map \<Rightarrow> usage_map" where
  "add_usage current amounts = (\<lambda>d. current d + amounts d)"

definition qe_record :: "string \<Rightarrow> usage_map \<Rightarrow> quota_enforcer \<Rightarrow> (quota_enforcer, unit) outcome" where
  "qe_record a amounts e =
     (case first_negative (Some \<circ> amounts) dimensions of
        Some d \<Rightarrow> (e, Inl (ValueError (dimension_name d)))
      | None \<Rightarrow>
          (case qe_lookup a e of
             Inl x \<Rightarrow> (e, Inl x)
           | Inr (q, current) \<Rightarrow>
               (e\<lparr>qe_usage := dict_set a (add_usage current amounts) (qe_usage e)\<rparr>, Inr ())))"

definition qe_check_and_record ::
    "string \<Rightarrow> usage_map \<Rightarrow> bool \<Rightarrow> quota_enforcer \<Rightarrow> (quota_enforcer, bool) outcome" where
  "qe_check_and_record a requests raise_on_violation e =
     (case qe_lookup a e of
        Inl x \<Rightarrow> (e, Inl x)
      | Inr (q, current) \<Rightarrow>
          (case check_dims a (rq_limits q) current requests raise_on_violation dimensions of
             Inl x \<Rightarrow> (e, Inl x)
           | Inr False \<Rightarrow> (e, Inr False)
           | Inr True \<Rightarrow>
               (e\<lparr>qe_usage := dict_set a (add_usage current requests) (qe_usage e)\<rparr>, Inr True)))"

definition qe_reset :: "string \<Rightarrow> quota_enforcer \<Rightarrow> (quota_enforcer, unit) outcome" where
  "qe_reset a e =
     (if \<not> dict_has (qe_quotas e) a then (e, Inl (KeyError a))
      else (e\<lparr>qe_usage := dict_set a zero_usage (qe_usage e)\<rparr>, Inr ()))"

definition qe_reset_all :: "quota_enforcer \<Rightarrow> quota_enforcer" where
  "qe_reset_all e = e\<lparr>qe_usage := map (\<lambda>(a, _). (a, zero_usage)) (qe_usage e)\<rparr>"

definition qe_usage_of :: "string \<Rightarrow> quota_enforcer \<Rightarrow> exn + usage_map" where
  "qe_usage_of a e = (case qe_lookup a e of Inl x \<Rightarrow> Inl x | Inr (_, u) \<Rightarrow> Inr u)"

definition qe_quota :: "string \<Rightarrow> quota_enforcer \<Rightarrow> exn + resource_quota" where
  "qe_quota a e = (case dict_get (qe_quotas e) a of None \<Rightarrow> Inl (KeyError a) | Some q \<Rightarrow> Inr q)"

definition qe_registered_agents :: "quota_enforcer \<Rightarrow> string list" where
  "qe_registered_agents e = sort (dict_keys (qe_quotas e))"

section \<open>The enforcer as a machine\<close>

datatype quota_event =
    Register resource_quota
  | Unregister string
  | Record string usage_map
  | CheckAndRecord string usage_map bool
  | ResetUsage string
  | ResetAll

fun quota_step :: "quota_enforcer \<Rightarrow> quota_event \<Rightarrow> quota_enforcer" where
  "quota_step e (Register q) = qe_register q e"
| "quota_step e (Unregister a) = fst (qe_unregister a e)"
| "quota_step e (Record a amounts) = fst (qe_record a amounts e)"
| "quota_step e (CheckAndRecord a requests r) = fst (qe_check_and_record a requests r e)"
| "quota_step e (ResetUsage a) = fst (qe_reset a e)"
| "quota_step e ResetAll = qe_reset_all e"

text \<open>Well-formedness: exactly the registered agents have usage counters, each quota is filed
  under its own agent.\<close>

definition quota_wf :: "quota_enforcer \<Rightarrow> bool" where
  "quota_wf e \<longleftrightarrow> dict_wf (qe_quotas e) \<and> dict_wf (qe_usage e) \<and>
     dom (dict_get (qe_quotas e)) = dom (dict_get (qe_usage e)) \<and>
     (\<forall>a q. dict_get (qe_quotas e) a = Some q \<longrightarrow> rq_agent_id q = a)"

text \<open>Compliance: no registered agent's usage is above a limit of its quota.\<close>

definition within_limits :: "resource_quota \<Rightarrow> usage_map \<Rightarrow> bool" where
  "within_limits q u \<longleftrightarrow> (\<forall>d l. rq_limits q d = Some l \<longrightarrow> u d \<le> l)"

definition compliant :: "quota_enforcer \<Rightarrow> bool" where
  "compliant e \<longleftrightarrow> (\<forall>a q u. dict_get (qe_quotas e) a = Some q \<longrightarrow>
     dict_get (qe_usage e) a = Some u \<longrightarrow> within_limits q u)"

text \<open>
  Disciplined use: consumption goes through \<open>check_and_record\<close> with non-negative amounts
  (\<open>record\<close> books without a check), quotas have valid limits, and a quota is not replaced while
  its agent is registered (the new one could be below the usage).
\<close>

definition valid_quota :: "resource_quota \<Rightarrow> bool" where
  "valid_quota q \<longleftrightarrow> (\<forall>d l. rq_limits q d = Some l \<longrightarrow> 0 \<le> l)"

fun disciplined :: "quota_enforcer \<Rightarrow> quota_event list \<Rightarrow> bool" where
  "disciplined e [] = True"
| "disciplined e (ev # evs) =
     ((case ev of
         Register q \<Rightarrow> valid_quota q \<and> \<not> dict_has (qe_quotas e) (rq_agent_id q)
       | Record _ _ \<Rightarrow> False
       | CheckAndRecord _ r _ \<Rightarrow> (\<forall>d \<in> set dimensions. 0 \<le> r d)
       | _ \<Rightarrow> True) \<and> disciplined (quota_step e ev) evs)"

text \<open>The invariant of disciplined use.\<close>

definition quota_ok :: "quota_enforcer \<Rightarrow> bool" where
  "quota_ok e \<longleftrightarrow> quota_wf e \<and> compliant e \<and>
     (\<forall>a q. dict_get (qe_quotas e) a = Some q \<longrightarrow> valid_quota q)"

section \<open>Lemmas\<close>

lemma set_dimensions [simp]: "set dimensions = UNIV"
  by (auto simp: dimensions_def) (metis dimension.exhaust)

lemma first_negative_None:
  "first_negative f ds = None \<longleftrightarrow> (\<forall>d \<in> set ds. \<forall>v. f d = Some v \<longrightarrow> 0 \<le> v)"
  by (induction ds) (auto split: option.split)

lemma ResourceQuota_valid: "ResourceQuota a l lb = Inr q \<Longrightarrow> valid_quota q \<and> rq_agent_id q = a"
  by (auto simp: ResourceQuota_def valid_quota_def first_negative_None split: if_splits option.splits)

lemma qe_lookup_Inr:
  "qe_lookup a e = Inr (q, u) \<longleftrightarrow>
     dict_get (qe_quotas e) a = Some q \<and> dict_get (qe_usage e) a = Some u"
  by (auto simp: qe_lookup_def split: option.splits)

lemma unregistered_no_usage:
  "quota_wf e \<Longrightarrow> \<not> dict_has (qe_quotas e) a \<Longrightarrow>
     dict_get (qe_quotas e) a = None \<and> dict_get (qe_usage e) a = None"
  unfolding quota_wf_def dict_has_def by (metis domIff)

lemma check_dims_True:
  "check_dims a limits u r x ds = Inr True \<longleftrightarrow>
     (\<forall>d \<in> set ds. \<forall>l. limits d = Some l \<longrightarrow> r d > 0 \<longrightarrow> r d \<le> max 0 (l - u d))"
  by (induction ds) (auto simp: Let_def not_le split: option.split)

lemma check_dims_raise:
  "check_dims a limits u r True ds \<noteq> Inr False"
  by (induction ds) (auto simp: Let_def split: option.split)

lemma check_dims_no_raise:
  "check_dims a limits u r False ds \<noteq> Inl x"
  by (induction ds) (auto simp: Let_def split: option.split)

lemma check_dims_flag:
  "check_dims a limits u r x ds = Inr True \<longleftrightarrow> check_dims a limits u r y ds = Inr True"
  by (simp add: check_dims_True)

lemma check_dims_violation:
  assumes "check_dims a limits u r True ds = Inl (QuotaViolation b dmn req remaining limit)"
  shows "\<exists>n < length ds. b = a \<and> dmn = dimension_name (ds ! n) \<and> limits (ds ! n) = Some limit \<and>
    req = r (ds ! n) \<and> remaining = max 0 (limit - u (ds ! n)) \<and> remaining < req \<and>
    check_dims a limits u r True (take n ds) = Inr True"
  using assms
proof (induction ds)
  case (Cons d ds)
  show ?case
  proof (cases "check_dims a limits u r True [d] = Inr True")
    case True
    with Cons.prems have "check_dims a limits u r True ds =
        Inl (QuotaViolation b dmn req remaining limit)"
      by (auto simp: Let_def split: if_splits option.splits)
    from Cons.IH [OF this] obtain n where "n < length ds" "b = a"
      "dmn = dimension_name (ds ! n)" "limits (ds ! n) = Some limit" "req = r (ds ! n)"
      "remaining = max 0 (limit - u (ds ! n))" "remaining < req"
      "check_dims a limits u r True (take n ds) = Inr True" by blast
    moreover have "\<forall>l. limits d = Some l \<longrightarrow> r d > 0 \<longrightarrow> r d \<le> max 0 (l - u d)"
      using True unfolding check_dims_True by simp
    ultimately show ?thesis by (intro exI [of _ "Suc n"]) (simp add: check_dims_True del: check_dims.simps)
  next
    case False
    with Cons.prems show ?thesis
      by (intro exI [of _ 0]) (auto simp: Let_def split: if_splits option.splits)
  qed
qed simp

text \<open>Whatever is not a plain success leaves the enforcer as it was; a success adds the
  amounts to this agent's counters and to nothing else.\<close>

lemma check_and_record_cases:
  obtains (unchanged) r where "qe_check_and_record a req x e = (e, r)" "r \<noteq> Inr True"
  | (recorded) q u where "qe_lookup a e = Inr (q, u)"
      "check_dims a (rq_limits q) u req x dimensions = Inr True"
      "qe_check_and_record a req x e =
         (e\<lparr>qe_usage := dict_set a (add_usage u req) (qe_usage e)\<rparr>, Inr True)"
proof (cases "qe_lookup a e")
  case (Inl y)
  then show ?thesis using unchanged by (simp add: qe_check_and_record_def)
next
  case (Inr qu)
  obtain q u where qu: "qu = (q, u)" by (cases qu)
  show ?thesis
    using Inr qu unchanged recorded
    by (cases "check_dims a (rq_limits q) u req x dimensions")
      (fastforce simp: qe_check_and_record_def split: bool.splits)+
qed

lemma dict_get_reset_all:
  "dict_get (map (\<lambda>(a, _). (a, z)) d) a = map_option (\<lambda>_. z) (dict_get d a)"
  by (induction d) auto

lemma reset_all_fst: "fst \<circ> (\<lambda>(a, _). (a, z)) = fst"
  by auto

lemma quota_wf_QuotaEnforcer: "quota_wf QuotaEnforcer"
  by (simp add: quota_wf_def QuotaEnforcer_def)

lemma quota_wf_set_usage:
  assumes "quota_wf e" "dict_has (qe_quotas e) a"
  shows "quota_wf (e\<lparr>qe_usage := dict_set a u (qe_usage e)\<rparr>)"
  using assms by (auto simp: quota_wf_def dict_has_def)

lemma qe_register_wf: "quota_wf e \<Longrightarrow> quota_wf (qe_register q e)"
  by (auto simp: quota_wf_def qe_register_def Let_def dict_has_def)

lemma qe_unregister_wf: "quota_wf e \<Longrightarrow> quota_wf (fst (qe_unregister a e))"
  by (auto simp: quota_wf_def qe_unregister_def)

lemma qe_record_wf: "quota_wf e \<Longrightarrow> quota_wf (fst (qe_record a r e))"
  by (auto simp: qe_record_def qe_lookup_Inr dict_has_def intro!: quota_wf_set_usage
      split: option.split sum.split)

lemma qe_check_and_record_wf: "quota_wf e \<Longrightarrow> quota_wf (fst (qe_check_and_record a r x e))"
  by (cases rule: check_and_record_cases [of a r x e])
    (auto simp: qe_lookup_Inr dict_has_def intro!: quota_wf_set_usage)

lemma qe_reset_wf: "quota_wf e \<Longrightarrow> quota_wf (fst (qe_reset a e))"
  by (auto simp: qe_reset_def intro!: quota_wf_set_usage)

lemma qe_reset_all_wf: "quota_wf e \<Longrightarrow> quota_wf (qe_reset_all e)"
  by (simp add: quota_wf_def qe_reset_all_def reset_all_fst dict_get_reset_all dom_def)

lemma quota_step_wf: "quota_wf e \<Longrightarrow> quota_wf (quota_step e ev)"
  by (cases ev) (simp_all add: qe_register_wf qe_unregister_wf qe_record_wf
      qe_check_and_record_wf qe_reset_wf qe_reset_all_wf)

interpretation quota_machine: inv_system quota_step quota_wf
  by unfold_locales (rule quota_step_wf)

text \<open>A passed check leaves the usage within the limits; this is the step the quota rests on.\<close>

lemma check_keeps_limits:
  assumes "within_limits q u" "\<forall>d. 0 \<le> r d"
    and "check_dims a (rq_limits q) u r x dimensions = Inr True"
  shows "within_limits q (add_usage u r)"
  unfolding within_limits_def add_usage_def
proof (intro allI impI)
  fix d l
  assume l: "rq_limits q d = Some l"
  with assms(1) have u: "u d \<le> l" by (simp add: within_limits_def)
  show "u d + r d \<le> l"
  proof (cases "r d = 0")
    case False
    with assms(2) have "r d > 0" by (simp add: order.strict_iff_order)
    with assms(3) l have "r d \<le> max 0 (l - u d)" by (simp add: check_dims_True)
    with u \<open>r d > 0\<close> show ?thesis by simp
  qed (use u in simp)
qed

lemma within_zero: "valid_quota q \<Longrightarrow> within_limits q zero_usage"
  by (simp add: within_limits_def zero_usage_def valid_quota_def)

lemma quota_ok_set_usage:
  assumes "quota_ok e" "dict_get (qe_quotas e) a = Some q" "within_limits q u"
  shows "quota_ok (e\<lparr>qe_usage := dict_set a u (qe_usage e)\<rparr>)"
  using assms quota_wf_set_usage [of e a u]
  by (auto simp: quota_ok_def compliant_def dict_has_def)

lemma quota_ok_step:
  assumes "quota_ok e" "disciplined e [ev]"
  shows "quota_ok (quota_step e ev)"
proof (cases ev)
  case (Register q)
  with assms have "valid_quota q" and "\<not> dict_has (qe_quotas e) (rq_agent_id q)" and "quota_wf e"
    by (simp_all add: quota_ok_def)
  moreover from this have "dict_get (qe_usage e) (rq_agent_id q) = None"
    by (simp add: unregistered_no_usage)
  ultimately show ?thesis using assms(1) qe_register_wf [of e q]
    by (simp add: Register quota_ok_def compliant_def qe_register_def Let_def dict_has_def within_zero)
next
  case (Unregister a)
  then show ?thesis using assms qe_unregister_wf [of e a]
    by (auto simp: quota_ok_def compliant_def qe_unregister_def)
next
  case (CheckAndRecord a r x)
  with assms have r: "\<forall>d. 0 \<le> r d" by simp
  show ?thesis
  proof (cases rule: check_and_record_cases [of a r x e])
    case (recorded q u)
    with assms(1) r have "within_limits q (add_usage u r)"
      by (intro check_keeps_limits) (auto simp: quota_ok_def compliant_def qe_lookup_Inr)
    with recorded assms(1) show ?thesis
      by (simp add: CheckAndRecord qe_lookup_Inr quota_ok_set_usage)
  qed (use assms CheckAndRecord in simp)
next
  case (ResetUsage a)
  show ?thesis
  proof (cases "dict_get (qe_quotas e) a")
    case (Some q)
    with assms(1) have "within_limits q zero_usage" by (simp add: quota_ok_def within_zero)
    with Some assms(1) show ?thesis
      by (simp add: ResetUsage qe_reset_def dict_has_def quota_ok_set_usage)
  qed (use assms(1) ResetUsage in \<open>simp add: qe_reset_def dict_has_def\<close>)
next
  case ResetAll
  then show ?thesis using assms qe_reset_all_wf [of e]
    by (auto simp: quota_ok_def compliant_def qe_reset_all_def dict_get_reset_all within_zero)
qed (use assms in simp)

lemma quota_ok_run: "quota_ok e \<Longrightarrow> disciplined e evs \<Longrightarrow> quota_ok (foldl quota_step e evs)"
proof (induction evs arbitrary: e)
  case (Cons ev evs)
  then have "quota_ok (quota_step e ev)" by (intro quota_ok_step) simp_all
  with Cons show ?case by simp
qed simp

section \<open>Properties\<close>



text \<open>
  \<open>check_and_record\<close> is the atomic composition of \<open>check\<close> and \<open>record\<close>: for
  non-negative amounts it returns exactly what \<open>check\<close> returns, it books the amounts exactly
  as \<open>record\<close> does when the check passes, and it leaves the enforcer untouched when the agent is
  unknown or any dimension would be exceeded.
\<close>

theorem check_and_record_atomic:
  assumes "\<forall>d. 0 \<le> r d"
  shows "qe_check_and_record a r x e =
    (case qe_check a r x e of
       Inl y \<Rightarrow> (e, Inl y)
     | Inr False \<Rightarrow> (e, Inr False)
     | Inr True \<Rightarrow> (fst (qe_record a r e), Inr True))"
proof -
  have "first_negative (Some \<circ> r) dimensions = None"
    using assms by (simp add: first_negative_None)
  then show ?thesis
    by (auto simp: qe_check_and_record_def qe_check_def qe_record_def split: sum.split bool.split)
qed

theorem check_and_record_atomic_witness:
  "qe_check_and_record ''a'' (\<lambda>_. 1) False QuotaEnforcer = (QuotaEnforcer, Inl (KeyError ''a''))"
  using check_and_record_atomic [of "\<lambda>_. 1" "''a''" False QuotaEnforcer]
  by (simp add: qe_check_def qe_lookup_def QuotaEnforcer_def)

text \<open>
  A raised \<open>QuotaViolation\<close> is accurate: it names a dimension that has a limit, reports the
  amount requested there, the limit, and the remaining allowance (never negative), the request
  is above that allowance, and every dimension checked before it fits.
\<close>

theorem violation_accurate:
  assumes "qe_lookup a e = Inr (q, u)"
    and "qe_check a r True e = Inl (QuotaViolation b dmn req remaining limit)"
  shows "\<exists>n < length dimensions. b = a \<and> dmn = dimension_name (dimensions ! n) \<and>
    rq_limits q (dimensions ! n) = Some limit \<and> req = r (dimensions ! n) \<and>
    remaining = max 0 (limit - u (dimensions ! n)) \<and> remaining < req \<and>
    check_dims a (rq_limits q) u r True (take n dimensions) = Inr True"
  using assms check_dims_violation [of a "rq_limits q" u r dimensions b dmn req remaining limit]
  by (simp add: qe_check_def)

theorem violation_accurate_witness:
  "qe_check ''a'' (\<lambda>_. 7) True
     \<lparr>qe_quotas = [(''a'', \<lparr>rq_agent_id = ''a'', rq_limits = (\<lambda>_. Some 5), rq_label = ''''\<rparr>)],
      qe_usage = [(''a'', (\<lambda>_. 1))]\<rparr>
   = Inl (QuotaViolation ''a'' ''tokens'' 7 4 5) \<and> (4::rat) < 7"
proof -
  let ?q = "\<lparr>rq_agent_id = ''a'', rq_limits = (\<lambda>_. Some 5), rq_label = ''''\<rparr>"
  let ?e = "\<lparr>qe_quotas = [(''a'', ?q)], qe_usage = [(''a'', (\<lambda>_. 1))]\<rparr>"
  have l: "qe_lookup ''a'' ?e = Inr (?q, \<lambda>_. 1)" by (simp add: qe_lookup_def)
  have c: "qe_check ''a'' (\<lambda>_. 7) True ?e = Inl (QuotaViolation ''a'' ''tokens'' 7 4 5)"
    by (simp add: qe_check_def qe_lookup_def dimensions_def)
  from violation_accurate [OF l c] c show ?thesis by auto
qed

text \<open>
  \<open>check_and_record\<close> does not reject negative amounts, which \<open>record\<close> refuses: a negative
  request is skipped by the check and then subtracted, so an agent can lower its own counter
  and spend the difference again. Whatever the token limit and the current usage, booking minus
  \<open>k\<close> tokens succeeds and gives \<open>k\<close> tokens of allowance back.
\<close>

theorem negative_request_refunds_quota:
  assumes "qe_lookup a e = Inr (q, u)" and "0 < k"
  shows "let r = (\<lambda>d. if d = Tokens then - k else 0);
             (e', res) = qe_check_and_record a r x e in
    res = Inr True \<and> qe_lookup a e' = Inr (q, add_usage u r) \<and> add_usage u r Tokens = u Tokens - k \<and>
    qe_record a r e = (e, Inl (ValueError ''tokens''))"
  using assms(2) qe_lookup_Inr [THEN iffD1, OF assms(1)]
  by (simp add: assms(1) qe_check_and_record_def qe_record_def dimensions_def qe_lookup_Inr
      add_usage_def)

theorem negative_request_refunds_quota_witness:
  "snd (qe_check_and_record ''a'' (\<lambda>d. if d = Tokens then - 50 else 0) True
     \<lparr>qe_quotas = [(''a'', \<lparr>rq_agent_id = ''a'', rq_limits = (\<lambda>_. Some 100), rq_label = ''''\<rparr>)],
      qe_usage = [(''a'', (\<lambda>_. 100))]\<rparr>) = Inr True"
  using negative_request_refunds_quota [of "''a''"
      "\<lparr>qe_quotas = [(''a'', \<lparr>rq_agent_id = ''a'', rq_limits = (\<lambda>_. Some 100), rq_label = ''''\<rparr>)],
      qe_usage = [(''a'', (\<lambda>_. 100))]\<rparr>" _ _ 50 True]
  by (simp add: qe_lookup_def Let_def case_prod_beta)

end
