(* ===== verification/Deadlock_Detector.thy ===== *)
theory Deadlock_Detector
  imports Mesh_Prelude
begin

text \<open>
  \<open>deadlock/detector.py\<close>: the wait-for graph with its edge list, every method that changes
  it, and cycle detection as the code does it: an iterative depth-first search with an explicit
  stack per start node, canonical rotation and removal of duplicates. The search is compared with
  an abstract specification, the simple cycles of a relation.
\<close>

section \<open>State\<close>

record wait_edge =
  we_waiter :: string
  we_holder :: string
  we_resource_id :: string

record deadlock_detector =
  max_cycle_length :: int
  dd_graph :: "(string, string set) dict"
  dd_edges :: "wait_edge list"

definition DeadlockDetector :: "int \<Rightarrow> exn + deadlock_detector" where
  "DeadlockDetector n =
     (if n < 2 then Inl (ValueError ''max_cycle_length'')
      else Inr \<lparr>max_cycle_length = n, dd_graph = [], dd_edges = []\<rparr>)"

section \<open>Graph construction\<close>

definition ensure_node :: "string \<Rightarrow> (string, string set) dict \<Rightarrow> (string, string set) dict" where
  "ensure_node n g = (if dict_has g n then g else dict_set n {} g)"

definition add_wait ::
    "string \<Rightarrow> string \<Rightarrow> string \<Rightarrow> deadlock_detector \<Rightarrow> (deadlock_detector, unit) outcome" where
  "add_wait waiter holder resource_id d =
     (if waiter = holder then (d, Inl (ValueError waiter))
      else
        let g = ensure_node holder (ensure_node waiter (dd_graph d));
            g' = dict_set waiter (insert holder (dict_get_or g waiter {})) g
        in (d\<lparr>dd_graph := g',
             dd_edges := dd_edges d @ [\<lparr>we_waiter = waiter, we_holder = holder,
               we_resource_id = resource_id\<rparr>]\<rparr>, Inr ()))"

definition remove_wait :: "string \<Rightarrow> string \<Rightarrow> deadlock_detector \<Rightarrow> deadlock_detector \<times> bool" where
  "remove_wait waiter holder d =
     (case dict_get (dd_graph d) waiter of
        None \<Rightarrow> (d, False)
      | Some ns \<Rightarrow>
          if holder \<notin> ns then (d, False)
          else (d\<lparr>dd_graph := dict_set waiter (ns - {holder}) (dd_graph d),
                  dd_edges := filter (\<lambda>e. \<not> (we_waiter e = waiter \<and> we_holder e = holder))
                    (dd_edges d)\<rparr>, True))"

definition clear_agent :: "string \<Rightarrow> deadlock_detector \<Rightarrow> deadlock_detector" where
  "clear_agent a d =
     d\<lparr>dd_graph := map (\<lambda>(n, ns). (n, ns - {a})) (dict_del a (dd_graph d)),
       dd_edges := filter (\<lambda>e. we_waiter e \<noteq> a \<and> we_holder e \<noteq> a) (dd_edges d)\<rparr>"

definition dd_clear :: "deadlock_detector \<Rightarrow> deadlock_detector" where
  "dd_clear d = d\<lparr>dd_graph := [], dd_edges := []\<rparr>"

section \<open>Cycle search\<close>

type_synonym frame = "string \<times> string list \<times> string set"
type_synonym adjacency = "(string, string list) dict"

text \<open>The body of \<open>for neighbor in graph.get(current, [])\<close>: the cycles it yields and the
  frames it appends to the stack, both in order.\<close>

fun expand :: "string \<Rightarrow> string list \<Rightarrow> string set \<Rightarrow> string list \<Rightarrow> string list list \<times> frame list" where
  "expand start path visited [] = ([], [])"
| "expand start path visited (neighbor # ns) =
     (let (cycles, frames) = expand start path visited ns in
      if neighbor = start \<and> length path \<ge> 2 then ((path @ [start]) # cycles, frames)
      else if neighbor \<notin> visited \<and> neighbor > start
        then (cycles, (neighbor, path @ [neighbor], insert neighbor visited) # frames)
      else (cycles, frames))"

definition neighbors_of :: "adjacency \<Rightarrow> string \<Rightarrow> string list" where
  "neighbors_of g n = dict_get_or g n []"

text \<open>Every frame that \<open>expand\<close> appends has a path one longer.\<close>

lemma expand_frames_longer:
  "f \<in> set (snd (expand start path visited ns)) \<Longrightarrow> length (fst (snd f)) = Suc (length path)"
  by (induction ns) (auto simp: Let_def case_prod_beta split: if_splits)

text \<open>What a frame can still cost; replacing the top frame by cheaper ones shrinks the stack in
  the multiset order.\<close>

fun frame_rank :: "int \<Rightarrow> frame \<Rightarrow> nat" where
  "frame_rank mx (_, path, _) = nat (mx + 1 - int (length path))"

lemma frame_rank_path: "frame_rank mx f = nat (mx + 1 - int (length (fst (snd f))))"
  by (cases f) simp

lemma stack_shrinks:
  assumes "\<forall>f \<in> set fs. frame_rank mx f < frame_rank mx x"
  shows "(mset (map (frame_rank mx) (fs @ stack)), mset (map (frame_rank mx) (x # stack)))
    \<in> mult less_than"
  using one_step_implies_mult [of "{#frame_rank mx x#}" "mset (map (frame_rank mx) fs)" less_than
      "mset (map (frame_rank mx) stack)"] assms
  by (auto simp: add.commute)

text \<open>The \<open>while stack\<close> loop; the head of the list is the top of the stack.\<close>

function dfs :: "adjacency \<Rightarrow> int \<Rightarrow> string \<Rightarrow> frame list \<Rightarrow> string list list" where
  "dfs g mx start [] = []"
| "dfs g mx start ((current, path, visited) # stack) =
     (if int (length path) > mx then dfs g mx start stack
      else fst (expand start path visited (neighbors_of g current)) @
           dfs g mx start (rev (snd (expand start path visited (neighbors_of g current))) @ stack))"
  by pat_completeness auto
termination
proof (relation "inv_image (mult less_than)
    (\<lambda>(g, mx, start, stack). mset (map (frame_rank mx) stack))", goal_cases)
  case 1
  show ?case by (intro wf_inv_image wf_mult wf_less_than)
next
  case (2 g mx start current path visited stack)
  show ?case using stack_shrinks [of "[]" mx "(current, path, visited)" stack] by simp
next
  case (3 g mx start current path visited stack)
  have "\<forall>f \<in> set (snd (expand start path visited (neighbors_of g current))).
      length path < length (fst (snd f))"
    by (auto dest: expand_frames_longer)
  with 3 stack_shrinks [of "rev (snd (expand start path visited (neighbors_of g current)))" mx
      "(current, path, visited)" stack]
  show ?case by (simp add: frame_rank_path)
qed

definition find_all_cycles :: "int \<Rightarrow> adjacency \<Rightarrow> string list list" where
  "find_all_cycles mx g =
     concat (map (\<lambda>start. dfs g mx start [(start, [start], {start})]) (dict_keys g))"

definition list_index :: "'a \<Rightarrow> 'a list \<Rightarrow> nat" where
  \<comment> \<open>\<open>path.index(x)\<close> for an \<open>x\<close> that occurs\<close>
  "list_index x xs = length (takeWhile (\<lambda>y. y \<noteq> x) xs)"

definition canonical_cycle :: "string list \<Rightarrow> string list" where
  "canonical_cycle cycle =
     (let path = butlast cycle in
      if path = [] then cycle
      else let min_idx = list_index (Min (set path)) path;
               rotated = drop min_idx path @ take min_idx path
           in rotated @ [hd rotated])"

fun dedup_from :: "string list set \<Rightarrow> string list list \<Rightarrow> string list list" where
  "dedup_from seen [] = []"
| "dedup_from seen (cycle # cycles) =
     (let canonical = canonical_cycle cycle in
      if canonical \<notin> seen then canonical # dedup_from (insert canonical seen) cycles
      else dedup_from seen cycles)"

definition deduplicate_cycles :: "string list list \<Rightarrow> string list list" where
  "deduplicate_cycles cycles = dedup_from {} cycles"

record deadlock_result =
  dr_cycles :: "string list list"
  dr_checked_at :: timestamp
  dr_node_count :: nat
  dr_edge_count :: nat

definition has_deadlock :: "deadlock_result \<Rightarrow> bool" where
  "has_deadlock r \<longleftrightarrow> length (dr_cycles r) > 0"

definition graph_snapshot :: "deadlock_detector \<Rightarrow> adjacency" where
  "graph_snapshot d = map (\<lambda>(n, ns). (n, sorted_list_of_set ns)) (dd_graph d)"

definition detect :: "timestamp \<Rightarrow> deadlock_detector \<Rightarrow> deadlock_result" where
  "detect now d =
     (let g = graph_snapshot d in
      \<lparr>dr_cycles = deduplicate_cycles (find_all_cycles (max_cycle_length d) g),
       dr_checked_at = now, dr_node_count = length g,
       dr_edge_count = sum_list (map length (dict_values g))\<rparr>)"

definition dd_agents :: "deadlock_detector \<Rightarrow> string list" where
  "dd_agents d = sort (dict_keys (dd_graph d))"

section \<open>The detector as a machine\<close>

datatype wait_event =
    AddWait string string string
  | RemoveWait string string
  | ClearAgent string
  | ClearAll

fun dd_step :: "deadlock_detector \<Rightarrow> wait_event \<Rightarrow> deadlock_detector" where
  "dd_step d (AddWait w h r) = fst (add_wait w h r d)"
| "dd_step d (RemoveWait w h) = fst (remove_wait w h d)"
| "dd_step d (ClearAgent a) = clear_agent a d"
| "dd_step d ClearAll = dd_clear d"

section \<open>Specification\<close>

text \<open>The wait-for relation, read off the adjacency dictionary and off the edge list.\<close>

definition graph_edges :: "deadlock_detector \<Rightarrow> (string \<times> string) set" where
  "graph_edges d = {(w, h). \<exists>ns. dict_get (dd_graph d) w = Some ns \<and> h \<in> ns}"

definition waits :: "deadlock_detector \<Rightarrow> (string \<times> string) set" where
  "waits d = (\<lambda>e. (we_waiter e, we_holder e)) ` set (dd_edges d)"

definition adj_edges :: "adjacency \<Rightarrow> (string \<times> string) set" where
  "adj_edges g = {(n, m). m \<in> set (neighbors_of g n)}"

text \<open>A simple cycle of a relation, as the list of its nodes: at least two, all different, each
  with an edge to the next and the last with an edge back to the first.\<close>

definition simple_cycle :: "('a \<times> 'a) set \<Rightarrow> 'a list \<Rightarrow> bool" where
  "simple_cycle E p \<longleftrightarrow> length p \<ge> 2 \<and> distinct p \<and> successively (\<lambda>a b. (a, b) \<in> E) (p @ [hd p])"

definition canonical :: "'a::linorder list \<Rightarrow> bool" where
  "canonical p \<longleftrightarrow> (\<forall>x \<in> set p. hd p \<le> x)"

text \<open>The invariant: adjacency and edge list describe the same relation, nobody waits for
  itself, and both ends of every edge are nodes.\<close>

definition dd_inv :: "deadlock_detector \<Rightarrow> bool" where
  "dd_inv d \<longleftrightarrow> dict_wf (dd_graph d) \<and> (\<forall>ns \<in> set (dict_values (dd_graph d)). finite ns) \<and>
     graph_edges d = waits d \<and> max_cycle_length d \<ge> 2 \<and>
     (\<forall>(w, h) \<in> waits d. w \<noteq> h \<and> w \<in> set (dict_keys (dd_graph d)) \<and> h \<in> set (dict_keys (dd_graph d)))"

section \<open>Lemmas: what the search finds\<close>

text \<open>\<open>completion g mx start p q\<close>: the path \<open>p\<close> can be completed through \<open>q\<close> to a cycle back
  to \<open>start\<close> that the search would report.\<close>

definition completion :: "adjacency \<Rightarrow> int \<Rightarrow> string \<Rightarrow> string list \<Rightarrow> string list \<Rightarrow> bool" where
  "completion g mx start p q \<longleftrightarrow>
     successively (\<lambda>a b. (a, b) \<in> adj_edges g) (last p # q @ [start]) \<and> distinct q \<and>
     set q \<inter> set p = {} \<and> (\<forall>x \<in> set q. start < x) \<and>
     2 \<le> length (p @ q) \<and> int (length (p @ q)) \<le> mx"

lemma completion_Nil:
  "completion g mx start p [] \<longleftrightarrow>
     (last p, start) \<in> adj_edges g \<and> 2 \<le> length p \<and> int (length p) \<le> mx"
  by (simp add: completion_def)

lemma completion_Cons:
  assumes "p \<noteq> []"
  shows "completion g mx start p (n # q) \<longleftrightarrow>
    (last p, n) \<in> adj_edges g \<and> n \<notin> set p \<and> start < n \<and> completion g mx start (p @ [n]) q"
  using assms by (auto simp: completion_def successively_Cons Suc_le_eq)

lemma expand_cycles:
  "set (fst (expand start path visited ns)) =
     {path @ [start] | x. x \<in> set ns \<and> x = start \<and> 2 \<le> length path}"
  by (induction ns) (auto simp: Let_def case_prod_beta)

lemma expand_frames:
  "start \<in> visited \<Longrightarrow> set (snd (expand start path visited ns)) =
     {(n, path @ [n], insert n visited) | n. n \<in> set ns \<and> n \<notin> visited \<and> start < n}"
  by (induction ns) (auto simp: Let_def case_prod_beta)

text \<open>A frame the loop may hold: its node ends its path and its set is the set of the path.\<close>

fun frame_ok :: "string \<Rightarrow> frame \<Rightarrow> bool" where
  "frame_ok start (current, path, visited) \<longleftrightarrow>
     path \<noteq> [] \<and> current = last path \<and> visited = set path \<and> hd path = start"

definition frame_cycles :: "adjacency \<Rightarrow> int \<Rightarrow> string \<Rightarrow> frame \<Rightarrow> string list set" where
  "frame_cycles g mx start f =
     (\<lambda>q. fst (snd f) @ q @ [start]) ` {q. completion g mx start (fst (snd f)) q}"

lemma frame_cycles_iff:
  "x \<in> frame_cycles g mx start (c, p, v) \<longleftrightarrow> (\<exists>q. x = p @ q @ [start] \<and> completion g mx start p q)"
  by (auto simp: frame_cycles_def)

lemma ex_list_cases: "(\<exists>q. P q) \<longleftrightarrow> P [] \<or> (\<exists>n q. P (n # q))"
  by (metis list.exhaust)

text \<open>One iteration: the cycles a frame can be completed to are those it yields and those of
  the frames it pushes.\<close>

lemma frame_cycles_expand:
  assumes "frame_ok start (c, p, v)" "int (length p) \<le> mx"
  shows "frame_cycles g mx start (c, p, v) =
    set (fst (expand start p v (neighbors_of g c))) \<union>
    (\<Union>f \<in> set (snd (expand start p v (neighbors_of g c))). frame_cycles g mx start f)"
proof (rule set_eqI)
  fix x
  let ?ns = "neighbors_of g c"
  have p: "p \<noteq> []" "c = last p" "v = set p" "start \<in> v" using assms(1) by (auto dest: hd_in_set)
  have yields: "x \<in> set (fst (expand start p v ?ns)) \<longleftrightarrow>
      x = p @ [] @ [start] \<and> completion g mx start p []"
    using assms(2) p by (simp add: completion_Nil expand_cycles adj_edges_def)
  have pushes: "x \<in> (\<Union>f \<in> set (snd (expand start p v ?ns)). frame_cycles g mx start f) \<longleftrightarrow>
      (\<exists>n q. x = p @ (n # q) @ [start] \<and> completion g mx start p (n # q))"
    unfolding expand_frames [OF p(4)] completion_Cons [OF p(1)]
    using p(2,3) by (simp add: frame_cycles_iff adj_edges_def Bex_def) (metis frame_cycles_iff append.assoc append_Cons append_Nil)
  show "x \<in> frame_cycles g mx start (c, p, v) \<longleftrightarrow>
      x \<in> set (fst (expand start p v ?ns)) \<union>
        (\<Union>f \<in> set (snd (expand start p v ?ns)). frame_cycles g mx start f)"
    unfolding Un_iff yields pushes frame_cycles_iff
    by (rule ex_list_cases)
qed

lemma expand_frame_ok:
  assumes "frame_ok start (c, p, v)" "f \<in> set (snd (expand start p v ns))"
  shows "frame_ok start f"
proof -
  have "start \<in> v" using assms(1) by (auto dest: hd_in_set)
  with assms show ?thesis by (auto simp: expand_frames)
qed

lemma dfs_exact:
  "\<forall>f \<in> set stack. frame_ok start f \<Longrightarrow>
     set (dfs g mx start stack) = (\<Union>f \<in> set stack. frame_cycles g mx start f)"
proof (induction g mx start stack rule: dfs.induct)
  case (1 g mx start)
  then show ?case by simp
next
  case (2 g mx start c p v stack)
  show ?case
  proof (cases "int (length p) > mx")
    case True
    then have "\<not> completion g mx start p q" for q by (simp add: completion_def)
    then have "frame_cycles g mx start (c, p, v) = {}" by (simp add: frame_cycles_def)
    with 2 True show ?thesis by simp
  next
    case False
    let ?fs = "snd (expand start p v (neighbors_of g c))"
    have ok: "frame_ok start (c, p, v)" using "2.prems" by simp
    have "\<forall>f \<in> set (rev ?fs @ stack). frame_ok start f"
      using "2.prems" expand_frame_ok [OF ok] by (simp del: frame_ok.simps) blast
    then have "set (dfs g mx start (rev ?fs @ stack)) =
        (\<Union>f \<in> set (rev ?fs @ stack). frame_cycles g mx start f)"
      using False "2.IH"(2) by simp
    with False frame_cycles_expand [OF ok, of mx g] show ?thesis by auto
  qed
qed

text \<open>Started at one node, the search finds exactly the canonical simple cycles through it.\<close>

lemma completion_start:
  "completion g mx s [s] q \<longleftrightarrow>
     simple_cycle (adj_edges g) (s # q) \<and> canonical (s # q) \<and> int (length (s # q)) \<le> mx"
  by (auto simp: completion_def simple_cycle_def canonical_def Suc_le_eq order.strict_iff_order)

lemma adj_edges_key: "(a, b) \<in> adj_edges g \<Longrightarrow> a \<in> set (dict_keys g)"
  by (cases "dict_get g a")
    (auto simp: adj_edges_def neighbors_of_def dict_get_or_def intro: rev_image_eqI dest: map_of_SomeD)

lemma simple_cycle_hd_key:
  "simple_cycle (adj_edges g) p \<Longrightarrow> hd p \<in> set (dict_keys g)"
  by (cases p) (auto simp: simple_cycle_def successively_Cons dest!: adj_edges_key split: list.splits)

lemma simple_cycle_Cons: "simple_cycle E p \<Longrightarrow> \<exists>s q. p = s # q"
  by (cases p) (auto simp: simple_cycle_def)

lemma find_all_cycles_exact:
  "set (find_all_cycles mx g) =
     {p @ [hd p] | p. simple_cycle (adj_edges g) p \<and> canonical p \<and> int (length p) \<le> mx}"
    (is "_ = ?R")
proof -
  have dfs: "set (dfs g mx s [(s, [s], {s})]) = frame_cycles g mx s (s, [s], {s})" for s
    by (subst dfs_exact) auto
  have "set (find_all_cycles mx g) = (\<Union>s \<in> set (dict_keys g). frame_cycles g mx s (s, [s], {s}))"
    unfolding find_all_cycles_def set_concat set_map image_image by (simp only: dfs)
  also have "\<dots> = ?R"
  proof
    show "(\<Union>s \<in> set (dict_keys g). frame_cycles g mx s (s, [s], {s})) \<subseteq> ?R"
    proof
      fix x assume "x \<in> (\<Union>s \<in> set (dict_keys g). frame_cycles g mx s (s, [s], {s}))"
      then obtain s q where "x = [s] @ q @ [s]" "completion g mx s [s] q"
        unfolding UN_iff frame_cycles_iff by blast
      then show "x \<in> ?R"
        unfolding mem_Collect_eq completion_start by (intro exI [of _ "s # q"]) simp
    qed
    show "?R \<subseteq> (\<Union>s \<in> set (dict_keys g). frame_cycles g mx s (s, [s], {s}))"
    proof
      fix x assume "x \<in> ?R"
      then obtain p where x: "x = p @ [hd p]" and p: "simple_cycle (adj_edges g) p" "canonical p"
        "int (length p) \<le> mx" by blast
      obtain s q where sq: "p = s # q" using simple_cycle_Cons [OF p(1)] by blast
      have "s \<in> set (dict_keys g)" using simple_cycle_hd_key [OF p(1)] sq by simp
      moreover have "x \<in> frame_cycles g mx s (s, [s], {s})"
        unfolding frame_cycles_iff completion_start using x p sq by (intro exI [of _ q]) simp
      ultimately show "x \<in> (\<Union>s \<in> set (dict_keys g). frame_cycles g mx s (s, [s], {s}))"
        by (rule UN_I)
    qed
  qed
  finally show ?thesis .
qed

section \<open>Lemmas: canonical form and deduplication\<close>

lemma canonical_cycle_id:
  assumes "p \<noteq> []" "canonical p"
  shows "canonical_cycle (p @ [hd p]) = p @ [hd p]"
proof -
  have "Min (set p) = hd p"
    using assms by (auto simp: canonical_def intro!: Min_eqI)
  then have "list_index (Min (set p)) p = 0"
    using assms(1) by (cases p) (simp_all add: list_index_def)
  with assms(1) show ?thesis by (simp add: canonical_cycle_def)
qed

lemma dedup_from_set:
  "set (dedup_from seen cs) = canonical_cycle ` set cs - seen"
  by (induction seen cs rule: dedup_from.induct) (auto simp: Let_def)

lemma dedup_from_distinct: "distinct (dedup_from seen cs)"
  by (induction seen cs rule: dedup_from.induct) (auto simp: Let_def dedup_from_set)

lemma simple_cycle_ne: "simple_cycle E p \<Longrightarrow> p \<noteq> []"
  by (auto simp: simple_cycle_def)

lemma deduplicate_found:
  "set (deduplicate_cycles (find_all_cycles mx g)) = set (find_all_cycles mx g)"
proof -
  have "canonical_cycle c = c" if "c \<in> set (find_all_cycles mx g)" for c
  proof -
    obtain p where "c = p @ [hd p]" "simple_cycle (adj_edges g) p" "canonical p"
      using \<open>c \<in> set (find_all_cycles mx g)\<close> unfolding find_all_cycles_exact by blast
    then show ?thesis by (simp add: canonical_cycle_id simple_cycle_ne)
  qed
  then have "canonical_cycle ` set (find_all_cycles mx g) = set (find_all_cycles mx g)"
    by (rule image_cong [OF refl, THEN trans]) simp_all
  then show ?thesis by (simp add: deduplicate_cycles_def dedup_from_set)
qed

lemma adj_edges_snapshot:
  assumes "dd_inv d"
  shows "adj_edges (graph_snapshot d) = waits d"
proof -
  have fin: "finite ns" if "dict_get (dd_graph d) w = Some ns" for w ns
  proof -
    have "ns \<in> set (dict_values (dd_graph d))" using map_of_SomeD [OF that] by force
    with assms show ?thesis unfolding dd_inv_def by blast
  qed
  have "h \<in> set (neighbors_of (graph_snapshot d) w) \<longleftrightarrow> (w, h) \<in> graph_edges d" for w h
    using fin by (cases "dict_get (dd_graph d) w")
      (simp_all add: graph_edges_def graph_snapshot_def neighbors_of_def dict_get_or_def
        map_of_map_values)
  then have "adj_edges (graph_snapshot d) = graph_edges d"
    unfolding adj_edges_def by simp
  with assms show ?thesis by (simp add: dd_inv_def)
qed

lemma detect_cycles:
  assumes "dd_inv d"
  shows "set (dr_cycles (detect now d)) =
    {p @ [hd p] | p. simple_cycle (waits d) p \<and> canonical p \<and> int (length p) \<le> max_cycle_length d}"
  using adj_edges_snapshot [OF assms]
  by (simp add: detect_def Let_def deduplicate_found find_all_cycles_exact)

section \<open>Lemmas: the invariant\<close>

lemma dict_keys_ensure: "set (dict_keys (ensure_node n g)) = insert n (set (dict_keys g))"
  by (auto simp: ensure_node_def dict_has_iff dict_set_keys_notin)

lemma ensure_node_wf: "dict_wf g \<Longrightarrow> dict_wf (ensure_node n g)"
  by (simp add: ensure_node_def)

lemma ensure_node_get: "dict_get_or (ensure_node n g) k {} = dict_get_or g k {}"
  by (simp add: ensure_node_def dict_get_or_def dict_has_def)

lemma graph_edges_iff: "(w, h) \<in> graph_edges d \<longleftrightarrow> h \<in> dict_get_or (dd_graph d) w {}"
  by (simp add: graph_edges_def dict_get_or_def split: option.splits)

text \<open>Finiteness of the neighbour sets, as a statement about lookups.\<close>

lemma finite_values_iff:
  "dict_wf g \<Longrightarrow> (\<forall>ns \<in> set (dict_values g). finite ns) \<longleftrightarrow> (\<forall>k. finite (dict_get_or g k {}))"
  unfolding dict_get_or_def
  by (simp add: map_of_eq_Some_iff split: option.split) (metis prod.collapse snd_conv)

lemma dd_inv_iff:
  "dd_inv d \<longleftrightarrow> dict_wf (dd_graph d) \<and> (\<forall>k. finite (dict_get_or (dd_graph d) k {})) \<and>
     (\<forall>w h. h \<in> dict_get_or (dd_graph d) w {} \<longleftrightarrow> (w, h) \<in> waits d) \<and> max_cycle_length d \<ge> 2 \<and>
     (\<forall>(w, h) \<in> waits d. w \<noteq> h \<and> w \<in> set (dict_keys (dd_graph d)) \<and> h \<in> set (dict_keys (dd_graph d)))"
proof -
  have "graph_edges d = waits d \<longleftrightarrow>
      (\<forall>w h. h \<in> dict_get_or (dd_graph d) w {} \<longleftrightarrow> (w, h) \<in> waits d)"
    unfolding set_eq_iff split_paired_All graph_edges_iff ..
  then show ?thesis
    unfolding dd_inv_def using finite_values_iff [of "dd_graph d"] by blast
qed

lemma waits_add: "waits (d\<lparr>dd_graph := g, dd_edges := es @ [e]\<rparr>) =
    insert (we_waiter e, we_holder e) (waits (d\<lparr>dd_edges := es\<rparr>))"
  by (simp add: waits_def)

lemma add_wait_inv:
  assumes "dd_inv d"
  shows "dd_inv (fst (add_wait w h r d))"
proof (cases "w = h")
  case True
  with assms show ?thesis by (simp add: add_wait_def)
next
  case False
  let ?g = "ensure_node h (ensure_node w (dd_graph d))"
  let ?d = "fst (add_wait w h r d)"
  have g: "dd_graph ?d = dict_set w (insert h (dict_get_or ?g w {})) ?g"
    using False by (simp add: add_wait_def Let_def)
  have mx: "max_cycle_length ?d = max_cycle_length d"
    using False by (simp add: add_wait_def Let_def)
  have ws: "waits ?d = insert (w, h) (waits d)"
    using False by (simp add: add_wait_def Let_def waits_def)
  have keys: "set (dict_keys (dd_graph ?d)) = insert w (insert h (set (dict_keys (dd_graph d))))"
  proof -
    have "w \<in> set (dict_keys ?g)" unfolding dict_keys_ensure by blast
    then show ?thesis unfolding g by (simp only: dict_set_keys_in dict_keys_ensure) blast
  qed
  have get: "dict_get_or (dd_graph ?d) k {} =
      (if k = w then insert h (dict_get_or (dd_graph d) w {}) else dict_get_or (dd_graph d) k {})" for k
    unfolding g by (simp add: dict_get_or_set ensure_node_get)
  have wf: "dict_wf (dd_graph ?d)"
    using assms unfolding g by (intro dict_wf_set ensure_node_wf) (simp add: dd_inv_def)
  show ?thesis
    unfolding dd_inv_iff mx ws keys get using assms wf False unfolding dd_inv_iff by auto
qed

lemma remove_wait_inv:
  assumes "dd_inv d"
  shows "dd_inv (fst (remove_wait w h d))"
proof (cases "\<exists>ns. dict_get (dd_graph d) w = Some ns \<and> h \<in> ns")
  case False
  with assms show ?thesis by (auto simp: remove_wait_def split: option.split)
next
  case True
  then obtain ns where ns: "dict_get (dd_graph d) w = Some ns" "h \<in> ns" by blast
  let ?d = "fst (remove_wait w h d)"
  have g: "dd_graph ?d = dict_set w (ns - {h}) (dd_graph d)"
    using ns by (simp add: remove_wait_def)
  have mx: "max_cycle_length ?d = max_cycle_length d" using ns by (simp add: remove_wait_def)
  have ws: "waits ?d = waits d - {(w, h)}"
    using ns by (auto simp: remove_wait_def waits_def)
  have "w \<in> set (dict_keys (dd_graph d))" using map_of_SomeD [OF ns(1)] by force
  then have keys: "set (dict_keys (dd_graph ?d)) = set (dict_keys (dd_graph d))"
    unfolding g by (simp only: dict_set_keys_in)
  have get: "dict_get_or (dd_graph ?d) k {} =
      (if k = w then dict_get_or (dd_graph d) w {} - {h} else dict_get_or (dd_graph d) k {})" for k
    unfolding g using ns by (simp add: dict_get_or_set) (simp add: dict_get_or_def)
  have wf: "dict_wf (dd_graph ?d)"
    using assms unfolding g by (intro dict_wf_set) (simp add: dd_inv_def)
  show ?thesis
    unfolding dd_inv_iff mx ws keys get using assms wf unfolding dd_inv_iff by auto
qed

lemma waits_clear_agent: "waits (clear_agent a d) = {(w, h) \<in> waits d. w \<noteq> a \<and> h \<noteq> a}"
  by (auto simp: clear_agent_def waits_def)

lemma clear_agent_inv:
  assumes "dd_inv d"
  shows "dd_inv (clear_agent a d)"
proof -
  let ?d = "clear_agent a d"
  have g: "dd_graph ?d = map (\<lambda>(n, ns). (n, ns - {a})) (dict_del a (dd_graph d))"
    and mx: "max_cycle_length ?d = max_cycle_length d" by (simp_all add: clear_agent_def)
  have keys: "set (dict_keys (dd_graph ?d)) = set (dict_keys (dd_graph d)) - {a}"
    unfolding g dict_keys_map by (simp add: delete_keys)
  have get: "dict_get_or (dd_graph ?d) k {} = (if k = a then {} else dict_get_or (dd_graph d) k {} - {a})" for k
    unfolding g by (simp add: dict_get_or_map) (simp add: dict_get_or_def)
  have wf: "dict_wf (dd_graph ?d)"
    using assms unfolding g dict_keys_map by (intro dict_wf_del) (simp add: dd_inv_def)
  show ?thesis
    unfolding dd_inv_iff mx waits_clear_agent keys get using assms wf unfolding dd_inv_iff by auto
qed

lemma dd_clear_inv: "dd_inv d \<Longrightarrow> dd_inv (dd_clear d)"
  by (simp add: dd_inv_def dd_clear_def waits_def graph_edges_def)

lemma DeadlockDetector_inv: "DeadlockDetector n = Inr d \<Longrightarrow> dd_inv d"
  by (auto simp: DeadlockDetector_def dd_inv_def waits_def graph_edges_def split: if_splits)

interpretation dd_machine: inv_system dd_step dd_inv
proof
  fix d e assume "dd_inv d"
  then show "dd_inv (dd_step d e)"
    by (cases e) (simp_all add: add_wait_inv remove_wait_inv clear_agent_inv dd_clear_inv)
qed

lemma max_cycle_length_step: "max_cycle_length (dd_step d e) = max_cycle_length d"
  by (cases e) (simp_all add: add_wait_def remove_wait_def clear_agent_def dd_clear_def Let_def
      split: option.split)

lemma max_cycle_length_run: "max_cycle_length (foldl dd_step d es) = max_cycle_length d"
  by (induction es arbitrary: d) (simp_all add: max_cycle_length_step)

section \<open>Lemmas: simple cycles of a relation\<close>

lemma simple_cycle_rotate1: "simple_cycle E p \<Longrightarrow> simple_cycle E (rotate1 p)"
proof -
  assume p: "simple_cycle E p"
  then obtain a q where q: "p = a # q" using simple_cycle_Cons by blast
  with p have "q \<noteq> []" by (auto simp: simple_cycle_def)
  with p q show ?thesis
    by (auto simp: simple_cycle_def successively_append_iff successively_Cons hd_append)
qed

lemma simple_cycle_rotate: "simple_cycle E p \<Longrightarrow> simple_cycle E (rotate n p)"
  by (induction n) (simp_all add: simple_cycle_rotate1)

lemma simple_cycle_canonical:
  fixes p :: "'a::linorder list"
  assumes "simple_cycle E p"
  obtains n where "simple_cycle E (rotate n p)" "canonical (rotate n p)"
proof -
  have ne: "p \<noteq> []" using assms by (rule simple_cycle_ne)
  then have "Min (set p) \<in> set p" by simp
  then obtain n where n: "n < length p" "p ! n = Min (set p)" by (auto simp: in_set_conv_nth)
  then have "hd (rotate n p) = Min (set p)" using ne by (simp add: hd_rotate_conv_nth)
  then have "canonical (rotate n p)" by (simp add: canonical_def)
  with simple_cycle_rotate [OF assms] show thesis by (rule that)
qed

definition closed_walk :: "('a \<times> 'a) set \<Rightarrow> 'a list \<Rightarrow> bool" where
  "closed_walk E p \<longleftrightarrow> p \<noteq> [] \<and> successively (\<lambda>a b. (a, b) \<in> E) (p @ [hd p])"

lemma trancl_walk:
  "(a, b) \<in> E\<^sup>+ \<Longrightarrow> \<exists>p. p \<noteq> [] \<and> hd p = a \<and> successively (\<lambda>a b. (a, b) \<in> E) (p @ [b])"
proof (induction rule: trancl_induct)
  case (base y)
  then show ?case by (intro exI [of _ "[a]"]) simp
next
  case (step y z)
  then obtain p where "p \<noteq> []" "hd p = a" "successively (\<lambda>a b. (a, b) \<in> E) (p @ [y])" by blast
  with step.hyps(2) show ?case
    by (intro exI [of _ "p @ [y]"]) (auto simp: successively_append_iff)
qed

lemma successively_trancl:
  "successively (\<lambda>a b. (a, b) \<in> E) (a # p @ [b]) \<Longrightarrow> (a, b) \<in> E\<^sup>+"
proof (induction p arbitrary: a)
  case (Cons c p)
  then show ?case by (auto intro: trancl_into_trancl2)
qed auto

lemma simple_cycle_cyclic: "simple_cycle E p \<Longrightarrow> \<not> acyclic E"
proof -
  assume p: "simple_cycle E p"
  then obtain a q where "p = a # q" using simple_cycle_Cons by blast
  with p have "(a, a) \<in> E\<^sup>+" by (auto simp: simple_cycle_def intro!: successively_trancl)
  then show ?thesis unfolding acyclic_def by blast
qed

text \<open>A shortest closed walk repeats no node.\<close>

lemma shortest_walk_distinct:
  assumes "closed_walk E p" "\<And>q. closed_walk E q \<Longrightarrow> length p \<le> length q"
  shows "distinct p"
proof (rule ccontr)
  assume "\<not> distinct p"
  then obtain xs ys zs y where p: "p = xs @ [y] @ ys @ [y] @ zs" using not_distinct_decomp by blast
  have "successively (\<lambda>a b. (a, b) \<in> E) p"
    using assms(1) by (simp add: closed_walk_def successively_append_iff)
  then have "closed_walk E (y # ys)"
    unfolding p by (auto simp: closed_walk_def successively_append_iff successively_Cons hd_append)
  then have "length p \<le> length (y # ys)" by (rule assms(2))
  then show False by (simp add: p)
qed

lemma cyclic_simple_cycle:
  assumes "\<not> acyclic E" "irrefl E" "E \<subseteq> N \<times> N" "finite N"
  obtains p where "simple_cycle E p" "length p \<le> card N"
proof -
  obtain a where a: "(a, a) \<in> E\<^sup>+" using assms(1) unfolding acyclic_def by blast
  obtain w where "w \<noteq> []" "hd w = a" "successively (\<lambda>a b. (a, b) \<in> E) (w @ [a])"
    using trancl_walk [OF a] by (elim exE conjE)
  then have w: "closed_walk E w" by (simp add: closed_walk_def)
  obtain p where p: "closed_walk E p" "\<And>q. closed_walk E q \<Longrightarrow> length p \<le> length q"
    using ex_has_least_nat [of "closed_walk E", OF w, of length] by (elim exE conjE) simp
  have dist: "distinct p" using shortest_walk_distinct [OF p] .
  obtain b q where q: "p = b # q" using p(1) by (cases p) (auto simp: closed_walk_def)
  have "q \<noteq> []"
    using p(1) assms(2) by (auto simp: q closed_walk_def irrefl_def)
  with p(1) dist have sc: "simple_cycle E p"
    by (cases q) (auto simp: q closed_walk_def simple_cycle_def)
  have "set p \<subseteq> N"
  proof
    fix x assume "x \<in> set p"
    then obtain us vs where "p = us @ x # vs" by (meson split_list)
    then have "successively (\<lambda>a b. (a, b) \<in> E) (us @ x # (vs @ [hd p]))"
      using p(1) by (simp add: closed_walk_def)
    then have "(x, hd (vs @ [hd p])) \<in> E"
      by (cases vs) (simp_all add: successively_append_iff)
    then show "x \<in> N" using assms(3) by blast
  qed
  then have "length p \<le> card N"
    using dist assms(4) by (metis card_mono distinct_card)
  with sc show thesis by (rule that)
qed

lemma simple_cycle_restrict:
  "simple_cycle {(w, h) \<in> E. w \<noteq> a \<and> h \<noteq> a} p \<longleftrightarrow> simple_cycle E p \<and> a \<notin> set p"
proof -
  have step: "successively (\<lambda>x y. (x, y) \<in> E \<and> x \<noteq> a \<and> y \<noteq> a) q \<longleftrightarrow>
      successively (\<lambda>x y. (x, y) \<in> E) q \<and> (length q \<ge> 2 \<longrightarrow> a \<notin> set q)" for q
  proof (induction q rule: induct_list012)
    case (3 x y zs)
    then show ?case by (cases zs) auto
  qed auto
  show ?thesis
  proof (cases "length p \<ge> 2")
    case True
    then have "hd p \<in> set p" by (cases p) auto
    with True step [of "p @ [hd p]"] show ?thesis by (auto simp: simple_cycle_def)
  qed (simp add: simple_cycle_def)
qed

lemma sum_list_snapshot_card:
  assumes "dd_inv d"
  shows "sum_list (map length (dict_values (graph_snapshot d))) = card (waits d)"
proof -
  let ?g = "dd_graph d"
  have inv: "dict_wf ?g" "\<forall>ns \<in> set (dict_values ?g). finite ns" "graph_edges d = waits d"
    using assms by (simp_all add: dd_inv_def)
  have img: "graph_edges d = (\<lambda>(p, h). (fst p, h)) ` (SIGMA p : set ?g. snd p)"
    using inv(1) by (force simp: graph_edges_def map_of_eq_Some_iff)
  have inj: "inj_on (\<lambda>(p, h). (fst p, h)) (SIGMA p : set ?g. snd p)"
    using inv(1) by (auto simp: inj_on_def distinct_map)
  have "card (graph_edges d) = (\<Sum>p \<in> set ?g. card (snd p))"
    unfolding img card_image [OF inj] using inv(2) by (subst card_SigmaI) auto
  also have "\<dots> = sum_list (map (\<lambda>p. card (snd p)) ?g)"
    using inv(1) by (subst sum_list_distinct_conv_sum_set) (simp_all add: distinct_map)
  also have "\<dots> = sum_list (map length (dict_values (graph_snapshot d)))"
    by (simp add: graph_snapshot_def comp_def case_prod_beta)
  finally show ?thesis using inv(3) by simp
qed

lemma nonempty_iff_mem: "length xs > 0 \<longleftrightarrow> (\<exists>x. x \<in> set xs)"
  by (cases xs) auto

lemma detect_has_deadlock:
  assumes inv: "dd_inv d"
  shows "has_deadlock (detect now d) \<longleftrightarrow>
    (\<exists>p. simple_cycle (waits d) p \<and> int (length p) \<le> max_cycle_length d)"
  unfolding has_deadlock_def nonempty_iff_mem detect_cycles [OF inv]
proof
  assume "\<exists>p. simple_cycle (waits d) p \<and> int (length p) \<le> max_cycle_length d"
  then obtain p where p: "simple_cycle (waits d) p" "int (length p) \<le> max_cycle_length d" by blast
  obtain k where k: "simple_cycle (waits d) (rotate k p)" "canonical (rotate k p)"
    using p(1) by (rule simple_cycle_canonical)
  show "\<exists>c. c \<in> {p @ [hd p] | p. simple_cycle (waits d) p \<and> canonical p \<and>
      int (length p) \<le> max_cycle_length d}"
    by (rule exI, rule CollectI, rule exI [of _ "rotate k p"]) (use k p(2) in simp)
qed blast

lemma detect_cyclic:
  assumes inv: "dd_inv d" and small: "int (length (dd_agents d)) \<le> max_cycle_length d"
  shows "has_deadlock (detect now d) \<longleftrightarrow> \<not> acyclic (waits d)"
proof
  assume "has_deadlock (detect now d)"
  then obtain p where "simple_cycle (waits d) p" unfolding detect_has_deadlock [OF inv] by (elim exE conjE)
  then show "\<not> acyclic (waits d)" by (rule simple_cycle_cyclic)
next
  let ?N = "set (dict_keys (dd_graph d))"
  have edge: "w \<noteq> h \<and> w \<in> ?N \<and> h \<in> ?N" if "(w, h) \<in> waits d" for w h
    using that inv unfolding dd_inv_def by (auto simp only: split_paired_Ball_Sigma)
  have irr: "irrefl (waits d)" unfolding irrefl_def using edge by blast
  have nodes: "waits d \<subseteq> ?N \<times> ?N" using edge by (auto simp only: mem_Sigma_iff)
  have card: "card ?N = length (dd_agents d)"
    using inv unfolding dd_agents_def length_sort by (intro distinct_card) (simp add: dd_inv_def)
  assume "\<not> acyclic (waits d)"
  then obtain p where p: "simple_cycle (waits d) p" "length p \<le> card ?N"
    by (rule cyclic_simple_cycle [OF _ irr nodes finite_set])
  then have "int (length p) \<le> max_cycle_length d" using small card by simp
  with p(1) show "has_deadlock (detect now d)" unfolding detect_has_deadlock [OF inv]
    by (intro exI conjI)
qed

lemma dd_reachable:
  assumes "DeadlockDetector n = Inr d0" "d = foldl dd_step d0 es"
  shows "dd_inv d" "max_cycle_length d = n"
proof -
  show "dd_inv d"
    unfolding assms(2) using DeadlockDetector_inv [OF assms(1)] by (rule dd_machine.run_inv)
  show "max_cycle_length d = n"
    using assms by (auto simp: max_cycle_length_run DeadlockDetector_def split: if_splits)
qed

section \<open>Properties\<close>

text \<open>
  C1: Whatever sequence of \<open>add_wait\<close>, \<open>remove_wait\<close>, \<open>clear_agent\<close> and \<open>clear\<close> calls led to
  the present graph, \<open>detect\<close> reports exactly the simple cycles of the wait-for relation of at
  most \<open>max_cycle_length\<close> agents, each once, rotated so that its smallest agent comes first and
  closed by repeating that agent: the iterative search with its pruning by node order neither
  misses a cycle nor invents one.
\<close>

theorem detect_exact:
  assumes "DeadlockDetector n = Inr d0" "d = foldl dd_step d0 es"
  shows "distinct (dr_cycles (detect now d)) \<and>
    set (dr_cycles (detect now d)) =
      {p @ [hd p] | p. simple_cycle (waits d) p \<and> canonical p \<and> int (length p) \<le> n}"
  using detect_cycles [OF dd_reachable(1) [OF assms], of now] dd_reachable(2) [OF assms]
  by (simp add: detect_def Let_def deduplicate_cycles_def dedup_from_distinct)

theorem detect_exact_witness:
  "[''a'', ''b'', ''a''] \<in> set (dr_cycles (detect 0
     (foldl dd_step \<lparr>max_cycle_length = 50, dd_graph = [], dd_edges = []\<rparr>
       [AddWait ''b'' ''a'' ''r'', AddWait ''a'' ''b'' ''s''])))"
proof -
  let ?es = "[AddWait ''b'' ''a'' ''r'', AddWait ''a'' ''b'' ''s'']"
  let ?d0 = "\<lparr>max_cycle_length = 50, dd_graph = [], dd_edges = []\<rparr>"
  have w: "waits (foldl dd_step ?d0 ?es) = {(''b'', ''a''), (''a'', ''b'')}"
    by (simp add: add_wait_def Let_def waits_def)
  have "DeadlockDetector 50 = Inr ?d0" by (simp add: DeadlockDetector_def)
  note detect_exact [OF this refl, of 0 ?es, THEN conjunct2]
  moreover have "simple_cycle {(''b'', ''a''), (''a'', ''b'')} [''a'', ''b'']"
    and "canonical [''a'', ''b'']"
    by (simp_all add: simple_cycle_def canonical_def less_eq_char_def)
  ultimately show ?thesis unfolding w by (simp only:) (intro CollectI exI [of _ "[''a'', ''b'']"], simp)
qed

text \<open>
  \<open>has_deadlock\<close> is sound and complete. It answers yes exactly when some set of agents waits
  in a circle of at most \<open>max_cycle_length\<close> agents (in whatever rotation), and, as long as the
  graph has no more than \<open>max_cycle_length\<close> agents, exactly when the wait-for relation is
  cyclic.
\<close>

theorem has_deadlock_iff:
  assumes "DeadlockDetector n = Inr d0" "d = foldl dd_step d0 es"
  shows "(has_deadlock (detect now d) \<longleftrightarrow> (\<exists>p. simple_cycle (waits d) p \<and> int (length p) \<le> n)) \<and>
    (int (length (dd_agents d)) \<le> n \<longrightarrow> (has_deadlock (detect now d) \<longleftrightarrow> \<not> acyclic (waits d)))"
  using detect_has_deadlock detect_cyclic dd_reachable [OF assms] by blast

theorem has_deadlock_iff_witness:
  "has_deadlock (detect 0
     (foldl dd_step \<lparr>max_cycle_length = 2, dd_graph = [], dd_edges = []\<rparr>
       [AddWait ''b'' ''a'' ''r'', AddWait ''a'' ''b'' ''s'']))"
proof -
  let ?es = "[AddWait ''b'' ''a'' ''r'', AddWait ''a'' ''b'' ''s'']"
  let ?d0 = "\<lparr>max_cycle_length = 2, dd_graph = [], dd_edges = []\<rparr>"
  have w: "waits (foldl dd_step ?d0 ?es) = {(''b'', ''a''), (''a'', ''b'')}"
    and n: "length (dd_agents (foldl dd_step ?d0 ?es)) = 2"
    by (simp_all add: add_wait_def Let_def waits_def ensure_node_def dict_has_def dd_agents_def)
  have "(''b'', ''b'') \<in> {(''b'', ''a''), (''a'', ''b'')}\<^sup>+"
    by (rule trancl_into_trancl2 [of _ "''a''"]) auto
  then have "\<not> acyclic {(''b'', ''a''), (''a'', ''b'')}" unfolding acyclic_def by blast
  moreover have "DeadlockDetector 2 = Inr ?d0" by (simp add: DeadlockDetector_def)
  note has_deadlock_iff [OF this refl, of 0 ?es, THEN conjunct2]
  ultimately show ?thesis unfolding w n by simp
qed

text \<open>
  On every reachable graph the adjacency dictionary and the edge list describe the same
  relation, no agent waits for itself, both ends of every edge are registered agents, and the
  counts in the result of \<open>detect\<close> are the number of agents and the number of distinct waits.
\<close>

theorem wait_graph_consistent:
  assumes "DeadlockDetector n = Inr d0" "d = foldl dd_step d0 es"
  shows "graph_edges d = waits d \<and> irrefl (waits d) \<and> Field (waits d) \<subseteq> set (dd_agents d) \<and>
    dr_node_count (detect now d) = card (set (dd_agents d)) \<and>
    dr_edge_count (detect now d) = card (waits d)"
proof -
  note inv = dd_reachable(1) [OF assms]
  have edge: "w \<noteq> h \<and> w \<in> set (dd_agents d) \<and> h \<in> set (dd_agents d)" if "(w, h) \<in> waits d" for w h
    using that inv unfolding dd_inv_def dd_agents_def set_sort by (auto simp only: split_paired_Ball_Sigma)
  have "irrefl (waits d)" "Field (waits d) \<subseteq> set (dd_agents d)"
    using edge unfolding irrefl_def Field_def by blast+
  moreover have "graph_edges d = waits d" using inv by (simp add: dd_inv_def)
  moreover have "dr_node_count (detect now d) = card (set (dd_agents d))"
    using inv distinct_card [of "dict_keys (dd_graph d)"]
    by (simp add: dd_inv_def dd_agents_def detect_def Let_def graph_snapshot_def)
  moreover have "dr_edge_count (detect now d) = card (waits d)"
    using sum_list_snapshot_card [OF inv] by (simp add: detect_def Let_def)
  ultimately show ?thesis by blast
qed

theorem wait_graph_consistent_witness:
  "dr_edge_count (detect 0 (foldl dd_step \<lparr>max_cycle_length = 2, dd_graph = [], dd_edges = []\<rparr>
     [AddWait ''a'' ''b'' ''r'', AddWait ''a'' ''b'' ''s'', AddWait ''a'' ''c'' ''t'',
      RemoveWait ''a'' ''c'', AddWait ''a'' ''a'' ''u''])) = 1"
proof -
  let ?d0 = "\<lparr>max_cycle_length = 2, dd_graph = [], dd_edges = []\<rparr>"
  let ?es = "[AddWait ''a'' ''b'' ''r'', AddWait ''a'' ''b'' ''s'', AddWait ''a'' ''c'' ''t'',
      RemoveWait ''a'' ''c'', AddWait ''a'' ''a'' ''u'']"
  have "waits (foldl dd_step ?d0 ?es) = {(''a'', ''b'')}"
    by (simp add: add_wait_def remove_wait_def Let_def waits_def ensure_node_def dict_has_def)
  moreover have "DeadlockDetector 2 = Inr ?d0" by (simp add: DeadlockDetector_def)
  ultimately show ?thesis using wait_graph_consistent [of 2 ?d0 _ ?es 0] by simp
qed

text \<open>
  \<open>clear_agent\<close> resolves exactly the deadlocks its agent takes part in: afterwards \<open>detect\<close>
  reports the cycles it reported before that avoid the agent, no others, and the agent is no
  longer a node.
\<close>

theorem clear_agent_resolves:
  assumes "DeadlockDetector n = Inr d0" "d = foldl dd_step d0 es"
  shows "set (dr_cycles (detect now' (clear_agent a d))) =
      {c \<in> set (dr_cycles (detect now d)). a \<notin> set c} \<and> a \<notin> set (dd_agents (clear_agent a d))"
proof
  note inv = dd_reachable(1) [OF assms]
  have inv': "dd_inv (clear_agent a d)" by (rule clear_agent_inv [OF inv])
  have mx: "max_cycle_length (clear_agent a d) = max_cycle_length d" by (simp add: clear_agent_def)
  have mem: "a \<in> set (p @ [hd p]) \<longleftrightarrow> a \<in> set p" if "simple_cycle (waits d) p" for p
    using simple_cycle_ne [OF that] by auto
  show "set (dr_cycles (detect now' (clear_agent a d))) =
      {c \<in> set (dr_cycles (detect now d)). a \<notin> set c}"
    unfolding detect_cycles [OF inv'] detect_cycles [OF inv] mx waits_clear_agent
      simple_cycle_restrict using mem by blast
  show "a \<notin> set (dd_agents (clear_agent a d))"
    unfolding dd_agents_def clear_agent_def set_sort by (simp add: dict_keys_map delete_keys del: set_map map_map)
qed

theorem clear_agent_resolves_witness:
  "\<not> has_deadlock (detect 1 (clear_agent ''a''
     (foldl dd_step \<lparr>max_cycle_length = 50, dd_graph = [], dd_edges = []\<rparr>
       [AddWait ''b'' ''a'' ''r'', AddWait ''a'' ''b'' ''s''])))"
proof -
  let ?es = "[AddWait ''b'' ''a'' ''r'', AddWait ''a'' ''b'' ''s'']"
  let ?d0 = "\<lparr>max_cycle_length = 50, dd_graph = [], dd_edges = []\<rparr>"
  have "DeadlockDetector 50 = Inr ?d0" by (simp add: DeadlockDetector_def)
  note clear_agent_resolves [OF this refl, of 1 "''a''" ?es 0, THEN conjunct1]
  moreover have "dr_cycles (detect 0 (foldl dd_step ?d0 ?es)) = [[''a'', ''b'', ''a'']]" by code_simp
  ultimately show ?thesis by (simp add: has_deadlock_def cong: conj_cong)
qed

end
