(* ===== verification/Routing_Table.thy ===== *)
theory Routing_Table
  imports Messages
begin

text \<open>
  \<open>routing/table.py\<close>: the registry of agents with their capabilities, cost, load and health.
  Every method that changes it is an operation on the record \<open>routing_table\<close>; an operation that
  raises returns the table as the code leaves it, with the fields assigned before the exception.
\<close>

section \<open>Agent records\<close>

record agent_record =
  agent_id :: string
  capabilities :: "string set"
  cost_per_token :: rat
  current_load :: rat
  healthy :: bool
  registered_at :: timestamp
  last_heartbeat_at :: timestamp
  ar_tags :: "(string, string) dict"
  ar_metadata :: "(string, string) dict"

text \<open>A requirement is read from a message payload, so it is a set of JSON values; the
  capabilities of an agent are strings.\<close>

definition capability_values :: "agent_record \<Rightarrow> json set" where
  "capability_values r = JStr ` capabilities r"

definition matches_capabilities :: "agent_record \<Rightarrow> json set \<Rightarrow> bool" where
  "matches_capabilities r required \<longleftrightarrow> required \<subseteq> capability_values r"

definition capability_overlap_score :: "agent_record \<Rightarrow> string set \<Rightarrow> rat" where
  "capability_overlap_score r required =
     (if required = {} then 0
      else of_nat (card (required \<inter> capabilities r)) / of_nat (card required))"

section \<open>The table\<close>

record routing_table =
  default_healthy_only :: bool
  rt_agents :: "(string, agent_record) dict"

definition RoutingTable :: "bool \<Rightarrow> routing_table" where
  "RoutingTable dh = \<lparr>default_healthy_only = dh, rt_agents = []\<rparr>"

definition validate_load :: "rat \<Rightarrow> exn + unit" where
  "validate_load l = (if 0 \<le> l \<and> l \<le> 1 then Inr () else Inl (ValueError ''current_load''))"

definition validate_cost :: "rat \<Rightarrow> exn + unit" where
  "validate_cost c = (if c < 0 then Inl (ValueError ''cost_per_token'') else Inr ())"

definition get_or_raise :: "string \<Rightarrow> routing_table \<Rightarrow> exn + agent_record" where
  "get_or_raise a t =
     (case dict_get (rt_agents t) a of None \<Rightarrow> Inl (AgentNotFoundError a) | Some r \<Rightarrow> Inr r)"

text \<open>The keyword arguments shared by registration and update; \<open>None\<close> where the argument is
  absent.\<close>

record agent_args =
  arg_capabilities :: "string list option"
  arg_cost :: "rat option"
  arg_load :: "rat option"
  arg_healthy :: "bool option"
  arg_tags :: "(string, string) dict option"
  arg_metadata :: "(string, string) dict option"

definition opt_set :: "string list option \<Rightarrow> string set" where
  "opt_set xs = (case xs of None \<Rightarrow> {} | Some l \<Rightarrow> set l)"

definition opt_dict :: "(string, string) dict option \<Rightarrow> (string, string) dict" where
  "opt_dict d = (case d of None \<Rightarrow> [] | Some e \<Rightarrow> e)"

definition or_zero :: "rat option \<Rightarrow> rat" where
  \<comment> \<open>the default \<open>0.0\<close> of \<open>cost_per_token\<close> and \<open>current_load\<close>\<close>
  "or_zero x = (case x of None \<Rightarrow> 0 | Some v \<Rightarrow> v)"

definition register_agent ::
    "timestamp \<Rightarrow> string \<Rightarrow> agent_args \<Rightarrow> routing_table \<Rightarrow> (routing_table, agent_record) outcome" where
  "register_agent now a args t =
     (case validate_load (or_zero (arg_load args)) of
        Inl x \<Rightarrow> (t, Inl x)
      | Inr _ \<Rightarrow>
      case validate_cost (or_zero (arg_cost args)) of
        Inl x \<Rightarrow> (t, Inl x)
      | Inr _ \<Rightarrow>
          if dict_has (rt_agents t) a then (t, Inl (AgentAlreadyRegisteredError a))
          else
            let r = \<lparr>agent_id = a, capabilities = opt_set (arg_capabilities args),
                     cost_per_token = or_zero (arg_cost args), current_load = or_zero (arg_load args),
                     healthy = True, registered_at = now, last_heartbeat_at = now,
                     ar_tags = opt_dict (arg_tags args), ar_metadata = opt_dict (arg_metadata args)\<rparr>
            in (t\<lparr>rt_agents := dict_set a r (rt_agents t)\<rparr>, Inr r))"

definition deregister_agent :: "string \<Rightarrow> routing_table \<Rightarrow> (routing_table, unit) outcome" where
  "deregister_agent a t =
     (if \<not> dict_has (rt_agents t) a then (t, Inl (AgentNotFoundError a))
      else (t\<lparr>rt_agents := dict_del a (rt_agents t)\<rparr>, Inr ()))"

definition put_record :: "string \<Rightarrow> agent_record \<Rightarrow> routing_table \<Rightarrow> routing_table" where
  \<comment> \<open>the record is shared with the table: an assignment to one of its fields changes the table\<close>
  "put_record a r t = t\<lparr>rt_agents := dict_set a r (rt_agents t)\<rparr>"

definition set_unchecked :: "agent_args \<Rightarrow> agent_record \<Rightarrow> agent_record" where
  \<comment> \<open>the three assignments after the validated ones\<close>
  "set_unchecked args r =
     (let r1 = (case arg_healthy args of None \<Rightarrow> r | Some h \<Rightarrow> r\<lparr>healthy := h\<rparr>);
          r2 = (case arg_tags args of None \<Rightarrow> r1 | Some d \<Rightarrow> r1\<lparr>ar_tags := dict_update (ar_tags r1) d\<rparr>)
      in case arg_metadata args of None \<Rightarrow> r2
         | Some d \<Rightarrow> r2\<lparr>ar_metadata := dict_update (ar_metadata r2) d\<rparr>)"

definition set_capabilities :: "agent_args \<Rightarrow> agent_record \<Rightarrow> agent_record" where
  "set_capabilities args r =
     (case arg_capabilities args of None \<Rightarrow> r | Some cs \<Rightarrow> r\<lparr>capabilities := set cs\<rparr>)"

definition set_cost :: "agent_args \<Rightarrow> agent_record \<Rightarrow> exn + agent_record" where
  "set_cost args r =
     (case arg_cost args of None \<Rightarrow> Inr r
      | Some c \<Rightarrow> (case validate_cost c of Inl x \<Rightarrow> Inl x | Inr _ \<Rightarrow> Inr (r\<lparr>cost_per_token := c\<rparr>)))"

definition set_load :: "agent_args \<Rightarrow> agent_record \<Rightarrow> exn + agent_record" where
  "set_load args r =
     (case arg_load args of None \<Rightarrow> Inr r
      | Some l \<Rightarrow> (case validate_load l of Inl x \<Rightarrow> Inl x | Inr _ \<Rightarrow> Inr (r\<lparr>current_load := l\<rparr>)))"

definition update_agent ::
    "string \<Rightarrow> agent_args \<Rightarrow> routing_table \<Rightarrow> (routing_table, agent_record) outcome" where
  "update_agent a args t =
     (case get_or_raise a t of
        Inl x \<Rightarrow> (t, Inl x)
      | Inr r0 \<Rightarrow>
          let r1 = set_capabilities args r0 in
          case set_cost args r1 of
            Inl x \<Rightarrow> (put_record a r1 t, Inl x)
          | Inr r2 \<Rightarrow>
              (case set_load args r2 of
                 Inl x \<Rightarrow> (put_record a r2 t, Inl x)
               | Inr r3 \<Rightarrow> let r = set_unchecked args r3 in (put_record a r t, Inr r)))"

text \<open>\<open>upsert_agent\<close> passes its own defaults on, so an absent cost or load is \<open>0.0\<close> in an update
  too; it has no \<open>healthy\<close> argument.\<close>

definition upsert_agent ::
    "timestamp \<Rightarrow> string \<Rightarrow> agent_args \<Rightarrow> routing_table \<Rightarrow> (routing_table, agent_record) outcome" where
  "upsert_agent now a args t =
     (if dict_has (rt_agents t) a then
        update_agent a (args\<lparr>arg_cost := Some (or_zero (arg_cost args)),
                             arg_load := Some (or_zero (arg_load args)), arg_healthy := None\<rparr>) t
      else register_agent now a args t)"

definition record_heartbeat :: "timestamp \<Rightarrow> string \<Rightarrow> routing_table \<Rightarrow> (routing_table, unit) outcome" where
  "record_heartbeat now a t =
     (case get_or_raise a t of
        Inl x \<Rightarrow> (t, Inl x)
      | Inr r \<Rightarrow> (put_record a (r\<lparr>last_heartbeat_at := now\<rparr>) t, Inr ()))"

definition no_args :: agent_args where
  "no_args = \<lparr>arg_capabilities = None, arg_cost = None, arg_load = None, arg_healthy = None,
     arg_tags = None, arg_metadata = None\<rparr>"

definition update_load :: "string \<Rightarrow> rat \<Rightarrow> routing_table \<Rightarrow> (routing_table, unit) outcome" where
  "update_load a l t =
     (case update_agent a (no_args\<lparr>arg_load := Some l\<rparr>) t of
        (t', Inl x) \<Rightarrow> (t', Inl x) | (t', Inr _) \<Rightarrow> (t', Inr ()))"

section \<open>Lookup\<close>

definition get_agent :: "string \<Rightarrow> routing_table \<Rightarrow> exn + agent_record" where
  "get_agent a t = get_or_raise a t"

definition list_agents :: "bool option \<Rightarrow> routing_table \<Rightarrow> agent_record list" where
  "list_agents healthy_only t =
     (if (case healthy_only of None \<Rightarrow> default_healthy_only t | Some b \<Rightarrow> b)
      then filter healthy (dict_values (rt_agents t)) else dict_values (rt_agents t))"

definition find_by_capability :: "string \<Rightarrow> bool option \<Rightarrow> routing_table \<Rightarrow> agent_record list" where
  "find_by_capability c healthy_only t =
     filter (\<lambda>r. c \<in> capabilities r) (list_agents healthy_only t)"

definition find_by_capabilities ::
    "json set \<Rightarrow> bool option \<Rightarrow> bool \<Rightarrow> routing_table \<Rightarrow> agent_record list" where
  "find_by_capabilities required healthy_only require_all t =
     (if require_all then filter (\<lambda>r. matches_capabilities r required) (list_agents healthy_only t)
      else filter (\<lambda>r. required \<inter> capability_values r \<noteq> {}) (list_agents healthy_only t))"

section \<open>The table as a machine\<close>

datatype table_event =
    RegisterAgent timestamp string agent_args
  | DeregisterAgent string
  | UpsertAgent timestamp string agent_args
  | UpdateAgent string agent_args
  | Heartbeat timestamp string
  | UpdateLoad string rat

fun table_step :: "routing_table \<Rightarrow> table_event \<Rightarrow> routing_table" where
  "table_step t (RegisterAgent now a args) = fst (register_agent now a args t)"
| "table_step t (DeregisterAgent a) = fst (deregister_agent a t)"
| "table_step t (UpsertAgent now a args) = fst (upsert_agent now a args t)"
| "table_step t (UpdateAgent a args) = fst (update_agent a args t)"
| "table_step t (Heartbeat now a) = fst (record_heartbeat now a t)"
| "table_step t (UpdateLoad a l) = fst (update_load a l t)"

text \<open>The invariant: one record per identifier, filed under its own identifier, with a load in
  the unit interval and a cost that is not negative.\<close>

definition record_ok :: "agent_record \<Rightarrow> bool" where
  "record_ok r \<longleftrightarrow> 0 \<le> current_load r \<and> current_load r \<le> 1 \<and> 0 \<le> cost_per_token r"

definition table_wf :: "routing_table \<Rightarrow> bool" where
  "table_wf t \<longleftrightarrow> dict_wf (rt_agents t) \<and>
     (\<forall>(a, r) \<in> set (rt_agents t). agent_id r = a \<and> record_ok r)"

section \<open>Lemmas\<close>

lemma table_wf_iff:
  "table_wf t \<longleftrightarrow> dict_wf (rt_agents t) \<and>
     (\<forall>a r. dict_get (rt_agents t) a = Some r \<longrightarrow> agent_id r = a \<and> record_ok r)"
  unfolding table_wf_def by (auto simp: map_of_eq_Some_iff)

lemma table_wf_put:
  "table_wf t \<Longrightarrow> agent_id r = a \<Longrightarrow> record_ok r \<Longrightarrow> table_wf (put_record a r t)"
  by (simp add: table_wf_iff put_record_def)

lemma table_wf_del: "table_wf t \<Longrightarrow> table_wf (t\<lparr>rt_agents := dict_del a (rt_agents t)\<rparr>)"
  by (simp add: table_wf_iff)

lemma validate_simps:
  "validate_load l = Inr () \<longleftrightarrow> 0 \<le> l \<and> l \<le> 1" "validate_cost c = Inr () \<longleftrightarrow> 0 \<le> c"
  by (auto simp: validate_load_def validate_cost_def)

lemma set_fields_id [simp]:
  "agent_id (set_capabilities args r) = agent_id r" "agent_id (set_unchecked args r) = agent_id r"
  "record_ok (set_capabilities args r) = record_ok r" "record_ok (set_unchecked args r) = record_ok r"
  by (auto simp: set_capabilities_def set_unchecked_def record_ok_def Let_def split: option.split)

lemma set_cost_ok:
  "set_cost args r = Inr r' \<Longrightarrow> record_ok r \<Longrightarrow> agent_id r' = agent_id r \<and> record_ok r'"
  by (auto simp: set_cost_def record_ok_def validate_cost_def split: option.splits if_splits)

lemma set_load_ok:
  "set_load args r = Inr r' \<Longrightarrow> record_ok r \<Longrightarrow> agent_id r' = agent_id r \<and> record_ok r'"
  by (auto simp: set_load_def record_ok_def validate_load_def split: option.splits if_splits)

lemma get_or_raise_wf:
  "table_wf t \<Longrightarrow> get_or_raise a t = Inr r \<Longrightarrow> agent_id r = a \<and> record_ok r"
  by (auto simp: get_or_raise_def table_wf_iff split: option.splits)

lemma update_agent_wf:
  assumes wf: "table_wf t"
  shows "table_wf (fst (update_agent a args t))"
proof (cases "get_or_raise a t")
  case (Inl x)
  with wf show ?thesis by (simp add: update_agent_def)
next
  case (Inr r0)
  let ?r1 = "set_capabilities args r0"
  have r1: "agent_id ?r1 = a" "record_ok ?r1" using get_or_raise_wf [OF wf Inr] by simp_all
  show ?thesis
  proof (cases "set_cost args ?r1")
    case (Inl x)
    with Inr r1 wf show ?thesis by (simp add: update_agent_def Let_def table_wf_put)
  next
    case r2: (Inr r2)
    then have "agent_id r2 = a" "record_ok r2" using set_cost_ok r1 by metis+
    with Inr r2 wf set_load_ok [of args r2] show ?thesis
      by (auto simp: update_agent_def Let_def table_wf_put split: sum.split)
  qed
qed

lemma register_agent_wf: "table_wf t \<Longrightarrow> table_wf (fst (register_agent now a args t))"
  using table_wf_put [of t _ a]
  by (auto simp: register_agent_def validate_load_def validate_cost_def Let_def put_record_def
      record_ok_def)

interpretation table_machine: inv_system table_step table_wf
proof
  fix t e assume wf: "table_wf t"
  show "table_wf (table_step t e)"
  proof (cases e)
    case (DeregisterAgent a)
    with wf show ?thesis by (simp add: deregister_agent_def table_wf_del)
  next
    case (UpsertAgent now a args)
    with wf show ?thesis by (simp add: upsert_agent_def update_agent_wf register_agent_wf)
  next
    case (Heartbeat now a)
    with wf get_or_raise_wf [OF wf, of a] show ?thesis
      by (auto simp: record_heartbeat_def record_ok_def intro!: table_wf_put split: sum.split)
  next
    case (UpdateLoad a l)
    with wf update_agent_wf [OF wf, of a "no_args\<lparr>arg_load := Some l\<rparr>"] show ?thesis
      by (auto simp: update_load_def split: prod.split sum.split)
  qed (simp_all add: wf update_agent_wf register_agent_wf)
qed

text \<open>The table as a registry of records.\<close>

interpretation table_store: keyed_store "\<lambda>t. dict_get (rt_agents t)" put_record
    "\<lambda>a t. t\<lparr>rt_agents := dict_del a (rt_agents t)\<rparr>"
  by unfold_locales (simp_all add: put_record_def)

lemma list_healthy_iff:
  assumes "table_wf t"
  shows "r \<in> set (list_agents (Some True) t) \<longleftrightarrow>
    healthy r \<and> dict_get (rt_agents t) (agent_id r) = Some r"
proof -
  have wf: "dict_wf (rt_agents t)" using assms by (simp add: table_wf_def)
  have "r \<in> set (dict_values (rt_agents t)) \<longleftrightarrow> dict_get (rt_agents t) (agent_id r) = Some r"
    unfolding dict_values_mem [OF wf] using assms by (auto simp: table_wf_iff)
  then show ?thesis by (auto simp: list_agents_def)
qed

lemma dict_values_ids:
  "table_wf t \<Longrightarrow> map agent_id (dict_values (rt_agents t)) = dict_keys (rt_agents t)"
  by (auto simp: table_wf_def)

lemma list_agents_distinct:
  assumes "table_wf t"
  shows "distinct (map agent_id (list_agents h t))"
proof -
  have "distinct (map agent_id (dict_values (rt_agents t)))"
    using assms unfolding dict_values_ids [OF assms] by (simp add: table_wf_def)
  then show ?thesis by (simp add: list_agents_def distinct_map_filter)
qed

section \<open>Properties\<close>

text \<open>
  C37: Whatever sequence of registrations, updates, upserts, heartbeats, load reports and
  deregistrations is applied, including calls that raise after having changed part of a record,
  the table holds one record per identifier, filed under that identifier, with a load between
  0 and 1 and a cost that is not negative; and \<open>find_by_capabilities\<close> returns exactly the
  registered records that have what is asked for (and are healthy, when only those are wanted).
\<close>

theorem routing_table_invariant:
  assumes "t = foldl table_step (RoutingTable dh) es"
  shows "table_wf t \<and>
    (\<forall>r required all. r \<in> set (find_by_capabilities required (Some h) all t) \<longleftrightarrow>
       dict_get (rt_agents t) (agent_id r) = Some r \<and> (h \<longrightarrow> healthy r) \<and>
       (if all then required \<subseteq> JStr ` capabilities r else required \<inter> JStr ` capabilities r \<noteq> {}))"
proof
  have "table_wf (RoutingTable dh)" by (simp add: table_wf_def RoutingTable_def)
  then show wf: "table_wf t" unfolding assms by (rule table_machine.run_inv)
  then have "r \<in> set (dict_values (rt_agents t)) \<longleftrightarrow> dict_get (rt_agents t) (agent_id r) = Some r" for r
    by (subst dict_values_mem) (auto simp: table_wf_iff)
  then have "r \<in> set (list_agents (Some h) t) \<longleftrightarrow>
      dict_get (rt_agents t) (agent_id r) = Some r \<and> (h \<longrightarrow> healthy r)" for r
    by (auto simp: list_agents_def)
  then show "\<forall>r required all. r \<in> set (find_by_capabilities required (Some h) all t) \<longleftrightarrow>
       dict_get (rt_agents t) (agent_id r) = Some r \<and> (h \<longrightarrow> healthy r) \<and>
       (if all then required \<subseteq> JStr ` capabilities r else required \<inter> JStr ` capabilities r \<noteq> {})"
    by (simp add: find_by_capabilities_def matches_capabilities_def capability_values_def)
qed

theorem routing_table_invariant_witness:
  "table_wf (foldl table_step (RoutingTable True)
     [RegisterAgent 0 ''a'' (no_args\<lparr>arg_load := Some (1/2)\<rparr>), UpdateLoad ''a'' 2,
      UpdateAgent ''a'' (no_args\<lparr>arg_capabilities := Some [''py''], arg_cost := Some (-1)\<rparr>)])"
  using routing_table_invariant [OF refl] by blast

text \<open>
  Registration is faithful and exclusive: a valid registration of a new identifier succeeds,
  a lookup then returns exactly that record and all other lookups are unchanged; a second
  registration of the identifier raises and changes nothing; deregistration restores the table's
  lookups.
\<close>

theorem register_then_get:
  assumes "\<not> dict_has (rt_agents t) a"
    "0 \<le> or_zero (arg_load args)" "or_zero (arg_load args) \<le> 1" "0 \<le> or_zero (arg_cost args)"
  shows "\<exists>r. snd (register_agent now a args t) = Inr r \<and> healthy r \<and>
    capabilities r = opt_set (arg_capabilities args) \<and>
    (let t' = fst (register_agent now a args t) in
      get_agent a t' = Inr r \<and> (\<forall>b. b \<noteq> a \<longrightarrow> get_agent b t' = get_agent b t) \<and>
      register_agent now' a args' t' =
        (t', if \<not> (0 \<le> or_zero (arg_load args') \<and> or_zero (arg_load args') \<le> 1)
             then Inl (ValueError ''current_load'')
             else if or_zero (arg_cost args') < 0 then Inl (ValueError ''cost_per_token'')
             else Inl (AgentAlreadyRegisteredError a)) \<and>
      (\<forall>b. get_agent b (fst (deregister_agent a t')) = get_agent b t))"
proof -
  obtain r where r: "register_agent now a args t = (put_record a r t, Inr r)" "healthy r"
    "capabilities r = opt_set (arg_capabilities args)"
    using assms by (auto simp: register_agent_def validate_simps put_record_def Let_def
        validate_load_def validate_cost_def)
  let ?t' = "put_record a r t"
  have has: "dict_has (rt_agents ?t') a" by (simp add: dict_has_def put_record_def)
  have get: "get_agent b ?t' = (if b = a then Inr r else get_agent b t)" for b
    by (simp add: get_agent_def get_or_raise_def put_record_def)
  have "register_agent now' a args' ?t' =
        (?t', if \<not> (0 \<le> or_zero (arg_load args') \<and> or_zero (arg_load args') \<le> 1)
             then Inl (ValueError ''current_load'')
             else if or_zero (arg_cost args') < 0 then Inl (ValueError ''cost_per_token'')
             else Inl (AgentAlreadyRegisteredError a))"
    using has by (simp add: register_agent_def validate_load_def validate_cost_def)
  moreover have "get_agent b (fst (deregister_agent a ?t')) = get_agent b t" for b
    using assms(1) has
    by (simp add: deregister_agent_def get_agent_def get_or_raise_def put_record_def dict_has_def)
  ultimately show ?thesis using r get by (simp add: Let_def)
qed

theorem register_then_get_witness:
  "\<exists>r. snd (register_agent 5 ''a'' no_args (RoutingTable True)) = Inr r \<and> healthy r"
  using register_then_get [of "RoutingTable True" "''a''" no_args 5 5 no_args]
  by (auto simp: RoutingTable_def dict_has_def no_args_def or_zero_def)

text \<open>
  \<open>update_agent\<close> is not atomic: with a new capability set and an invalid cost it raises
  \<open>ValueError\<close>, yet the agent's capabilities have been replaced while its cost, load and health
  have not been touched.
\<close>

theorem update_agent_partial:
  assumes "get_agent a t = Inr r" "arg_capabilities args = Some cs" "arg_cost args = Some c" "c < 0"
  shows "update_agent a args t =
    (put_record a (r\<lparr>capabilities := set cs\<rparr>) t, Inl (ValueError ''cost_per_token''))"
  using assms by (simp add: update_agent_def get_agent_def set_capabilities_def set_cost_def
      validate_cost_def Let_def)

theorem update_agent_partial_witness:
  "\<exists>r t'. update_agent ''a'' (no_args\<lparr>arg_capabilities := Some [''py''], arg_cost := Some (-1)\<rparr>)
      (fst (register_agent 0 ''a'' no_args (RoutingTable True))) =
    (t', Inl (ValueError ''cost_per_token'')) \<and> get_agent ''a'' t' = Inr r \<and> capabilities r = {''py''}"
proof -
  let ?t = "fst (register_agent 0 ''a'' no_args (RoutingTable True))"
  let ?r = "\<lparr>agent_id = ''a'', capabilities = {}, cost_per_token = 0, current_load = 0,
     healthy = True, registered_at = 0, last_heartbeat_at = 0, ar_tags = [], ar_metadata = []\<rparr>"
  have r: "get_agent ''a'' ?t = Inr ?r"
    by (simp add: register_agent_def validate_load_def validate_cost_def or_zero_def no_args_def
        RoutingTable_def dict_has_def get_agent_def get_or_raise_def opt_set_def opt_dict_def Let_def)
  show ?thesis
    using update_agent_partial [OF r, of "no_args\<lparr>arg_capabilities := Some [''py''], arg_cost := Some (-1)\<rparr>"]
    by (simp add: put_record_def get_agent_def get_or_raise_def)
qed

end
