(* ===== verification/Routing_Strategy.thy ===== *)
theory Routing_Strategy
  imports Routing_Table
begin

text \<open>
  \<open>routing/strategy.py\<close> and \<open>routing/resolver.py\<close>: the five routing strategies, ranking the agents
  of a table for an envelope, and the resolver that turns a ranking into a decision. The contract
  every strategy owes the resolver is the locale \<open>ranking_contract\<close>; the resolver's lemmas are
  proved from it once.
\<close>

section \<open>Strategies\<close>

text \<open>A strategy object with its parameters and its state; the counter of a round-robin router is
  the only state. The parts of a composite are separate objects.\<close>

datatype strategy =
    CapabilityMatchRouter (require_all: bool) (tie_break_by_load: bool)
  | CostAwareRouter (budget_safety_margin: rat)
  | RoundRobinRouter (rr_counter: int)
  | LeastLoadedRouter (load_ceiling: rat)
  | CompositeRouter (strategies: "(strategy \<times> rat) list")

definition mk_CostAwareRouter :: "rat \<Rightarrow> exn + strategy" where
  "mk_CostAwareRouter m =
     (if 0 \<le> m \<and> m < 1 then Inr (CostAwareRouter m) else Inl (ValueError ''budget_safety_margin''))"

definition mk_LeastLoadedRouter :: "rat \<Rightarrow> exn + strategy" where
  "mk_LeastLoadedRouter c =
     (if 0 \<le> c \<and> c \<le> 1 then Inr (LeastLoadedRouter c) else Inl (ValueError ''load_ceiling''))"

definition mk_CompositeRouter :: "(strategy \<times> rat) list \<Rightarrow> exn + strategy" where
  "mk_CompositeRouter ss =
     (if ss = [] then Inl (ValueError ''strategies'')
      else if list_ex (\<lambda>(_, w). w < 0) ss then Inl (ValueError ''weight'')
      else Inr (CompositeRouter ss))"

text \<open>\<open>set(raw)\<close>: a list or an object in the list is not hashable.\<close>

fun hashable :: "json \<Rightarrow> bool" where
  "hashable (JList _) = False"
| "hashable (JObj _) = False"
| "hashable _ = True"

definition required_capabilities :: "message_envelope \<Rightarrow> exn + json set" where
  "required_capabilities env =
     (case dict_get_or (payload env) ''required_capabilities'' (JList []) of
        JList raw \<Rightarrow> if list_all hashable raw then Inr (set raw) else Inl (TypeError ''unhashable'')
      | _ \<Rightarrow> Inr {})"

definition capability_match_rank ::
    "bool \<Rightarrow> bool \<Rightarrow> routing_table \<Rightarrow> message_envelope \<Rightarrow> exn + agent_record list" where
  "capability_match_rank all tie t env =
     (case required_capabilities env of
        Inl x \<Rightarrow> Inl x
      | Inr required \<Rightarrow>
          let candidates = (if required = {} then list_agents (Some True) t
                            else find_by_capabilities required (Some True) all t)
          in Inr (if candidates = [] then []
                  else if tie then sort_key current_load candidates else candidates))"

definition cost_aware_rank ::
    "builtins \<Rightarrow> rat \<Rightarrow> routing_table \<Rightarrow> message_envelope \<Rightarrow> exn + agent_record list" where
  "cost_aware_rank B margin t env =
     (let candidates = list_agents (Some True) t in
      if candidates = [] then Inr []
      else case cost_budget_usd env of
        None \<Rightarrow> Inr (sort_key cost_per_token candidates)
      | Some budget \<Rightarrow>
          (case py_int B (dict_get_or (payload env) ''estimated_tokens'' (JInt 1000)) of
             Inl x \<Rightarrow> Inl x
           | Inr estimated_tokens \<Rightarrow>
               Inr (sort_key cost_per_token
                 (filter (\<lambda>r. cost_per_token r * of_int estimated_tokens \<le> budget * (1 - margin))
                   candidates))))"

definition round_robin_rank :: "int \<Rightarrow> routing_table \<Rightarrow> int \<times> agent_record list" where
  "round_robin_rank counter t =
     (let candidates = list_agents (Some True) t in
      if candidates = [] then (counter, [])
      else
        let sorted_c = sort_key agent_id candidates;
            index = nat (counter mod int (length sorted_c))
        in (counter + 1, drop index sorted_c @ take index sorted_c))"

definition least_loaded_rank :: "rat \<Rightarrow> routing_table \<Rightarrow> agent_record list" where
  "least_loaded_rank ceil t =
     sort_key current_load (filter (\<lambda>r. current_load r \<le> ceil) (list_agents (Some True) t))"

text \<open>The inner loop of the composite: the candidate at position \<open>i\<close> of \<open>total = n\<close> adds
  \<open>(total - i) / total * weight\<close> to its score.\<close>

fun add_scores ::
    "nat \<Rightarrow> nat \<Rightarrow> rat \<Rightarrow> agent_record list \<Rightarrow> (string, rat) dict \<Rightarrow> (string, rat) dict" where
  "add_scores n i weight [] scores = scores"
| "add_scores n i weight (r # rs) scores =
     add_scores n (Suc i) weight rs
       (case dict_get scores (agent_id r) of
          None \<Rightarrow> scores
        | Some s \<Rightarrow> dict_set (agent_id r) (s + of_nat (n - i) / of_nat n * weight) scores)"

text \<open>\<open>all_candidates[record.agent_id] = record\<close> over the healthy agents.\<close>

definition index_by_id :: "agent_record list \<Rightarrow> (string, agent_record) dict" where
  "index_by_id rs = fold (\<lambda>r d. dict_set (agent_id r) r d) rs []"

definition rank_by_scores ::
    "(string, agent_record) dict \<Rightarrow> (string, rat) dict \<Rightarrow> agent_record list" where
  "rank_by_scores cands scores =
     filter (\<lambda>r. dict_get_or scores (agent_id r) 0 > 0)
       (sort_key (\<lambda>r. - dict_get_or scores (agent_id r) 0) (dict_values cands))"

fun rank_candidates ::
    "builtins \<Rightarrow> routing_table \<Rightarrow> message_envelope \<Rightarrow> strategy \<Rightarrow> strategy \<times> (exn + agent_record list)"
  and accumulate_scores ::
    "builtins \<Rightarrow> routing_table \<Rightarrow> message_envelope \<Rightarrow> (strategy \<times> rat) list \<Rightarrow> (string, rat) dict
     \<Rightarrow> (strategy \<times> rat) list \<times> (exn + (string, rat) dict)" where
  "rank_candidates B t env (CapabilityMatchRouter all tie) =
     (CapabilityMatchRouter all tie, capability_match_rank all tie t env)"
| "rank_candidates B t env (CostAwareRouter m) = (CostAwareRouter m, cost_aware_rank B m t env)"
| "rank_candidates B t env (RoundRobinRouter c) =
     (case round_robin_rank c t of (c', rs) \<Rightarrow> (RoundRobinRouter c', Inr rs))"
| "rank_candidates B t env (LeastLoadedRouter c) = (LeastLoadedRouter c, Inr (least_loaded_rank c t))"
| "rank_candidates B t env (CompositeRouter ss) =
     (let cands = index_by_id (list_agents (Some True) t) in
      if cands = [] then (CompositeRouter ss, Inr [])
      else case accumulate_scores B t env ss (map (\<lambda>(a, _). (a, 0)) cands) of
             (ss', Inl x) \<Rightarrow> (CompositeRouter ss', Inl x)
           | (ss', Inr scores) \<Rightarrow> (CompositeRouter ss', Inr (rank_by_scores cands scores)))"
| "accumulate_scores B t env [] scores = ([], Inr scores)"
| "accumulate_scores B t env ((s, w) # ss) scores =
     (case rank_candidates B t env s of
        (s', Inl x) \<Rightarrow> ((s', w) # ss, Inl x)
      | (s', Inr ranked) \<Rightarrow>
          (let (ss', res) = accumulate_scores B t env ss
                 (if ranked = [] then scores else add_scores (length ranked) 0 w ranked scores)
           in ((s', w) # ss', res)))"

definition select :: "builtins \<Rightarrow> routing_table \<Rightarrow> message_envelope \<Rightarrow> strategy
    \<Rightarrow> strategy \<times> (exn + agent_record option)" where
  "select B t env s =
     (case rank_candidates B t env s of
        (s', Inl x) \<Rightarrow> (s', Inl x)
      | (s', Inr []) \<Rightarrow> (s', Inr None)
      | (s', Inr (r # _)) \<Rightarrow> (s', Inr (Some r)))"

section \<open>The resolver\<close>

record routing_result =
  primary_agent_id :: "string option"
  fallback_agent_ids :: "string list"
  strategy_name :: string
  candidates_evaluated :: nat
  routed :: bool

definition all_candidates :: "routing_result \<Rightarrow> string list" where
  "all_candidates res = (case primary_agent_id res of
     None \<Rightarrow> fallback_agent_ids res | Some p \<Rightarrow> p # fallback_agent_ids res)"

definition direct_target :: "routing_table \<Rightarrow> message_envelope \<Rightarrow> string option" where
  \<comment> \<open>the fast path: a named receiver that is registered and healthy\<close>
  "direct_target t env =
     (if receiver env \<noteq> [] \<and> receiver env \<noteq> ''*'' \<and> dict_has (rt_agents t) (receiver env)
      then (case get_agent (receiver env) t of
              Inr r \<Rightarrow> if healthy r then Some (receiver env) else None
            | Inl _ \<Rightarrow> None)
      else None)"

text \<open>\<open>resolve\<close> over the strategy object it was given: its \<open>rank_candidates\<close> method and its class
  name are the arguments \<open>rank\<close> and \<open>name\<close>, its state \<open>st\<close>.\<close>

definition resolve ::
    "(routing_table \<Rightarrow> message_envelope \<Rightarrow> 'st \<Rightarrow> 'st \<times> (exn + agent_record list)) \<Rightarrow> ('st \<Rightarrow> string)
     \<Rightarrow> int \<Rightarrow> routing_table \<Rightarrow> message_envelope \<Rightarrow> 'st \<Rightarrow> 'st \<times> (exn + routing_result)" where
  "resolve rank name max_fallbacks t env st =
     (case direct_target t env of
        Some a \<Rightarrow> (st, Inr \<lparr>primary_agent_id = Some a, fallback_agent_ids = [],
                    strategy_name = ''direct:'' @ name st, candidates_evaluated = 1, routed = True\<rparr>)
      | None \<Rightarrow>
          (case rank t env st of
             (st', Inl x) \<Rightarrow> (st', Inl x)
           | (st', Inr []) \<Rightarrow>
               (st', Inr \<lparr>primary_agent_id = None, fallback_agent_ids = [], strategy_name = name st,
                      candidates_evaluated = 0, routed = False\<rparr>)
           | (st', Inr (r # rs)) \<Rightarrow>
               (st', Inr \<lparr>primary_agent_id = Some (agent_id r),
                      fallback_agent_ids = map agent_id (drop 1 (slice_to (r # rs) (1 + max_fallbacks))),
                      strategy_name = name st, candidates_evaluated = length (r # rs),
                      routed = True\<rparr>)))"

definition resolve_or_raise ::
    "(routing_table \<Rightarrow> message_envelope \<Rightarrow> 'st \<Rightarrow> 'st \<times> (exn + agent_record list)) \<Rightarrow> ('st \<Rightarrow> string)
     \<Rightarrow> int \<Rightarrow> routing_table \<Rightarrow> message_envelope \<Rightarrow> 'st \<Rightarrow> 'st \<times> (exn + routing_result)" where
  "resolve_or_raise rank name max_fallbacks t env st =
     (case resolve rank name max_fallbacks t env st of
        (st', Inl x) \<Rightarrow> (st', Inl x)
      | (st', Inr res) \<Rightarrow>
          if routed res then (st', Inr res) else (st', Inl (NoRouteFoundError (message_id env))))"

section \<open>The contract of a strategy\<close>

text \<open>A ranking holds registered, healthy agents of the table, none twice.\<close>

locale ranking_contract =
  fixes rank :: "routing_table \<Rightarrow> message_envelope \<Rightarrow> 'st \<Rightarrow> 'st \<times> (exn + agent_record list)"
  assumes rank_healthy:
      "table_wf t \<Longrightarrow> snd (rank t env st) = Inr rs \<Longrightarrow> set rs \<subseteq> set (list_agents (Some True) t)"
    and rank_distinct:
      "table_wf t \<Longrightarrow> snd (rank t env st) = Inr rs \<Longrightarrow> distinct (map agent_id rs)"
begin

lemma resolve_direct:
  "direct_target t env = Some a \<Longrightarrow>
     \<exists>res. resolve rank name mf t env st = (st, Inr res) \<and> primary_agent_id res = Some a \<and>
       fallback_agent_ids res = [] \<and> routed res"
  by (simp add: resolve_def)

text \<open>What the resolver offers is a prefix of the ranking when no receiver is named.\<close>

lemma resolve_ranked:
  assumes "direct_target t env = None" "snd (rank t env st) = Inr rs"
    "snd (resolve rank name mf t env st) = Inr res"
  shows "all_candidates res = map agent_id (take 1 rs @ drop 1 (slice_to rs (1 + mf)))"
    and "routed res \<longleftrightarrow> rs \<noteq> []" and "candidates_evaluated res = length rs"
    and "primary_agent_id res = (case rs of [] \<Rightarrow> None | r # _ \<Rightarrow> Some (agent_id r))"
proof -
  obtain st' where st: "rank t env st = (st', Inr rs)" using assms(2) by (cases "rank t env st") simp
  show "all_candidates res = map agent_id (take 1 rs @ drop 1 (slice_to rs (1 + mf)))"
    using assms(1,3) st by (cases rs) (auto simp: resolve_def all_candidates_def)
  show "routed res \<longleftrightarrow> rs \<noteq> []" "candidates_evaluated res = length rs"
    "primary_agent_id res = (case rs of [] \<Rightarrow> None | r # _ \<Rightarrow> Some (agent_id r))"
    using assms(1,3) st by (cases rs; auto simp: resolve_def)+
qed

lemma resolve_candidates_prefix:
  assumes "direct_target t env = None" "snd (rank t env st) = Inr rs"
    "snd (resolve rank name mf t env st) = Inr res"
  shows "set (all_candidates res) \<subseteq> agent_id ` set rs"
    "distinct (map agent_id rs) \<Longrightarrow> distinct (all_candidates res)"
proof -
  obtain k where k: "slice_to rs (1 + mf) = take k rs" using slice_to_take by blast
  have c: "all_candidates res = map agent_id (take 1 rs @ drop 1 (take k rs))"
    using resolve_ranked(1) [OF assms] unfolding k .
  have sub: "set (take 1 rs @ drop 1 (take k rs)) \<subseteq> set rs"
    by (auto dest: in_set_takeD in_set_dropD)
  then show "set (all_candidates res) \<subseteq> agent_id ` set rs" unfolding c by auto
  assume "distinct (map agent_id rs)"
  then have "distinct rs" "inj_on agent_id (set rs)" by (auto simp: distinct_map)
  moreover have "distinct (take 1 rs @ drop 1 (take k rs))"
    using \<open>distinct rs\<close> by (cases rs; cases k) (auto dest: in_set_takeD)
  ultimately show "distinct (all_candidates res)"
    unfolding c distinct_map using sub by (blast intro: inj_on_subset)
qed

theorem resolve_sound:
  assumes wf: "table_wf t" and res: "snd (resolve rank name mf t env st) = Inr res"
  shows "(\<forall>a \<in> set (all_candidates res). \<exists>r. get_agent a t = Inr r \<and> healthy r) \<and>
    distinct (all_candidates res)"
proof (cases "direct_target t env")
  case (Some a)
  then have "all_candidates res = [a]" "\<exists>r. get_agent a t = Inr r \<and> healthy r"
    using res by (auto simp: resolve_def all_candidates_def direct_target_def split: if_splits sum.splits)
  then show ?thesis by simp
next
  case None
  then obtain rs where rs: "snd (rank t env st) = Inr rs"
    using res by (auto simp: resolve_def split: prod.splits sum.splits)
  have "\<exists>r. get_agent (agent_id r') t = Inr r \<and> healthy r" if "r' \<in> set rs" for r'
    using that rank_healthy [OF wf rs] list_healthy_iff [OF wf, of r']
    by (auto simp: get_agent_def get_or_raise_def)
  then show ?thesis
    using resolve_candidates_prefix [OF None rs res] rank_distinct [OF wf rs] by fastforce
qed

lemma resolve_fallback_bound:
  assumes "snd (resolve rank name mf t env st) = Inr res" "0 \<le> mf"
  shows "int (length (fallback_agent_ids res)) \<le> mf"
  using assms
  by (auto simp: resolve_def slice_to_def split: option.splits prod.splits sum.splits list.splits)

end

section \<open>Lemmas: what the strategies rank\<close>

lemma sort_key_distinct_ids:
  "distinct (map agent_id (sort_key f rs)) \<longleftrightarrow> distinct (map agent_id rs)"
  by (simp add: distinct_map)

lemma round_robin_perm:
  "mset (snd (round_robin_rank c t)) = mset (list_agents (Some True) t)"
proof (cases "list_agents (Some True) t = []")
  case False
  then show ?thesis unfolding round_robin_rank_def Let_def by (simp only: if_False snd_conv mset_drop_take mset_sort)
qed (simp add: round_robin_rank_def)

lemma index_by_id_distinct:
  assumes "distinct (map agent_id rs)"
  shows "index_by_id rs = map (\<lambda>r. (agent_id r, r)) rs"
proof -
  have "distinct (map fst d @ map agent_id rs) \<Longrightarrow>
      fold (\<lambda>r. dict_set (agent_id r) r) rs d = d @ map (\<lambda>r. (agent_id r, r)) rs" for d
    by (induction rs arbitrary: d) (auto simp: dict_set_keys_notin)
  from this [of "[]"] assms show ?thesis by (simp add: index_by_id_def)
qed

text \<open>Every strategy returns some of the healthy agents, reordered.\<close>

definition part_of :: "agent_record list \<Rightarrow> routing_table \<Rightarrow> bool" where
  "part_of rs t \<longleftrightarrow> (\<exists>P. mset rs = mset (filter P (list_agents (Some True) t)))"

lemma part_ofI: "mset rs = mset (filter P (list_agents (Some True) t)) \<Longrightarrow> part_of rs t"
  unfolding part_of_def by blast

lemma part_of_all: "mset rs = mset (list_agents (Some True) t) \<Longrightarrow> part_of rs t"
  by (rule part_ofI [of _ "\<lambda>_. True"]) simp

lemma part_of_contract:
  assumes "table_wf t" "part_of rs t"
  shows "set rs \<subseteq> set (list_agents (Some True) t) \<and> distinct (map agent_id rs)"
proof -
  obtain P where m: "mset rs = mset (filter P (list_agents (Some True) t))"
    using assms(2) unfolding part_of_def by blast
  show ?thesis unfolding mset_eq_setD [OF m] mset_eq_distinct_map [OF m]
    using list_agents_distinct [OF assms(1)] by (simp add: distinct_map_filter)
qed

lemma capability_match_part:
  assumes "capability_match_rank all tie t env = Inr rs"
  shows "part_of rs t"
proof (cases "required_capabilities env")
  case (Inr required)
  have "\<exists>P. find_by_capabilities required (Some True) all t = filter P (list_agents (Some True) t)"
    by (auto simp: find_by_capabilities_def)
  then obtain P where
    P: "find_by_capabilities required (Some True) all t = filter P (list_agents (Some True) t)" by blast
  define cs where "cs = (if required = {} then list_agents (Some True) t
      else find_by_capabilities required (Some True) all t)"
  have "rs = (if cs = [] then [] else if tie then sort_key current_load cs else cs)"
    using assms Inr unfolding capability_match_rank_def cs_def Let_def by simp
  then have "mset rs = mset cs" by (cases "cs = []") simp_all
  then show ?thesis unfolding cs_def P by (cases "required = {}") (auto intro: part_ofI part_of_all)
qed (use assms in \<open>simp add: capability_match_rank_def\<close>)

lemma cost_aware_part:
  assumes "cost_aware_rank B m t env = Inr rs"
  shows "part_of rs t"
proof (cases "list_agents (Some True) t = []")
  case True
  with assms show ?thesis by (intro part_of_all) (simp add: cost_aware_rank_def)
next
  case False
  show ?thesis
  proof (cases "cost_budget_usd env")
    case None
    with assms False show ?thesis by (intro part_of_all) (auto simp: cost_aware_rank_def Let_def)
  next
    case (Some budget)
    with assms False obtain n where
      "rs = sort_key cost_per_token (filter (\<lambda>r. cost_per_token r * of_int n \<le> budget * (1 - m))
          (list_agents (Some True) t))"
      by (auto simp: cost_aware_rank_def Let_def split: sum.splits)
    then show ?thesis by (intro part_ofI) simp
  qed
qed

lemma composite_result:
  assumes wf: "table_wf t" and rs: "snd (rank_candidates B t env (CompositeRouter ss)) = Inr rs"
    and ne: "list_agents (Some True) t \<noteq> []"
  shows "\<exists>ss' scores. accumulate_scores B t env ss
      (map (\<lambda>r. (agent_id r, 0)) (list_agents (Some True) t)) = (ss', Inr scores) \<and>
    rs = filter (\<lambda>r. dict_get_or scores (agent_id r) 0 > 0)
       (sort_key (\<lambda>r. - dict_get_or scores (agent_id r) 0) (list_agents (Some True) t))"
proof -
  let ?L = "list_agents (Some True) t"
  have ix: "index_by_id ?L = map (\<lambda>r. (agent_id r, r)) ?L"
    by (rule index_by_id_distinct [OF list_agents_distinct [OF wf]])
  obtain ss' res where acc: "accumulate_scores B t env ss (map (\<lambda>r. (agent_id r, 0)) ?L) = (ss', res)"
    by (cases "accumulate_scores B t env ss (map (\<lambda>r. (agent_id r, 0)) ?L)")
  with rs ne show ?thesis
    by (cases res) (simp_all add: ix Let_def comp_def rank_by_scores_def)
qed

lemma composite_empty:
  "table_wf t \<Longrightarrow> list_agents (Some True) t = [] \<Longrightarrow>
     rank_candidates B t env (CompositeRouter ss) = (CompositeRouter ss, Inr [])"
  by (simp add: index_by_id_def)

lemma rank_candidates_part:
  assumes wf: "table_wf t" and rs: "snd (rank_candidates B t env s) = Inr rs"
  shows "part_of rs t"
proof (cases s)
  case (RoundRobinRouter c)
  then show ?thesis
    using rs round_robin_perm [of c t] by (intro part_of_all) (auto split: prod.splits)
next
  case (LeastLoadedRouter c)
  with rs show ?thesis by (intro part_ofI) (auto simp: least_loaded_rank_def)
next
  case (CompositeRouter ss)
  show ?thesis
  proof (cases "list_agents (Some True) t = []")
    case True
    with rs CompositeRouter composite_empty [OF wf True, of B env ss] show ?thesis
      by (intro part_of_all) simp
  next
    case False
    from composite_result [OF wf rs [unfolded CompositeRouter] False] show ?thesis
      by (auto simp: filter_sort intro: part_ofI)
  qed
qed (use rs capability_match_part cost_aware_part in auto)

lemmas rank_candidates_contract = part_of_contract [OF _ rank_candidates_part]

interpretation mesh_ranking: ranking_contract "\<lambda>t env s. rank_candidates B t env s" for B
  by unfold_locales (use rank_candidates_contract in blast)+

section \<open>Specification: fairness and scores\<close>

text \<open>The agents a strategy selects for a sequence of messages against one table.\<close>

fun select_all :: "builtins \<Rightarrow> routing_table \<Rightarrow> message_envelope list \<Rightarrow> strategy
    \<Rightarrow> (exn + agent_record option) list" where
  "select_all B t [] s = []"
| "select_all B t (env # envs) s =
     (case select B t env s of (s', res) \<Rightarrow> res # select_all B t envs s')"

text \<open>The points a ranking gives an agent: the full weight for the first of \<open>n\<close>, one \<open>n\<close>-th less
  for each place below, nothing for an agent that is not ranked.\<close>

fun position_score :: "nat \<Rightarrow> nat \<Rightarrow> rat \<Rightarrow> agent_record list \<Rightarrow> string \<Rightarrow> rat" where
  "position_score n i w [] a = 0"
| "position_score n i w (r # rs) a =
     (if agent_id r = a then of_nat (n - i) / of_nat n * w else position_score n (Suc i) w rs a)"

definition ranking_of :: "builtins \<Rightarrow> routing_table \<Rightarrow> message_envelope \<Rightarrow> strategy \<Rightarrow> agent_record list" where
  "ranking_of B t env s = (case snd (rank_candidates B t env s) of Inl _ \<Rightarrow> [] | Inr rs \<Rightarrow> rs)"

definition weighted_score ::
    "builtins \<Rightarrow> routing_table \<Rightarrow> message_envelope \<Rightarrow> (strategy \<times> rat) list \<Rightarrow> string \<Rightarrow> rat" where
  "weighted_score B t env ss a =
     sum_list (map (\<lambda>(s, w). position_score (length (ranking_of B t env s)) 0 w (ranking_of B t env s) a) ss)"

section \<open>Lemmas: round robin\<close>

abbreviation rr_list :: "routing_table \<Rightarrow> agent_record list" where
  "rr_list t \<equiv> sort_key agent_id (list_agents (Some True) t)"

lemma select_round_robin:
  assumes "list_agents (Some True) t \<noteq> []"
  shows "select B t env (RoundRobinRouter c) =
    (RoundRobinRouter (c + 1), Inr (Some (rr_list t ! nat (c mod int (length (rr_list t))))))"
proof -
  let ?i = "nat (c mod int (length (rr_list t)))"
  have i: "?i < length (rr_list t)" using assms by (simp add: nat_less_iff)
  then have "drop ?i (rr_list t) @ take ?i (rr_list t) =
      rr_list t ! ?i # (drop (Suc ?i) (rr_list t) @ take ?i (rr_list t))"
    by (simp add: Cons_nth_drop_Suc)
  with assms show ?thesis by (simp add: select_def round_robin_rank_def Let_def)
qed

lemma select_all_round_robin:
  assumes "list_agents (Some True) t \<noteq> []"
  shows "select_all B t envs (RoundRobinRouter c) =
    map (\<lambda>i. Inr (Some (rr_list t ! nat ((c + int i) mod int (length (rr_list t)))))) [0..<length envs]"
proof (induction envs arbitrary: c)
  case (Cons env envs)
  show ?case
    by (simp add: select_round_robin [OF assms] Cons.IH upt_conv_Cons map_Suc_upt [symmetric] add.assoc
        del: upt_Suc length_sort)
qed simp

section \<open>Lemmas: composite scores\<close>

lemma position_score_notin: "a \<notin> agent_id ` set rs \<Longrightarrow> position_score n i w rs a = 0"
  by (induction n i w rs a rule: position_score.induct) auto

lemma add_scores_get:
  "distinct (map agent_id rs) \<Longrightarrow>
     dict_get (add_scores n i w rs scores) a =
     map_option (\<lambda>s. s + position_score n i w rs a) (dict_get scores a)"
proof (induction n i w rs scores rule: add_scores.induct)
  case (2 n i w r rs scores)
  then show ?case
    by (cases "dict_get scores (agent_id r)"; cases "agent_id r = a")
      (simp_all add: position_score_notin)
qed (simp add: option.map_ident)

lemma position_score_pos:
  "0 \<le> w \<Longrightarrow> i + length rs \<le> n \<Longrightarrow>
     0 \<le> position_score n i w rs a \<and>
     (position_score n i w rs a > 0 \<longleftrightarrow> w > 0 \<and> a \<in> agent_id ` set rs)"
proof (induction n i w rs a rule: position_score.induct)
  case (2 n i w r rs a)
  define q :: rat where "q = of_nat (n - i) / of_nat n"
  have "0 < q" using "2.prems"(2) by (simp add: q_def)
  then have "0 \<le> q * w \<and> (0 < q * w \<longleftrightarrow> 0 < w)"
    using "2.prems"(1) by (simp add: zero_less_mult_iff)
  with 2 show ?case unfolding position_score.simps q_def by auto
qed simp

lemma accumulate_scores_get:
  assumes wf: "table_wf t"
  shows "snd (accumulate_scores B t env ss scores) = Inr scores' \<Longrightarrow>
    dict_get scores' a = map_option (\<lambda>s. s + weighted_score B t env ss a) (dict_get scores a)"
proof (induction ss arbitrary: scores)
  case Nil
  then show ?case by (simp add: weighted_score_def option.map_ident)
next
  case (Cons p ss)
  obtain s w where p: "p = (s, w)" by (cases p)
  obtain s' res where s': "rank_candidates B t env s = (s', res)" by (cases "rank_candidates B t env s")
  with Cons.prems p obtain rs where rs: "res = Inr rs" by (cases res) auto
  have rk: "ranking_of B t env s = rs" using s' rs by (simp add: ranking_of_def)
  have d: "distinct (map agent_id rs)"
    using rank_candidates_contract [OF wf wf, of B env s rs] s' rs by simp
  let ?sc = "if rs = [] then scores else add_scores (length rs) 0 w rs scores"
  have "snd (accumulate_scores B t env ss ?sc) = Inr scores'"
    using Cons.prems p s' rs by (simp add: case_prod_beta Let_def)
  from Cons.IH [OF this] show ?case
    by (cases "dict_get scores a")
      (auto simp: weighted_score_def p rk add_scores_get [OF d] add.assoc)
qed

lemma weighted_score_pos:
  assumes "\<forall>(s, w) \<in> set ss. 0 \<le> w"
  shows "0 \<le> weighted_score B t env ss a \<and> (weighted_score B t env ss a > 0 \<longleftrightarrow>
    (\<exists>(s, w) \<in> set ss. w > 0 \<and> a \<in> agent_id ` set (ranking_of B t env s)))"
  using assms
proof (induction ss)
  case (Cons p ss)
  obtain s w where p: "p = (s, w)" by (cases p)
  let ?rk = "ranking_of B t env s"
  have "0 \<le> position_score (length ?rk) 0 w ?rk a \<and> (position_score (length ?rk) 0 w ?rk a > 0 \<longleftrightarrow>
      w > 0 \<and> a \<in> agent_id ` set ?rk)"
    using Cons.prems p by (intro position_score_pos) auto
  moreover have "weighted_score B t env (p # ss) a =
      position_score (length ?rk) 0 w ?rk a + weighted_score B t env ss a"
    by (simp add: weighted_score_def p)
  ultimately show ?case using Cons p by (auto simp: add_nonneg_pos add_pos_nonneg)
qed (simp add: weighted_score_def)

text \<open>Two healthy agents, for the examples.\<close>

definition example_table :: routing_table where
  "example_table = foldl table_step (RoutingTable True)
     [RegisterAgent 0 ''a'' (no_args\<lparr>arg_load := Some (1/2), arg_cost := Some 2\<rparr>),
      RegisterAgent 0 ''b'' (no_args\<lparr>arg_load := Some (1/4), arg_cost := Some 3\<rparr>)]"

definition example_agent :: "string \<Rightarrow> rat \<Rightarrow> rat \<Rightarrow> agent_record" where
  "example_agent a l c = \<lparr>agent_id = a, capabilities = {}, cost_per_token = c, current_load = l,
     healthy = True, registered_at = 0, last_heartbeat_at = 0, ar_tags = [], ar_metadata = []\<rparr>"

definition example_envelope :: message_envelope where
  "example_envelope = \<lparr>sender = ''x'', receiver = ''*'', payload = [], message_type = TASK,
      priority = NORMAL, topic = JNull, trace_id = ''t'', parent_message_id = None,
      message_id = ''m'', created_at = 0, ttl_seconds = None, cost_budget_usd = Some 2500,
      env_metadata = []\<rparr>"

definition example_builtins :: builtins where
  "example_builtins = \<lparr>repr_of = (\<lambda>_. []), float_of_str = (\<lambda>_. None), int_of_str = (\<lambda>_. None),
     dict_of_iter = (\<lambda>_. Inr [])\<rparr>"

lemma example_agents:
  "rt_agents example_table =
     [(''a'', example_agent ''a'' (1/2) 2), (''b'', example_agent ''b'' (1/4) 3)]"
  by (simp add: example_table_def register_agent_def validate_load_def validate_cost_def or_zero_def
      no_args_def RoutingTable_def dict_has_def opt_set_def opt_dict_def Let_def example_agent_def)

lemma example_wf: "table_wf example_table"
  unfolding example_table_def
  by (rule table_machine.run_inv) (simp add: table_wf_def RoutingTable_def)

lemma example_list:
  "list_agents (Some True) example_table =
     [example_agent ''a'' (1/2) 2, example_agent ''b'' (1/4) 3]"
  by (simp add: list_agents_def example_agents) (simp add: example_agent_def)

section \<open>Properties\<close>

text \<open>
  C3: The resolver never names a dead end. With any strategy (composites of any depth included),
  on any reachable table, the primary and all fallbacks it returns are registered and healthy
  and no agent is named twice; there are at most \<open>max_fallbacks\<close> fallbacks; a result is routed
  exactly when it has a primary; and a message whose named receiver is registered and healthy
  goes to that receiver.
\<close>

theorem resolver_sound:
  assumes "t = foldl table_step (RoutingTable dh) es"
    "snd (resolve (\<lambda>t env s. rank_candidates B t env s) name mf t env s) = Inr res"
  shows "(\<forall>a \<in> set (all_candidates res). \<exists>r. get_agent a t = Inr r \<and> healthy r) \<and>
    distinct (all_candidates res) \<and> (0 \<le> mf \<longrightarrow> int (length (fallback_agent_ids res)) \<le> mf) \<and>
    (routed res \<longleftrightarrow> primary_agent_id res \<noteq> None) \<and>
    (receiver env \<noteq> '''' \<and> receiver env \<noteq> ''*'' \<and> (\<exists>r. get_agent (receiver env) t = Inr r \<and> healthy r) \<longrightarrow>
       primary_agent_id res = Some (receiver env))"
proof -
  have "table_wf (RoutingTable dh)" by (simp add: table_wf_def RoutingTable_def)
  then have wf: "table_wf t" unfolding assms(1) by (rule table_machine.run_inv)
  have "routed res \<longleftrightarrow> primary_agent_id res \<noteq> None"
    using assms(2) by (auto simp: resolve_def split: option.splits prod.splits sum.splits list.splits)
  moreover have "primary_agent_id res = Some (receiver env)"
    if "receiver env \<noteq> ''''" "receiver env \<noteq> ''*''" "get_agent (receiver env) t = Inr r" "healthy r" for r
  proof -
    have "dict_has (rt_agents t) (receiver env)"
      using that(3) by (auto simp: get_agent_def get_or_raise_def dict_has_def split: option.splits)
    with that have "direct_target t env = Some (receiver env)" by (simp add: direct_target_def)
    with assms(2) show ?thesis by (auto simp: resolve_def)
  qed
  ultimately show ?thesis
    using mesh_ranking.resolve_sound [OF wf assms(2)] mesh_ranking.resolve_fallback_bound [OF assms(2)]
    by blast
qed

theorem resolver_sound_witness:
  "\<exists>res. snd (resolve (\<lambda>t env s. rank_candidates example_builtins t env s) (\<lambda>_. ''LeastLoadedRouter'') 3
      example_table example_envelope (LeastLoadedRouter 1)) = Inr res \<and>
    all_candidates res = [''b'', ''a''] \<and> distinct (all_candidates res)"
proof -
  let ?R = "snd (resolve (\<lambda>t env s. rank_candidates example_builtins t env s) (\<lambda>_. ''LeastLoadedRouter'') 3
      example_table example_envelope (LeastLoadedRouter 1))"
  have "rank_candidates example_builtins example_table example_envelope (LeastLoadedRouter 1) =
      (LeastLoadedRouter 1, Inr [example_agent ''b'' (1/4) 3, example_agent ''a'' (1/2) 2])"
    by (simp add: least_loaded_rank_def example_list) (simp add: example_agent_def)
  then obtain res where res: "?R = Inr res" "all_candidates res = [''b'', ''a'']"
    by (simp add: resolve_def direct_target_def example_envelope_def all_candidates_def slice_to_def
        example_agent_def)
  show ?thesis using resolver_sound [OF example_table_def res(1)] res by blast
qed

text \<open>
  C34: Round-robin routing is fair. Over \<open>k\<close> rounds (\<open>k * n\<close> messages while \<open>n\<close> agents are healthy and
  the table does not change), starting at any counter value, every healthy agent is selected
  exactly \<open>k\<close> times.
\<close>

theorem round_robin_fair:
  assumes "table_wf t" "r \<in> set (list_agents (Some True) t)"
    "length envs = k * length (list_agents (Some True) t)"
  shows "count_list (select_all B t envs (RoundRobinRouter c)) (Inr (Some r)) = k"
proof -
  let ?L = "list_agents (Some True) t"
  let ?f = "\<lambda>r. Inr (Some r) :: exn + agent_record option"
  have ne: "?L \<noteq> []" using assms(2) by auto
  have len: "length envs = k * length (rr_list t)" using assms(3) by simp
  let ?P = "map (\<lambda>i. rr_list t ! nat ((c + int i) mod int (length (rr_list t)))) [0..<k * length (rr_list t)]"
  have picks: "select_all B t envs (RoundRobinRouter c) = map ?f ?P"
    unfolding select_all_round_robin [OF ne] len by (simp only: map_map comp_def)
  have "rr_list t \<noteq> []" using ne length_sort [of agent_id ?L] by (cases "rr_list t") auto
  then have "mset ?P = repeat_mset k (mset (rr_list t))" by (rule rotation_rounds)
  then have "mset (select_all B t envs (RoundRobinRouter c)) = image_mset ?f (repeat_mset k (mset (rr_list t)))"
    unfolding picks mset_map [of ?f] by (rule arg_cong)
  then have "count_list (select_all B t envs (RoundRobinRouter c)) (?f r) =
      count (image_mset ?f (repeat_mset k (mset (rr_list t)))) (?f r)"
    by (simp only: count_mset [symmetric])
  also have "\<dots> = count (repeat_mset k (mset (rr_list t))) r"
    by (rule count_image_inj) (simp add: inj_def)
  also have "\<dots> = k * count (mset ?L) r" by simp
  also have "count (mset ?L) r = 1"
    using assms(2) list_agents_distinct [OF assms(1), of "Some True", THEN distinct_map [THEN iffD1, THEN conjunct1]]
    unfolding distinct_count_atmost_1 by simp
  finally show ?thesis by simp
qed

theorem round_robin_fair_witness:
  "count_list (select_all example_builtins example_table (replicate 6 example_envelope)
     (RoundRobinRouter 5)) (Inr (Some (example_agent ''a'' (1/2) 2))) = 3"
  by (rule round_robin_fair [OF example_wf]) (simp_all add: example_list)

text \<open>
  The least-loaded router offers exactly the healthy agents at or below its ceiling, in order
  of load; the cost-aware router exactly the healthy agents whose estimated cost fits the budget
  less the safety margin, in order of cost. So their first choice is optimal and they come back
  empty-handed only when no agent is eligible.
\<close>

theorem load_and_cost_optimal:
  assumes "table_wf t" "cost_budget_usd env = Some budget"
    "py_int B (dict_get_or (payload env) ''estimated_tokens'' (JInt 1000)) = Inr tokens"
  shows "\<exists>loaded cheap.
    rank_candidates B t env (LeastLoadedRouter c) = (LeastLoadedRouter c, Inr loaded) \<and>
    sorted (map current_load loaded) \<and>
    (\<forall>r. r \<in> set loaded \<longleftrightarrow> dict_get (rt_agents t) (agent_id r) = Some r \<and> healthy r \<and> current_load r \<le> c) \<and>
    rank_candidates B t env (CostAwareRouter m) = (CostAwareRouter m, Inr cheap) \<and>
    sorted (map cost_per_token cheap) \<and>
    (\<forall>r. r \<in> set cheap \<longleftrightarrow> dict_get (rt_agents t) (agent_id r) = Some r \<and> healthy r \<and>
       cost_per_token r * of_int tokens \<le> budget * (1 - m))"
proof -
  let ?L = "list_agents (Some True) t"
  let ?cheap = "sort_key cost_per_token (filter (\<lambda>r. cost_per_token r * of_int tokens \<le> budget * (1 - m)) ?L)"
  have "cost_aware_rank B m t env = Inr ?cheap"
    using assms(2,3) by (simp add: cost_aware_rank_def Let_def)
  then show ?thesis
    using list_healthy_iff [OF assms(1)]
    by (intro exI [of _ "least_loaded_rank c t"] exI [of _ ?cheap]) (auto simp: least_loaded_rank_def)
qed

theorem load_and_cost_optimal_witness:
  "\<exists>cheap. rank_candidates example_builtins example_table example_envelope (CostAwareRouter 0) =
      (CostAwareRouter 0, Inr cheap) \<and>
    (\<forall>r. r \<in> set cheap \<longleftrightarrow> dict_get (rt_agents example_table) (agent_id r) = Some r \<and> healthy r \<and>
       cost_per_token r * of_int 1000 \<le> 2500 * (1 - 0))"
  using load_and_cost_optimal [OF example_wf, of example_envelope 2500 example_builtins 1000 0 0]
  by (simp add: example_envelope_def dict_get_or_def) blast

text \<open>
  The composite router ranks by the weighted position scores of its parts: its candidates are
  exactly the agents that some part with a positive weight ranks, ordered by decreasing total
  score.
\<close>

theorem composite_ranks_by_score:
  assumes wf: "table_wf t" and ss: "mk_CompositeRouter ss = Inr (CompositeRouter ss)"
    and rs: "snd (rank_candidates B t env (CompositeRouter ss)) = Inr rs"
  shows "(\<forall>r. r \<in> set rs \<longleftrightarrow> (\<exists>(s, w) \<in> set ss. w > 0 \<and> r \<in> set (ranking_of B t env s))) \<and>
    sorted_wrt (\<lambda>r r'. weighted_score B t env ss (agent_id r) \<ge> weighted_score B t env ss (agent_id r')) rs"
proof -
  let ?L = "list_agents (Some True) t"
  let ?W = "\<lambda>r. weighted_score B t env ss (agent_id r)"
  have w: "\<forall>(s, w) \<in> set ss. 0 \<le> w"
    using ss by (auto simp: mk_CompositeRouter_def list_ex_iff not_less split: if_splits)
  have sub: "set (ranking_of B t env s) \<subseteq> set ?L" for s
    using rank_candidates_contract [OF wf wf, of B env s]
    by (cases "snd (rank_candidates B t env s)") (simp_all add: ranking_of_def)
  have inj: "r = r'" if "r \<in> set ?L" "r' \<in> set ?L" "agent_id r = agent_id r'" for r r'
    using that list_agents_distinct [OF wf, of "Some True"] by (auto simp: distinct_map inj_on_def)
  have pos: "?W r > 0 \<longleftrightarrow> (\<exists>(s, w) \<in> set ss. w > 0 \<and> r \<in> set (ranking_of B t env s))" if "r \<in> set ?L" for r
  proof -
    have "agent_id r \<in> agent_id ` set (ranking_of B t env s) \<longleftrightarrow> r \<in> set (ranking_of B t env s)" for s
      using inj [OF that] sub [of s] by blast
    then show ?thesis using weighted_score_pos [OF w, of B t env "agent_id r"] by (simp only:)
  qed
  have result: "rs = filter (\<lambda>r. ?W r > 0) (sort_key (\<lambda>r. - ?W r) ?L)"
  proof (cases "?L = []")
    case True
    with rs composite_empty [OF wf True, of B env ss] show ?thesis by simp
  next
    case False
    then obtain ss' scores where
      acc: "accumulate_scores B t env ss (map (\<lambda>r. (agent_id r, 0)) ?L) = (ss', Inr scores)" and
      rs': "rs = filter (\<lambda>r. dict_get_or scores (agent_id r) 0 > 0)
        (sort_key (\<lambda>r. - dict_get_or scores (agent_id r) 0) ?L)"
      using composite_result [OF wf rs] by blast
    have "dict_get_or scores (agent_id r) 0 = ?W r" if "r \<in> set ?L" for r
    proof -
      have "map_of (map (\<lambda>r. (agent_id r, 0::rat)) ?L) (agent_id r) = Some 0"
        using that by (force simp: map_of_eq_Some_iff comp_def list_agents_distinct [OF wf])
      moreover have "snd (accumulate_scores B t env ss (map (\<lambda>r. (agent_id r, 0)) ?L)) = Inr scores"
        using acc by simp
      ultimately show ?thesis
        using accumulate_scores_get [OF wf] by (simp add: dict_get_or_def)
    qed
    then show ?thesis unfolding rs'
      by (intro filter_cong sort_key_cong) simp_all
  qed
  have "sorted (map (\<lambda>r. - ?W r) rs)" unfolding result by (simp add: sorted_filter)
  then have "sorted_wrt (\<lambda>r r'. ?W r \<ge> ?W r') rs" by (simp add: sorted_map sorted_wrt_map)
  moreover have "r \<in> set rs \<longleftrightarrow> (\<exists>(s, w) \<in> set ss. w > 0 \<and> r \<in> set (ranking_of B t env s))" for r
  proof -
    have "r \<in> set rs \<longleftrightarrow> r \<in> set ?L \<and> ?W r > 0" unfolding result by auto
    with pos [of r] sub show ?thesis by blast
  qed
  ultimately show ?thesis by blast
qed

theorem composite_ranks_by_score_witness:
  "\<exists>rs. snd (rank_candidates example_builtins example_table example_envelope
      (CompositeRouter [(LeastLoadedRouter 1, 2), (RoundRobinRouter 0, 1)])) = Inr rs \<and>
    example_agent ''a'' (1/2) 2 \<in> set rs"
proof -
  let ?ss = "[(LeastLoadedRouter 1, 2), (RoundRobinRouter 0, 1)] :: (strategy \<times> rat) list"
  have ll: "least_loaded_rank 1 example_table = [example_agent ''b'' (1/4) 3, example_agent ''a'' (1/2) 2]"
    by (simp add: least_loaded_rank_def example_list) (simp add: example_agent_def)
  have acc: "\<exists>ss' x. accumulate_scores example_builtins example_table example_envelope ?ss sc = (ss', Inr x)" for sc
    by (cases "round_robin_rank 0 example_table") simp
  obtain rs where rs: "snd (rank_candidates example_builtins example_table example_envelope
      (CompositeRouter ?ss)) = Inr rs"
  proof (cases "index_by_id (list_agents (Some True) example_table) = []")
    case True
    then show thesis using that by (simp del: accumulate_scores.simps)
  next
    case False
    then show thesis
      using that acc [of "map (\<lambda>(a, _). (a, 0)) (index_by_id (list_agents (Some True) example_table))"]
      by (auto simp del: accumulate_scores.simps)
  qed
  have "mk_CompositeRouter ?ss = Inr (CompositeRouter ?ss)" by (simp add: mk_CompositeRouter_def)
  note composite_ranks_by_score [OF example_wf this rs, THEN conjunct1, rule_format]
  then have "example_agent ''a'' (1/2) 2 \<in> set rs" by (simp add: ranking_of_def ll)
  with rs show ?thesis by blast
qed

end
