(* ===== verification/Consensus.thy ===== *)
theory Consensus
  imports Messages
begin

text \<open>
  \<open>consensus/protocol.py\<close>: votes, results and the three protocols. A protocol maps the list of
  votes to a result; the clock reading is an argument. The contract the protocols share is the
  locale \<open>consensus_contract\<close>.
\<close>

section \<open>Votes and results\<close>

record vote_record =
  vr_agent_id :: string
  vr_option :: string
  vr_confidence :: rat
  vr_metadata :: "(string, json) dict"

definition VoteRecord :: "string \<Rightarrow> string \<Rightarrow> rat \<Rightarrow> (string, json) dict \<Rightarrow> exn + vote_record" where
  "VoteRecord a opt c md =
     (if blank a then Inl (ValueError ''agent_id'')
      else if blank opt then Inl (ValueError ''option'')
      else if \<not> (0 \<le> c \<and> c \<le> 1) then Inl (ValueError ''confidence'')
      else Inr \<lparr>vr_agent_id = a, vr_option = opt, vr_confidence = c, vr_metadata = md\<rparr>)"

record consensus_result =
  winning_option :: string
  vote_counts :: "(string, nat) dict"
  total_votes :: nat
  agreement_ratio :: rat
  reached_consensus :: bool
  protocol_name :: string
  decided_at :: timestamp
  cr_metadata :: "(string, json) dict"

definition no_consensus_result :: "timestamp \<Rightarrow> string \<Rightarrow> consensus_result" where
  "no_consensus_result now name =
     \<lparr>winning_option = '''', vote_counts = [], total_votes = 0, agreement_ratio = 0,
      reached_consensus = False, protocol_name = name, decided_at = now, cr_metadata = []\<rparr>"

section \<open>Counting\<close>

text \<open>\<open>m[vote.option] = m.get(vote.option, 0) + f(vote)\<close> over the votes: a \<open>Counter\<close> of the
  options for \<open>f = 1\<close>, the weight map for \<open>f = confidence\<close>.\<close>

definition tally :: "(vote_record \<Rightarrow> 'n::{zero, plus}) \<Rightarrow> vote_record list \<Rightarrow> (string, 'n) dict" where
  "tally f votes =
     foldl (\<lambda>d v. dict_set (vr_option v) (dict_get_or d (vr_option v) 0 + f v) d) [] votes"

definition count_votes :: "vote_record list \<Rightarrow> (string, nat) dict" where
  "count_votes votes = tally (\<lambda>_. 1) votes"

definition tiebreak :: "string list \<Rightarrow> string" where
  "tiebreak options = Min (set options)"

definition max_value :: "(string, 'n::linorder) dict \<Rightarrow> 'n" where
  "max_value d = Max (set (dict_values d))"

definition top_options :: "(string, 'n::linorder) dict \<Rightarrow> string list" where
  "top_options d = map fst (filter (\<lambda>(_, c). c = max_value d) d)"

section \<open>Protocols\<close>

definition majority_resolve :: "bool \<Rightarrow> timestamp \<Rightarrow> vote_record list \<Rightarrow> consensus_result" where
  "majority_resolve require_majority now votes =
     (if votes = [] then no_consensus_result now ''majority_vote''
      else
        let counts = count_votes votes;
            n = length votes;
            max_count = max_value counts;
            ratio = of_nat max_count / of_nat n
        in \<lparr>winning_option = tiebreak (top_options counts), vote_counts = counts, total_votes = n,
            agreement_ratio = ratio,
            reached_consensus = \<not> (require_majority \<and> ratio \<le> 1/2 \<and> n > 1),
            protocol_name = ''majority_vote'', decided_at = now, cr_metadata = []\<rparr>)"

definition ConfidenceWeighted :: "rat \<Rightarrow> exn + rat" where
  \<comment> \<open>the check of the constructor; the protocol's only state is the ratio\<close>
  "ConfidenceWeighted r =
     (if 0 \<le> r \<and> r \<le> 1 then Inr r else Inl (ValueError ''min_winning_weight_ratio''))"

definition weighted_resolve :: "rat \<Rightarrow> timestamp \<Rightarrow> vote_record list \<Rightarrow> consensus_result" where
  "weighted_resolve min_ratio now votes =
     (if votes = [] then no_consensus_result now ''confidence_weighted''
      else
        let weights0 = tally vr_confidence votes;
            counts = count_votes votes;
            sum0 = sum_list (dict_values weights0);
            weights = (if sum0 = 0 then map (\<lambda>(opt, c). (opt, of_nat c)) counts else weights0);
            total_weight = (if sum0 = 0 then of_nat (length votes) else sum0);
            max_weight = max_value weights;
            ratio = (if total_weight > 0 then max_weight / total_weight else 0)
        in \<lparr>winning_option = tiebreak (top_options weights), vote_counts = counts,
            total_votes = length votes, agreement_ratio = ratio,
            reached_consensus = (ratio \<ge> min_ratio), protocol_name = ''confidence_weighted'',
            decided_at = now,
            cr_metadata = [(''total_weight'', JFloat total_weight),
              (''winning_weight'', JFloat max_weight)]\<rparr>)"

definition Hierarchical :: "string \<Rightarrow> exn + string" where
  "Hierarchical authority =
     (if blank authority then Inl (ValueError ''authority_agent_id'') else Inr authority)"

definition hierarchical_resolve :: "string \<Rightarrow> timestamp \<Rightarrow> vote_record list \<Rightarrow> consensus_result" where
  "hierarchical_resolve authority now votes =
     (if votes = [] then no_consensus_result now ''hierarchical''
      else
        let authority_votes = filter (\<lambda>v. vr_agent_id v = authority) votes;
            counts = count_votes votes
        in if authority_votes \<noteq> [] then
             (let opt = vr_option (last authority_votes) in
              \<lparr>winning_option = opt, vote_counts = counts, total_votes = length votes,
               agreement_ratio = of_nat (dict_get_or counts opt 0) / of_nat (length votes),
               reached_consensus = True, protocol_name = ''hierarchical'', decided_at = now,
               cr_metadata = [(''authority_overrode'', JBool True), (''authority_id'', JStr authority)]\<rparr>)
           else
             (majority_resolve False now votes)\<lparr>protocol_name := ''hierarchical'',
               cr_metadata := [(''authority_overrode'', JBool False), (''authority_id'', JStr authority)]\<rparr>)"

section \<open>Specification\<close>

text \<open>The votes for an option and the weight behind it.\<close>

definition support :: "vote_record list \<Rightarrow> string \<Rightarrow> nat" where
  "support votes opt = length (filter (\<lambda>v. vr_option v = opt) votes)"

definition weight :: "(vote_record \<Rightarrow> 'n::comm_monoid_add) \<Rightarrow> vote_record list \<Rightarrow> string \<Rightarrow> 'n" where
  "weight f votes opt = sum_list (map f (filter (\<lambda>v. vr_option v = opt) votes))"

definition options_of :: "vote_record list \<Rightarrow> string set" where
  "options_of votes = vr_option ` set votes"

text \<open>
  What every protocol promises: without votes there is no decision; with votes the reported
  tally is the true one and the option named was voted for by somebody.
\<close>

locale consensus_contract =
  fixes decide :: "timestamp \<Rightarrow> vote_record list \<Rightarrow> consensus_result"
  assumes empty_undecided: "\<not> reached_consensus (decide now [])"
    and tally_total: "votes \<noteq> [] \<Longrightarrow> total_votes (decide now votes) = length votes"
    and tally_true: "votes \<noteq> [] \<Longrightarrow> dict_get_or (vote_counts (decide now votes)) opt 0 = support votes opt"
    and winner_voted: "votes \<noteq> [] \<Longrightarrow> winning_option (decide now votes) \<in> options_of votes"
begin

lemma decided_validity:
  "reached_consensus (decide now votes) \<Longrightarrow> \<exists>v \<in> set votes. vr_option v = winning_option (decide now votes)"
  using winner_voted [of votes now] empty_undecided by (cases "votes = []") (auto simp: options_of_def)

lemma unanimity:
  "votes \<noteq> [] \<Longrightarrow> (\<forall>v \<in> set votes. vr_option v = opt) \<Longrightarrow> winning_option (decide now votes) = opt"
  using winner_voted [of votes now] by (auto simp: options_of_def)

lemma winner_supported:
  "votes \<noteq> [] \<Longrightarrow> 0 < dict_get_or (vote_counts (decide now votes)) (winning_option (decide now votes)) 0"
  using winner_voted [of votes now] tally_true [of votes now]
  by (auto simp: options_of_def support_def filter_empty_conv)

end

section \<open>Lemmas: the tally\<close>

lemma tally_fold:
  fixes f :: "vote_record \<Rightarrow> 'n::comm_monoid_add"
  shows "dict_get_or (foldl (\<lambda>d v. dict_set (vr_option v) (dict_get_or d (vr_option v) 0 + f v) d) d votes) opt 0 =
      dict_get_or d opt 0 + weight f votes opt"
    "set (dict_keys (foldl (\<lambda>d v. dict_set (vr_option v) (dict_get_or d (vr_option v) 0 + f v) d) d votes)) =
      set (dict_keys d) \<union> options_of votes"
    "dict_wf d \<Longrightarrow>
      dict_wf (foldl (\<lambda>d v. dict_set (vr_option v) (dict_get_or d (vr_option v) 0 + f v) d) d votes)"
proof -
  show "dict_get_or (foldl (\<lambda>d v. dict_set (vr_option v) (dict_get_or d (vr_option v) 0 + f v) d) d votes) opt 0 =
      dict_get_or d opt 0 + weight f votes opt"
    by (induction votes arbitrary: d) (auto simp: weight_def dict_get_or_set add.assoc)
  show "set (dict_keys (foldl (\<lambda>d v. dict_set (vr_option v) (dict_get_or d (vr_option v) 0 + f v) d) d votes)) =
      set (dict_keys d) \<union> options_of votes"
    by (induction votes arbitrary: d) (auto simp: options_of_def dict_keys_set_set simp del: set_map)
  show "dict_wf d \<Longrightarrow>
      dict_wf (foldl (\<lambda>d v. dict_set (vr_option v) (dict_get_or d (vr_option v) 0 + f v) d) d votes)"
    by (induction votes arbitrary: d) auto
qed

lemma tally_get: "dict_get_or (tally f votes) opt 0 = weight f votes opt"
  for f :: "vote_record \<Rightarrow> 'n::comm_monoid_add"
  using tally_fold(1) [where d = "[]"] by (simp add: tally_def dict_get_or_def)

lemma tally_keys: "set (dict_keys (tally f votes)) = options_of votes"
  for f :: "vote_record \<Rightarrow> 'n::comm_monoid_add"
  using tally_fold(2) [where d = "[]"] by (simp add: tally_def)

lemma tally_wf: "dict_wf (tally f votes)"
  for f :: "vote_record \<Rightarrow> 'n::comm_monoid_add"
  using tally_fold(3) [where d = "[]"] by (simp add: tally_def)

lemma weight_one: "weight (\<lambda>_. 1) votes opt = support votes opt"
  by (simp add: weight_def support_def sum_list_triv)

lemmas count_votes_get = tally_get [of "\<lambda>_. 1 :: nat", folded count_votes_def, unfolded weight_one]
lemmas count_votes_keys = tally_keys [of "\<lambda>_. 1 :: nat", folded count_votes_def]
lemmas count_votes_wf = tally_wf [of "\<lambda>_. 1 :: nat", folded count_votes_def]

lemma sum_list_dict_set:
  fixes x :: "'n::comm_monoid_add"
  shows "sum_list (dict_values (dict_set k (dict_get_or d k 0 + x) d)) = sum_list (dict_values d) + x"
  by (induction d) (auto simp: dict_get_or_def ac_simps)

lemma tally_sum:
  fixes f :: "vote_record \<Rightarrow> 'n::comm_monoid_add"
  shows "sum_list (dict_values (tally f votes)) = sum_list (map f votes)"
proof -
  have "sum_list (dict_values (foldl (\<lambda>d v. dict_set (vr_option v) (dict_get_or d (vr_option v) 0 + f v) d) d votes)) =
      sum_list (dict_values d) + sum_list (map f votes)" for d
    by (induction votes arbitrary: d) (simp_all add: sum_list_dict_set add.assoc)
  from this [of "[]"] show ?thesis by (simp add: tally_def)
qed
section \<open>Lemmas: the winner\<close>

text \<open>The option that leads a scoring of the options voted for: none scores higher, and of those
  that score the same it is the smallest.\<close>

definition leads :: "vote_record list \<Rightarrow> (string \<Rightarrow> 'n::linorder) \<Rightarrow> string \<Rightarrow> bool" where
  "leads votes score w \<longleftrightarrow> w \<in> options_of votes \<and>
     (\<forall>opt \<in> options_of votes. score opt < score w \<or> score opt = score w \<and> w \<le> opt)"

lemma leads_unique: "leads votes score w \<Longrightarrow> leads votes score w' \<Longrightarrow> w = w'"
  unfolding leads_def by (metis antisym less_asym less_irrefl)

lemma top_options_set:
  "dict_wf d \<Longrightarrow> set (top_options d) = {k. dict_get d k = Some (max_value d)}"
  by (force simp: top_options_def map_of_eq_Some_iff)

lemma max_value_attained:
  assumes "dict_wf d" "d \<noteq> []"
  shows "\<exists>k. dict_get d k = Some (max_value d)"
  using Max_in [of "set (dict_values d)"] assms dict_values_mem [OF assms(1), of "max_value d"]
  by (simp add: max_value_def)

lemma max_value_ge: "dict_get d k = Some v \<Longrightarrow> v \<le> max_value d"
  unfolding max_value_def by (rule Max_ge) (auto dest: map_of_SomeD intro: rev_image_eqI)

lemma winner_leads:
  assumes wf: "dict_wf d" and keys: "set (dict_keys d) = options_of votes" and ne: "votes \<noteq> []"
    and score: "\<And>opt v. dict_get d opt = Some v \<Longrightarrow> v = score opt"
  shows "leads votes score (tiebreak (top_options d)) \<and> max_value d = score (tiebreak (top_options d))"
proof -
  let ?w = "tiebreak (top_options d)"
  have "d \<noteq> []" using keys ne by (auto simp: options_of_def)
  then obtain k where "dict_get d k = Some (max_value d)" using max_value_attained [OF wf] by blast
  then have "k \<in> set (top_options d)" using top_options_set [OF wf] by simp
  then have "top_options d \<noteq> []" by auto
  then have "?w \<in> set (top_options d)" and min: "\<And>k. k \<in> set (top_options d) \<Longrightarrow> ?w \<le> k"
    by (simp_all add: tiebreak_def)
  then have w: "dict_get d ?w = Some (max_value d)" using top_options_set [OF wf] by simp
  have "score opt < score ?w \<or> score opt = score ?w \<and> ?w \<le> opt" if mem: "opt \<in> options_of votes" for opt
  proof -
    obtain v where v: "dict_get d opt = Some v"
      using mem dict_has_iff [of d opt] unfolding keys dict_has_def by auto
    then have "v \<le> max_value d" by (rule max_value_ge)
    moreover have "?w \<le> opt" if "v = max_value d"
      using that v min top_options_set [OF wf] by simp
    ultimately show ?thesis using score [OF v] score [OF w] by (auto simp: order.order_iff_strict)
  qed
  moreover have "?w \<in> options_of votes"
    using w dict_has_iff [of d ?w] unfolding keys dict_has_def by simp
  ultimately show ?thesis using score [OF w] by (simp add: leads_def)
qed

lemma count_votes_leads:
  assumes "votes \<noteq> []"
  shows "leads votes (support votes) (tiebreak (top_options (count_votes votes)))"
    "max_value (count_votes votes) = support votes (tiebreak (top_options (count_votes votes)))"
proof -
  have "v = support votes opt" if "dict_get (count_votes votes) opt = Some v" for opt v
    using that count_votes_get [of votes opt] by (simp add: dict_get_or_def)
  from winner_leads [OF count_votes_wf count_votes_keys assms this]
  show "leads votes (support votes) (tiebreak (top_options (count_votes votes)))"
    "max_value (count_votes votes) = support votes (tiebreak (top_options (count_votes votes)))" by auto
qed

lemma support_sum_le: "opt \<noteq> opt' \<Longrightarrow> support votes opt + support votes opt' \<le> length votes"
  by (induction votes) (auto simp: support_def)

lemma support_le: "support votes opt \<le> length votes"
  by (simp add: support_def)

lemma support_pos_iff: "0 < support votes opt \<longleftrightarrow> opt \<in> options_of votes"
  by (auto simp: support_def options_of_def filter_empty_conv)

lemma support_perm: "mset votes = mset votes' \<Longrightarrow> support votes = support votes'"
  unfolding support_def by (intro ext) (metis mset_filter size_mset)

lemma options_perm: "mset votes = mset votes' \<Longrightarrow> options_of votes = options_of votes'"
  unfolding options_of_def by (drule mset_eq_setD) simp

lemma majority_leads:
  assumes "votes \<noteq> []"
  shows "leads votes (support votes) (winning_option (majority_resolve req now votes))"
    "agreement_ratio (majority_resolve req now votes) =
       of_nat (support votes (winning_option (majority_resolve req now votes))) / of_nat (length votes)"
proof -
  have w: "winning_option (majority_resolve req now votes) = tiebreak (top_options (count_votes votes))"
    and r: "agreement_ratio (majority_resolve req now votes) =
      of_nat (max_value (count_votes votes)) / of_nat (length votes)"
    unfolding majority_resolve_def Let_def if_not_P [OF assms] by (simp_all only: consensus_result.simps)
  show "leads votes (support votes) (winning_option (majority_resolve req now votes))"
    unfolding w by (rule count_votes_leads(1) [OF assms])
  show "agreement_ratio (majority_resolve req now votes) =
       of_nat (support votes (winning_option (majority_resolve req now votes))) / of_nat (length votes)"
    unfolding w r count_votes_leads(2) [OF assms] ..
qed

lemma majority_reached:
  assumes "votes \<noteq> []"
  shows "reached_consensus (majority_resolve req now votes) \<longleftrightarrow>
    \<not> req \<or> length votes < 2 * support votes (winning_option (majority_resolve req now votes)) \<or>
    length votes = 1"
proof -
  let ?n = "length votes" and ?c = "support votes (tiebreak (top_options (count_votes votes)))"
  have n: "?n > 0" using assms by simp
  have "(of_nat ?c :: rat) / of_nat ?n \<le> 1/2 \<longleftrightarrow> (of_nat (2 * ?c) :: rat) \<le> of_nat ?n"
    using n by (simp add: divide_le_eq field_simps)
  then have "(of_nat ?c :: rat) / of_nat ?n \<le> 1/2 \<longleftrightarrow> 2 * ?c \<le> ?n" by (simp only: of_nat_le_iff)
  moreover have "1 < ?n \<longleftrightarrow> ?n \<noteq> 1" using n by linarith
  ultimately show ?thesis
    using assms by (simp add: majority_resolve_def Let_def count_votes_leads(2)) linarith
qed

lemma weighted_leads:
  assumes ne: "votes \<noteq> []" and conf: "\<forall>v \<in> set votes. 0 \<le> vr_confidence v"
  shows "leads votes (if \<forall>v \<in> set votes. vr_confidence v = 0 then of_nat \<circ> support votes
      else weight vr_confidence votes) (winning_option (weighted_resolve mr now votes))"
proof (cases "\<forall>v \<in> set votes. vr_confidence v = 0")
  case True
  then have s: "sum_list (map vr_confidence votes) = 0" by (induction votes) simp_all
  let ?d = "map (\<lambda>(opt, c). (opt, rat_of_nat c)) (count_votes votes)"
  have keys: "map fst ?d = dict_keys (count_votes votes)" by (rule dict_keys_map)
  have get: "dict_get ?d opt = map_option of_nat (dict_get (count_votes votes) opt)" for opt
    by (rule map_of_map_values)
  have score: "v = (of_nat \<circ> support votes) opt" if "dict_get ?d opt = Some v" for opt v
    using that count_votes_get [of votes opt] by (auto simp: get dict_get_or_def)
  have "dict_wf ?d" "set (dict_keys ?d) = options_of votes"
    unfolding keys by (rule count_votes_wf, rule count_votes_keys)
  from winner_leads [OF this ne score, THEN conjunct1]
  have "leads votes (rat_of_nat \<circ> support votes) (tiebreak (top_options ?d))" .
  with True s ne show ?thesis
    by (simp add: weighted_resolve_def Let_def tally_sum)
next
  case False
  then have s: "sum_list (map vr_confidence votes) \<noteq> 0"
    using conf by (subst sum_list_nonneg_eq_0_iff) auto
  have score: "v = weight vr_confidence votes opt" if "dict_get (tally vr_confidence votes) opt = Some v" for opt v
    using that tally_get [of vr_confidence votes opt] by (simp add: dict_get_or_def)
  from winner_leads [OF tally_wf tally_keys ne score, THEN conjunct1] False s ne show ?thesis
    by (auto simp: weighted_resolve_def Let_def tally_sum)
qed

lemma weighted_ratio_bounds:
  assumes ne: "votes \<noteq> []" and conf: "\<forall>v \<in> set votes. 0 \<le> vr_confidence v"
  shows "0 \<le> agreement_ratio (weighted_resolve mr now votes) \<and>
    agreement_ratio (weighted_resolve mr now votes) \<le> 1"
proof -
  have bound: "0 \<le> max_value d \<and> max_value d \<le> sum_list (dict_values d)"
    if d: "d \<noteq> []" "\<forall>x \<in> set (dict_values d). 0 \<le> x" for d :: "(string, rat) dict"
  proof -
    have "max_value d \<in> set (dict_values d)" unfolding max_value_def using d(1) by (intro Max_in) auto
    with d(2) show ?thesis using member_le_sum_list [of "max_value d" "dict_values d"] by auto
  qed
  let ?w = "tally vr_confidence votes" and ?c = "map (\<lambda>(opt, c). (opt, rat_of_nat c)) (count_votes votes)"
  have keys: "dict_keys ?w \<noteq> []" "dict_keys ?c \<noteq> []"
    using tally_keys [of vr_confidence votes] count_votes_keys [of votes] ne
    unfolding dict_keys_map by (force simp: options_of_def simp del: set_map)+
  have csum: "sum_list (dict_values ?c) = of_nat (length votes)"
  proof -
    have "sum_list (dict_values (map (\<lambda>(opt, c). (opt, rat_of_nat c)) d)) =
        of_nat (sum_list (dict_values d))" for d :: "(string, nat) dict"
      by (induction d) auto
    then show ?thesis by (simp add: count_votes_def tally_sum sum_list_triv)
  qed
  have wnn: "\<forall>x \<in> set (dict_values ?w). 0 \<le> x"
  proof
    fix x assume "x \<in> set (dict_values ?w)"
    then obtain opt where "dict_get ?w opt = Some x" using dict_values_mem [OF tally_wf] by blast
    then have "x = weight vr_confidence votes opt"
      using tally_get [of vr_confidence votes opt] by (simp add: dict_get_or_def)
    with conf show "0 \<le> x" by (auto simp: weight_def intro!: sum_list_nonneg)
  qed
  have b: "0 \<le> max_value ?w \<and> max_value ?w \<le> sum_list (dict_values ?w)"
    "0 \<le> max_value ?c \<and> max_value ?c \<le> sum_list (dict_values ?c)"
  proof -
    show "0 \<le> max_value ?w \<and> max_value ?w \<le> sum_list (dict_values ?w)"
      using keys(1) wnn by (intro bound) simp_all
    show "0 \<le> max_value ?c \<and> max_value ?c \<le> sum_list (dict_values ?c)"
      using keys(2) by (intro bound) auto
  qed
  show ?thesis
    using b ne csum by (auto simp: weighted_resolve_def Let_def divide_le_eq split: if_splits)
qed

text \<open>The three protocols keep the contract.\<close>

interpretation majority_vote: consensus_contract "majority_resolve req" for req
proof unfold_locales
  fix now votes opt assume ne: "votes \<noteq> ([] :: vote_record list)"
  show "total_votes (majority_resolve req now votes) = length votes"
    "dict_get_or (vote_counts (majority_resolve req now votes)) opt 0 = support votes opt"
    using ne by (simp_all add: majority_resolve_def Let_def count_votes_get)
  show "winning_option (majority_resolve req now votes) \<in> options_of votes"
    using majority_leads(1) [OF ne] by (simp add: leads_def)
qed (simp add: majority_resolve_def no_consensus_result_def)

lemma weighted_winner_voted:
  assumes ne: "votes \<noteq> []"
  shows "winning_option (weighted_resolve mr now votes) \<in> options_of votes"
proof -
  have "tiebreak (top_options d) \<in> options_of votes"
    if "dict_wf d" "set (dict_keys d) = options_of votes" for d :: "(string, rat) dict"
    using winner_leads [OF that ne, of "\<lambda>k. the (dict_get d k)"] by (simp add: leads_def)
  from this [OF tally_wf tally_keys] this [of "map (\<lambda>(opt, c). (opt, of_nat c)) (count_votes votes)"] ne
  show ?thesis
    unfolding dict_keys_map by (simp add: weighted_resolve_def Let_def count_votes_wf count_votes_keys
      del: set_map)
qed

interpretation confidence_weighted: consensus_contract "weighted_resolve mr" for mr
  by unfold_locales
    (simp_all add: weighted_winner_voted, simp_all add: weighted_resolve_def Let_def count_votes_get
      no_consensus_result_def)

lemma hierarchical_cases:
  assumes "votes \<noteq> []"
  shows "(if \<exists>v \<in> set votes. vr_agent_id v = a
      then winning_option (hierarchical_resolve a now votes) =
             vr_option (last (filter (\<lambda>v. vr_agent_id v = a) votes)) \<and>
           reached_consensus (hierarchical_resolve a now votes)
      else winning_option (hierarchical_resolve a now votes) =
             winning_option (majority_resolve False now votes) \<and>
           reached_consensus (hierarchical_resolve a now votes))"
  using assms by (auto simp: hierarchical_resolve_def Let_def majority_reached filter_empty_conv)

interpretation hierarchical: consensus_contract "hierarchical_resolve a" for a
proof unfold_locales
  fix now votes opt assume ne: "votes \<noteq> ([] :: vote_record list)"
  show "total_votes (hierarchical_resolve a now votes) = length votes"
    "dict_get_or (vote_counts (hierarchical_resolve a now votes)) opt 0 = support votes opt"
    using ne majority_vote.tally_total [OF ne] majority_vote.tally_true [OF ne]
    by (simp_all add: hierarchical_resolve_def Let_def count_votes_get)
  show "winning_option (hierarchical_resolve a now votes) \<in> options_of votes"
  proof (cases "\<exists>v \<in> set votes. vr_agent_id v = a")
    case True
    then have "last (filter (\<lambda>v. vr_agent_id v = a) votes) \<in> set (filter (\<lambda>v. vr_agent_id v = a) votes)"
      by (intro last_in_set) (auto simp: filter_empty_conv)
    with True hierarchical_cases [OF ne, of a now] show ?thesis by (auto simp: options_of_def)
  next
    case False
    with hierarchical_cases [OF ne, of a now] majority_vote.winner_voted [OF ne] show ?thesis by simp
  qed
qed (simp add: hierarchical_resolve_def no_consensus_result_def)

section \<open>Properties\<close>

text \<open>
  C12: Majority vote elects correctly: the winner leads the vote count, ties going to the
  lexicographically smallest option, so the order in which the votes arrive does not matter;
  consensus is reached exactly when more than half of the votes are for the winner (or a single
  vote was cast, or a plurality is enough); and an option with more than half of the votes
  always wins.
\<close>

theorem majority_vote_correct:
  assumes "votes \<noteq> []"
  shows "leads votes (support votes) (winning_option (majority_resolve req now votes)) \<and>
    (reached_consensus (majority_resolve req now votes) \<longleftrightarrow>
       \<not> req \<or> length votes < 2 * support votes (winning_option (majority_resolve req now votes)) \<or>
       length votes = 1) \<and>
    (\<forall>opt. length votes < 2 * support votes opt \<longrightarrow>
       winning_option (majority_resolve req now votes) = opt \<and>
       reached_consensus (majority_resolve req now votes)) \<and>
    (\<forall>votes'. mset votes' = mset votes \<longrightarrow>
       winning_option (majority_resolve req now' votes') = winning_option (majority_resolve req now votes) \<and>
       reached_consensus (majority_resolve req now' votes') = reached_consensus (majority_resolve req now votes))"
proof -
  let ?r = "majority_resolve req now votes"
  have lead: "leads votes (support votes) (winning_option ?r)" using assms by (rule majority_leads)
  have major: "winning_option ?r = opt \<and> reached_consensus ?r" if opt: "length votes < 2 * support votes opt" for opt
  proof -
    have "opt \<in> options_of votes" using opt support_pos_iff [of votes opt] by simp
    then have "support votes opt \<le> support votes (winning_option ?r)"
      using lead unfolding leads_def by (metis less_imp_le order_refl)
    with opt have "winning_option ?r = opt" using support_sum_le [of "winning_option ?r" opt votes] by linarith
    with opt show ?thesis using majority_reached [OF assms, of req now] by simp
  qed
  have perm: "winning_option (majority_resolve req now' votes') = winning_option ?r \<and>
      reached_consensus (majority_resolve req now' votes') = reached_consensus ?r"
    if m: "mset votes' = mset votes" for votes'
  proof -
    have ne: "votes' \<noteq> []" using m assms by auto
    have "leads votes (support votes) (winning_option (majority_resolve req now' votes'))"
      using majority_leads(1) [OF ne] unfolding leads_def support_perm [OF m] options_perm [OF m] .
    then have "winning_option (majority_resolve req now' votes') = winning_option ?r"
      using lead by (rule leads_unique)
    then show ?thesis
      using majority_reached [OF ne, of req now'] majority_reached [OF assms, of req now]
        support_perm [OF m] mset_eq_length [OF m] by simp
  qed
  show ?thesis using lead majority_reached [OF assms] major perm by blast
qed

theorem majority_vote_correct_witness:
  "winning_option (majority_resolve True 0
     [\<lparr>vr_agent_id = ''a'', vr_option = ''yes'', vr_confidence = 1, vr_metadata = []\<rparr>,
      \<lparr>vr_agent_id = ''b'', vr_option = ''no'', vr_confidence = 1, vr_metadata = []\<rparr>,
      \<lparr>vr_agent_id = ''c'', vr_option = ''yes'', vr_confidence = 1, vr_metadata = []\<rparr>]) = ''yes''"
proof -
  let ?v = "[\<lparr>vr_agent_id = ''a'', vr_option = ''yes'', vr_confidence = 1, vr_metadata = []\<rparr>,
      \<lparr>vr_agent_id = ''b'', vr_option = ''no'', vr_confidence = 1, vr_metadata = []\<rparr>,
      \<lparr>vr_agent_id = ''c'', vr_option = ''yes'', vr_confidence = 1, vr_metadata = []\<rparr>]"
  have "length ?v < 2 * support ?v ''yes''" by (simp add: support_def)
  then show ?thesis using majority_vote_correct [of ?v True 0 0] by blast
qed

text \<open>
  Confidence-weighted voting elects the option with the greatest total confidence (ties to the
  smallest option); when every confidence is zero it elects by plurality; the agreement ratio is
  between 0 and 1 and consensus is reached exactly when it is at least the configured minimum.
\<close>

theorem confidence_weighted_correct:
  assumes "votes \<noteq> []" "\<forall>v \<in> set votes. 0 \<le> vr_confidence v"
  shows "leads votes (if \<forall>v \<in> set votes. vr_confidence v = 0 then of_nat \<circ> support votes
      else weight vr_confidence votes) (winning_option (weighted_resolve mr now votes)) \<and>
    0 \<le> agreement_ratio (weighted_resolve mr now votes) \<and>
    agreement_ratio (weighted_resolve mr now votes) \<le> 1 \<and>
    (reached_consensus (weighted_resolve mr now votes) \<longleftrightarrow>
       mr \<le> agreement_ratio (weighted_resolve mr now votes))"
  using weighted_leads [OF assms] weighted_ratio_bounds [OF assms] assms(1)
  by (simp add: weighted_resolve_def Let_def)

theorem confidence_weighted_correct_witness:
  "winning_option (weighted_resolve 0 0
     [\<lparr>vr_agent_id = ''a'', vr_option = ''yes'', vr_confidence = 9/10, vr_metadata = []\<rparr>,
      \<lparr>vr_agent_id = ''b'', vr_option = ''no'', vr_confidence = 1/10, vr_metadata = []\<rparr>]) = ''yes''"
proof -
  let ?v = "[\<lparr>vr_agent_id = ''a'', vr_option = ''yes'', vr_confidence = 9/10, vr_metadata = []\<rparr>,
      \<lparr>vr_agent_id = ''b'', vr_option = ''no'', vr_confidence = 1/10, vr_metadata = []\<rparr>]"
  have "leads ?v (weight vr_confidence ?v) (winning_option (weighted_resolve 0 0 ?v))"
    using confidence_weighted_correct [of ?v 0 0] by simp
  then show ?thesis by (auto simp: leads_def options_of_def weight_def)
qed

text \<open>
  Every protocol decides only on options that somebody voted for, reports the true tally and
  follows a unanimous vote; in the hierarchical protocol the authority's last vote decides,
  whatever the others say, and without it the plurality of the votes does.
\<close>

theorem consensus_validity:
  assumes "votes \<noteq> []"
    "decide \<in> {majority_resolve req, weighted_resolve mr, hierarchical_resolve a}"
  shows "winning_option (decide now votes) \<in> options_of votes \<and>
    total_votes (decide now votes) = length votes \<and>
    (\<forall>opt. dict_get_or (vote_counts (decide now votes)) opt 0 = support votes opt) \<and>
    (\<forall>opt. (\<forall>v \<in> set votes. vr_option v = opt) \<longrightarrow> winning_option (decide now votes) = opt) \<and>
    reached_consensus (hierarchical_resolve a now votes) \<and>
    (\<forall>vs v ws. votes = vs @ v # ws \<and> vr_agent_id v = a \<and> (\<forall>w \<in> set ws. vr_agent_id w \<noteq> a) \<longrightarrow>
       winning_option (hierarchical_resolve a now votes) = vr_option v) \<and>
    ((\<forall>v \<in> set votes. vr_agent_id v \<noteq> a) \<longrightarrow>
       leads votes (support votes) (winning_option (hierarchical_resolve a now votes)))"
proof -
  note facts = majority_vote.winner_voted majority_vote.tally_total majority_vote.tally_true
    confidence_weighted.winner_voted confidence_weighted.tally_total confidence_weighted.tally_true
    hierarchical.winner_voted hierarchical.tally_total hierarchical.tally_true
  have "winning_option (decide now votes) \<in> options_of votes"
    "total_votes (decide now votes) = length votes"
    "\<forall>opt. dict_get_or (vote_counts (decide now votes)) opt 0 = support votes opt"
    using assms(2) facts [OF assms(1)] by auto
  moreover from this(1) have "\<forall>opt. (\<forall>v \<in> set votes. vr_option v = opt) \<longrightarrow> winning_option (decide now votes) = opt"
    by (auto simp: options_of_def)
  moreover have "reached_consensus (hierarchical_resolve a now votes)"
    using hierarchical_cases [OF assms(1), of a now] by (simp split: if_splits)
  moreover have "winning_option (hierarchical_resolve a now votes) = vr_option v"
    if v: "votes = vs @ v # ws" "vr_agent_id v = a" "\<forall>w \<in> set ws. vr_agent_id w \<noteq> a" for vs v ws
  proof -
    have "filter (\<lambda>v. vr_agent_id v = a) votes = filter (\<lambda>v. vr_agent_id v = a) vs @ [v]"
      using v by (auto simp: filter_empty_conv)
    then show ?thesis using hierarchical_cases [OF assms(1), of a now] v(1,2) by auto
  qed
  moreover have "leads votes (support votes) (winning_option (hierarchical_resolve a now votes))"
    if "\<forall>v \<in> set votes. vr_agent_id v \<noteq> a"
    using that hierarchical_cases [OF assms(1), of a now] majority_leads(1) [OF assms(1)] by auto
  ultimately show ?thesis by blast
qed

theorem consensus_validity_witness:
  "winning_option (hierarchical_resolve ''lead'' 0
     [\<lparr>vr_agent_id = ''lead'', vr_option = ''deploy'', vr_confidence = 1, vr_metadata = []\<rparr>,
      \<lparr>vr_agent_id = ''b'', vr_option = ''rollback'', vr_confidence = 1, vr_metadata = []\<rparr>]) = ''deploy''"
proof -
  let ?x = "\<lparr>vr_agent_id = ''lead'', vr_option = ''deploy'', vr_confidence = 1, vr_metadata = []\<rparr>"
  let ?y = "\<lparr>vr_agent_id = ''b'', vr_option = ''rollback'', vr_confidence = 1, vr_metadata = []\<rparr>"
  have "[?x, ?y] = [] @ ?x # [?y] \<and> vr_agent_id ?x = ''lead'' \<and> (\<forall>w \<in> set [?y]. vr_agent_id w \<noteq> ''lead'')"
    by simp
  with consensus_validity [of "[?x, ?y]" "majority_resolve True" True 0 "''lead''" 0]
  have "winning_option (hierarchical_resolve ''lead'' 0 [?x, ?y]) = vr_option ?x" by blast
  then show ?thesis by simp
qed

end
