(* ===== verification/Reports.thy ===== *)
theory Reports
  imports Deadlock_Detector Consensus Resource_Quota
begin

text \<open>
  What the detector of \<open>deadlock/detector.py\<close>, the protocols of \<open>consensus/protocol.py\<close> and the quota
  enforcer of \<open>quotas/resource_quota.py\<close> report: the dictionaries for JSON and the summaries in one
  line. The text of a time, the quoted form of a string and a percentage are arguments.
\<close>

section \<open>Text\<close>

definition digit :: "nat \<Rightarrow> char" where
  "digit n = char_of (48 + n)"

fun str_nat :: "nat \<Rightarrow> string" where
  "str_nat n = (if n < 10 then [digit n] else str_nat (n div 10) @ [digit (n mod 10)])"

declare str_nat.simps [simp del]

fun join_with :: "string \<Rightarrow> string list \<Rightarrow> string" where
  "join_with sep [] = []"
| "join_with sep [s] = s"
| "join_with sep (s # ss) = s @ sep @ join_with sep ss"

section \<open>Deadlocks\<close>

definition wait_edge_str :: "wait_edge \<Rightarrow> string" where
  "wait_edge_str e =
     we_waiter e @ '' -waits-for-> '' @ we_holder e @
     (if we_resource_id e \<noteq> [] then '' ['' @ we_resource_id e @ '']'' else [])"

definition cycle_count :: "deadlock_result \<Rightarrow> nat" where
  "cycle_count r = length (dr_cycles r)"

definition deadlock_summary :: "(timestamp \<Rightarrow> string) \<Rightarrow> deadlock_result \<Rightarrow> string" where
  "deadlock_summary isoformat r =
     (if \<not> has_deadlock r
      then ''No deadlock detected. Checked '' @ str_nat (dr_node_count r) @ '' agents, '' @ str_nat (dr_edge_count r) @
           '' edges at '' @ isoformat (dr_checked_at r) @ ''.''
      else ''DEADLOCK: '' @ str_nat (cycle_count r) @ '' cycle(s) found. '' @
           join_with '' | '' (map (join_with '' -> '') (dr_cycles r)))"

definition deadlock_to_dict :: "(timestamp \<Rightarrow> string) \<Rightarrow> deadlock_result \<Rightarrow> (string, json) dict" where
  "deadlock_to_dict isoformat r =
     [(''has_deadlock'', JBool (has_deadlock r)),
      (''cycle_count'', JInt (int (cycle_count r))),
      (''cycles'', JList (map (\<lambda>c. JList (map JStr c)) (dr_cycles r))),
      (''checked_at'', JStr (isoformat (dr_checked_at r))),
      (''node_count'', JInt (int (dr_node_count r))),
      (''edge_count'', JInt (int (dr_edge_count r)))]"

definition dd_edge_list :: "deadlock_detector \<Rightarrow> wait_edge list" where
  "dd_edge_list d = dd_edges d"

definition dd_len :: "deadlock_detector \<Rightarrow> nat" where
  "dd_len d = length (dd_graph d)"

definition dd_contains :: "deadlock_detector \<Rightarrow> string \<Rightarrow> bool" where
  "dd_contains d a = dict_has (dd_graph d) a"

section \<open>Consensus\<close>

text \<open>The long dash of the message is written as a hyphen.\<close>

definition consensus_summary :: "(string \<Rightarrow> string) \<Rightarrow> (rat \<Rightarrow> string) \<Rightarrow> consensus_result \<Rightarrow> string" where
  "consensus_summary quoted percent r =
     (if \<not> reached_consensus r then ''['' @ protocol_name r @ ''] No consensus - 0 votes submitted.''
      else ''['' @ protocol_name r @ ''] Consensus: '' @ quoted (winning_option r) @ '' ('' @
           str_nat (dict_get_or (vote_counts r) (winning_option r) 0) @ ''/'' @ str_nat (total_votes r) @
           '' votes, agreement='' @ percent (agreement_ratio r) @ '')'')"

definition consensus_to_dict :: "(timestamp \<Rightarrow> string) \<Rightarrow> consensus_result \<Rightarrow> (string, json) dict" where
  "consensus_to_dict isoformat r =
     [(''winning_option'', JStr (winning_option r)),
      (''vote_counts'', JObj (map (\<lambda>(k, n). (k, JInt (int n))) (vote_counts r))),
      (''total_votes'', JInt (int (total_votes r))),
      (''agreement_ratio'', JFloat (agreement_ratio r)),
      (''reached_consensus'', JBool (reached_consensus r)),
      (''protocol_name'', JStr (protocol_name r)),
      (''decided_at'', JStr (isoformat (decided_at r))),
      (''metadata'', JObj (cr_metadata r))]"

section \<open>Quotas\<close>

text \<open>\<open>QuotaUsage.to_dict\<close> of the snapshot that \<open>usage\<close> makes for an agent.\<close>

definition usage_to_dict :: "(timestamp \<Rightarrow> string) \<Rightarrow> timestamp \<Rightarrow> string \<Rightarrow> usage_map \<Rightarrow> (string, json) dict" where
  "usage_to_dict isoformat now a u =
     [(''agent_id'', JStr a),
      (''tokens_used'', JFloat (u Tokens)),
      (''memory_mb_used'', JFloat (u Memory_mb)),
      (''cpu_seconds_used'', JFloat (u Cpu_seconds)),
      (''api_calls_used'', JFloat (u Api_calls)),
      (''snapshotted_at'', JStr (isoformat now))]"

definition qe_len :: "quota_enforcer \<Rightarrow> nat" where
  "qe_len e = length (qe_quotas e)"

definition qe_contains :: "quota_enforcer \<Rightarrow> string \<Rightarrow> bool" where
  "qe_contains e a = dict_has (qe_quotas e) a"

section \<open>Lemmas\<close>

lemma card_reported_cycles:
  assumes "distinct cs" "set cs = {p @ [hd p] | p. P p}"
  shows "length cs = card {p. P p}"
proof -
  have "inj_on (\<lambda>p. p @ [hd p]) {p. P p}" by (auto simp: inj_on_def)
  then have "card ((\<lambda>p. p @ [hd p]) ` {p. P p}) = card {p. P p}" by (rule card_image)
  moreover have "(\<lambda>p. p @ [hd p]) ` {p. P p} = set cs" using assms(2) by auto
  ultimately show ?thesis using distinct_card [OF assms(1)] by simp
qed

section \<open>Properties\<close>

text \<open>
  The deadlock report tells the state of the graph. After any calls the dictionary says that there
  is a deadlock exactly when some agents wait in a circle within the length bound, its count is the
  number of such circles (those that differ only in where they begin counted once), it lists the
  agents of each, and it has the numbers of agents and of distinct waits; the summary begins with
  \<open>DEADLOCK\<close> in just the same cases.
\<close>

theorem deadlock_report_exact:
  assumes "DeadlockDetector n = Inr d0" "d = foldl dd_step d0 es"
  shows "dict_get (deadlock_to_dict isoformat (detect now d)) ''has_deadlock'' =
      Some (JBool (\<exists>p. simple_cycle (waits d) p \<and> int (length p) \<le> n)) \<and>
    dict_get (deadlock_to_dict isoformat (detect now d)) ''cycle_count'' =
      Some (JInt (int (card {p. simple_cycle (waits d) p \<and> canonical p \<and> int (length p) \<le> n}))) \<and>
    (\<exists>cs. dict_get (deadlock_to_dict isoformat (detect now d)) ''cycles'' = Some (JList (map (\<lambda>c. JList (map JStr c)) cs)) \<and>
      set cs = {p @ [hd p] | p. simple_cycle (waits d) p \<and> canonical p \<and> int (length p) \<le> n}) \<and>
    dict_get (deadlock_to_dict isoformat (detect now d)) ''node_count'' = Some (JInt (int (length (dd_agents d)))) \<and>
    dict_get (deadlock_to_dict isoformat (detect now d)) ''edge_count'' = Some (JInt (int (card (waits d)))) \<and>
    (take 8 (deadlock_summary isoformat (detect now d)) = ''DEADLOCK'' \<longleftrightarrow>
      (\<exists>p. simple_cycle (waits d) p \<and> int (length p) \<le> n))"
proof -
  note inv = dd_reachable(1) [OF assms] and n = dd_reachable(2) [OF assms]
  let ?r = "detect now d"
  have some: "has_deadlock ?r \<longleftrightarrow> (\<exists>p. simple_cycle (waits d) p \<and> int (length p) \<le> n)"
    using detect_has_deadlock [OF inv] unfolding n .
  have cycles: "set (dr_cycles ?r) = {p @ [hd p] | p. simple_cycle (waits d) p \<and> canonical p \<and> int (length p) \<le> n}"
    using detect_cycles [OF inv] unfolding n .
  have "distinct (dr_cycles ?r)" by (simp add: detect_def Let_def deduplicate_cycles_def dedup_from_distinct)
  then have len: "length (dr_cycles ?r) = card {p. simple_cycle (waits d) p \<and> canonical p \<and> int (length p) \<le> n}"
    using cycles by (rule card_reported_cycles)
  have nodes: "dr_node_count ?r = length (dd_agents d)"
    by (simp add: dd_agents_def detect_def Let_def graph_snapshot_def)
  have edges: "dr_edge_count ?r = card (waits d)" using sum_list_snapshot_card [OF inv] by (simp add: detect_def Let_def)
  have "take 8 (deadlock_summary isoformat ?r) = ''DEADLOCK'' \<longleftrightarrow> has_deadlock ?r" by (simp add: deadlock_summary_def)
  then show ?thesis using some cycles len nodes edges
    by (simp add: deadlock_to_dict_def cycle_count_def) blast
qed

theorem deadlock_report_exact_witness:
  "dict_get (deadlock_to_dict (\<lambda>_. []) (detect 0 (foldl dd_step \<lparr>max_cycle_length = 2, dd_graph = [], dd_edges = []\<rparr>
     [AddWait ''a'' ''b'' ''r'', AddWait ''a'' ''b'' ''s'']))) ''edge_count'' = Some (JInt 1)"
proof -
  let ?d0 = "\<lparr>max_cycle_length = 2, dd_graph = [], dd_edges = []\<rparr>"
    and ?es = "[AddWait ''a'' ''b'' ''r'', AddWait ''a'' ''b'' ''s'']"
  have "waits (foldl dd_step ?d0 ?es) = {(''a'', ''b'')}"
    by (simp add: add_wait_def Let_def waits_def ensure_node_def dict_has_def)
  moreover have "DeadlockDetector 2 = Inr ?d0" by (simp add: DeadlockDetector_def)
  ultimately show ?thesis using deadlock_report_exact [of 2 ?d0 _ ?es "\<lambda>_. []" 0] by simp
qed

text \<open>
  The consensus summary says that no votes were submitted whenever a protocol has not decided, also
  when votes were cast and none had the majority or the weight that was asked for; the dictionary
  has the true number of votes.
\<close>

theorem consensus_summary_without_decision:
  "(let r = majority_resolve True now votes
    in \<not> reached_consensus r \<longrightarrow>
       consensus_summary quoted percent r = ''[majority_vote] No consensus - 0 votes submitted.'' \<and>
       dict_get (consensus_to_dict isoformat r) ''total_votes'' = Some (JInt (int (length votes)))) \<and>
   (a \<noteq> b \<longrightarrow> \<not> reached_consensus (majority_resolve True now
      [\<lparr>vr_agent_id = x, vr_option = a, vr_confidence = 1, vr_metadata = []\<rparr>,
       \<lparr>vr_agent_id = y, vr_option = b, vr_confidence = 1, vr_metadata = []\<rparr>]))"
proof -
  have "max_value (count_votes [\<lparr>vr_agent_id = x, vr_option = a, vr_confidence = 1, vr_metadata = []\<rparr>,
       \<lparr>vr_agent_id = y, vr_option = b, vr_confidence = 1, vr_metadata = []\<rparr>]) = 1" if "a \<noteq> b"
    using that by (simp add: count_votes_def tally_def max_value_def dict_get_or_def)
  then show ?thesis
    by (simp add: majority_resolve_def no_consensus_result_def consensus_summary_def consensus_to_dict_def Let_def)
qed

theorem consensus_summary_without_decision_witness:
  "consensus_summary (\<lambda>s. s) (\<lambda>_. []) (majority_resolve True 0
      [\<lparr>vr_agent_id = ''p'', vr_option = ''yes'', vr_confidence = 1, vr_metadata = []\<rparr>,
       \<lparr>vr_agent_id = ''q'', vr_option = ''no'', vr_confidence = 1, vr_metadata = []\<rparr>]) =
   ''[majority_vote] No consensus - 0 votes submitted.''"
  using consensus_summary_without_decision [of 0 "[\<lparr>vr_agent_id = ''p'', vr_option = ''yes'', vr_confidence = 1, vr_metadata = []\<rparr>,
       \<lparr>vr_agent_id = ''q'', vr_option = ''no'', vr_confidence = 1, vr_metadata = []\<rparr>]" "\<lambda>s. s" "\<lambda>_. []" "\<lambda>_. []" "''yes''" "''no''" "''p''" "''q''"]
  by (simp add: Let_def)

end
