(* ===== verification/Backpressure_Monitor.thy ===== *)
theory Backpressure_Monitor
  imports Mesh_Prelude
begin

text \<open>
  \<open>backpressure/monitor.py\<close>: the monitored queues with their depths and weights, and the
  aggregate pressure score with its two thresholds.
\<close>

section \<open>State\<close>

record queue_metrics =
  qm_name :: string
  current_depth :: int
  max_depth :: int
  qm_weight :: rat

definition utilization :: "queue_metrics \<Rightarrow> rat" where
  "utilization q =
     (if max_depth q \<le> 0 then 0 else min 1 (of_int (current_depth q) / of_int (max_depth q)))"

record backpressure_monitor =
  bm_warn :: rat
  bm_critical :: rat
  bm_queues :: "(string, queue_metrics) dict"

definition BackpressureMonitor :: "rat \<Rightarrow> rat \<Rightarrow> exn + backpressure_monitor" where
  "BackpressureMonitor warn critical =
     (if 0 \<le> warn \<and> warn < critical \<and> critical \<le> 1
      then Inr \<lparr>bm_warn = warn, bm_critical = critical, bm_queues = []\<rparr>
      else Inl (ValueError ''threshold''))"

section \<open>Operations\<close>

definition register_queue ::
    "string \<Rightarrow> int \<Rightarrow> rat \<Rightarrow> backpressure_monitor \<Rightarrow> (backpressure_monitor, unit) outcome" where
  "register_queue name mx w m =
     (if w < 0 then (m, Inl (ValueError ''weight''))
      else if mx < 0 then (m, Inl (ValueError ''max_depth''))
      else (m\<lparr>bm_queues := dict_set name
               \<lparr>qm_name = name, current_depth = 0, max_depth = mx, qm_weight = w\<rparr> (bm_queues m)\<rparr>, Inr ()))"

definition deregister_queue :: "string \<Rightarrow> backpressure_monitor \<Rightarrow> backpressure_monitor" where
  "deregister_queue name m = m\<lparr>bm_queues := dict_del name (bm_queues m)\<rparr>"

definition set_depth :: "string \<Rightarrow> int \<Rightarrow> queue_metrics \<Rightarrow> backpressure_monitor \<Rightarrow> backpressure_monitor" where
  "set_depth name depth q m =
     m\<lparr>bm_queues := dict_set name (q\<lparr>current_depth := depth\<rparr>) (bm_queues m)\<rparr>"

definition update_depth ::
    "string \<Rightarrow> int \<Rightarrow> backpressure_monitor \<Rightarrow> (backpressure_monitor, unit) outcome" where
  "update_depth name depth m =
     (if depth < 0 then (m, Inl (ValueError ''depth''))
      else case dict_get (bm_queues m) name of
        None \<Rightarrow> (m, Inl (KeyError name))
      | Some q \<Rightarrow> (set_depth name depth q m, Inr ()))"

fun update_depths :: "(string, int) dict \<Rightarrow> backpressure_monitor \<Rightarrow> backpressure_monitor" where
  "update_depths [] m = m"
| "update_depths ((name, depth) # ds) m =
     update_depths ds
       (case dict_get (bm_queues m) name of
          None \<Rightarrow> m
        | Some q \<Rightarrow> set_depth name (max 0 depth) q m)"

section \<open>Pressure\<close>

definition pressure_score :: "backpressure_monitor \<Rightarrow> rat" where
  "pressure_score m =
     (let queues = dict_values (bm_queues m) in
      if queues = [] then 0
      else
        let total_weight = sum_list (map qm_weight queues) in
        if total_weight = 0 then 0
        else sum_list (map (\<lambda>q. utilization q * qm_weight q) queues) / total_weight)"

definition is_warn :: "backpressure_monitor \<Rightarrow> bool" where
  "is_warn m \<longleftrightarrow> pressure_score m \<ge> bm_warn m"

definition is_critical :: "backpressure_monitor \<Rightarrow> bool" where
  "is_critical m \<longleftrightarrow> pressure_score m \<ge> bm_critical m"

definition queue_metrics_of :: "string \<Rightarrow> backpressure_monitor \<Rightarrow> exn + queue_metrics" where
  "queue_metrics_of name m =
     (case dict_get (bm_queues m) name of None \<Rightarrow> Inl (KeyError name) | Some q \<Rightarrow> Inr q)"

definition all_metrics :: "backpressure_monitor \<Rightarrow> queue_metrics list" where
  "all_metrics m = dict_values (bm_queues m)"

section \<open>The monitor as a machine\<close>

datatype monitor_event =
    RegisterQueue string int rat
  | DeregisterQueue string
  | UpdateDepth string int
  | UpdateDepths "(string, int) dict"

fun monitor_step :: "backpressure_monitor \<Rightarrow> monitor_event \<Rightarrow> backpressure_monitor" where
  "monitor_step m (RegisterQueue n mx w) = fst (register_queue n mx w m)"
| "monitor_step m (DeregisterQueue n) = deregister_queue n m"
| "monitor_step m (UpdateDepth n d) = fst (update_depth n d m)"
| "monitor_step m (UpdateDepths ds) = update_depths ds m"

definition metrics_ok :: "queue_metrics \<Rightarrow> bool" where
  "metrics_ok q \<longleftrightarrow> 0 \<le> current_depth q \<and> 0 \<le> max_depth q \<and> 0 \<le> qm_weight q"

definition monitor_inv :: "backpressure_monitor \<Rightarrow> bool" where
  "monitor_inv m \<longleftrightarrow> 0 \<le> bm_warn m \<and> bm_warn m < bm_critical m \<and> bm_critical m \<le> 1 \<and>
     dict_wf (bm_queues m) \<and>
     (\<forall>n q. dict_get (bm_queues m) n = Some q \<longrightarrow> qm_name q = n \<and> metrics_ok q)"

section \<open>Lemmas\<close>

lemma monitor_inv_set:
  assumes "monitor_inv m" "qm_name q = n" "metrics_ok q"
  shows "monitor_inv (m\<lparr>bm_queues := dict_set n q (bm_queues m)\<rparr>)"
  using assms by (simp add: monitor_inv_def)

lemma set_depth_inv:
  assumes "monitor_inv m" "dict_get (bm_queues m) n = Some q" "0 \<le> d"
  shows "monitor_inv (set_depth n d q m)"
  unfolding set_depth_def using assms
  by (intro monitor_inv_set) (auto simp: monitor_inv_def metrics_ok_def)

lemma update_depths_inv: "monitor_inv m \<Longrightarrow> monitor_inv (update_depths ds m)"
  by (induction ds m rule: update_depths.induct) (auto simp: set_depth_inv split: option.split)

interpretation pressure_machine: inv_system monitor_step monitor_inv
proof
  fix m e assume inv: "monitor_inv m"
  show "monitor_inv (monitor_step m e)"
  proof (cases e)
    case (RegisterQueue n mx w)
    with inv show ?thesis
      by (auto simp: register_queue_def metrics_ok_def intro!: monitor_inv_set)
  next
    case (DeregisterQueue n)
    with inv show ?thesis by (simp add: deregister_queue_def monitor_inv_def)
  next
    case (UpdateDepth n d)
    with inv show ?thesis by (auto simp: update_depth_def set_depth_inv split: option.split)
  qed (simp add: inv update_depths_inv)
qed

lemma BackpressureMonitor_inv: "BackpressureMonitor w c = Inr m \<Longrightarrow> monitor_inv m"
  by (auto simp: BackpressureMonitor_def monitor_inv_def split: if_splits)

lemma utilization_bounds: "metrics_ok q \<Longrightarrow> 0 \<le> utilization q \<and> utilization q \<le> 1"
  by (simp add: utilization_def metrics_ok_def)

lemma monitor_metrics_ok: "monitor_inv m \<Longrightarrow> q \<in> set (dict_values (bm_queues m)) \<Longrightarrow> metrics_ok q"
  unfolding monitor_inv_def using dict_values_mem by metis

lemma weighted_sum_bounds:
  fixes u w :: "'a \<Rightarrow> rat"
  assumes "\<forall>x \<in> set xs. 0 \<le> u x \<and> u x \<le> 1 \<and> 0 \<le> w x"
  shows "0 \<le> sum_list (map (\<lambda>x. u x * w x) xs) \<and>
    sum_list (map (\<lambda>x. u x * w x) xs) \<le> sum_list (map w xs)"
  using assms
proof (induction xs)
  case (Cons x xs)
  then have "0 \<le> u x * w x" "u x * w x \<le> w x" by (auto simp: mult_left_le_one_le)
  with Cons show ?case by auto
qed simp

lemma pressure_bounds:
  assumes "monitor_inv m"
  shows "0 \<le> pressure_score m \<and> pressure_score m \<le> 1"
proof -
  let ?qs = "dict_values (bm_queues m)"
  have "\<forall>q \<in> set ?qs. 0 \<le> utilization q \<and> utilization q \<le> 1 \<and> 0 \<le> qm_weight q"
    using monitor_metrics_ok [OF assms] utilization_bounds by (auto simp: metrics_ok_def)
  from weighted_sum_bounds [OF this] show ?thesis
    by (auto simp: pressure_score_def Let_def divide_le_eq)
qed

section \<open>Properties\<close>

text \<open>
  The pressure score of every reachable monitor lies in the unit interval; a critical monitor
  is also a warning one; when every queue with weight is bounded and at or over its capacity the
  score is exactly 1, and when all queues are empty it is exactly 0.
\<close>

theorem pressure_score_sound:
  assumes "BackpressureMonitor w c = Inr m0" "m = foldl monitor_step m0 es"
  shows "0 \<le> pressure_score m \<and> pressure_score m \<le> 1 \<and> (is_critical m \<longrightarrow> is_warn m) \<and>
    ((\<forall>q \<in> set (all_metrics m). qm_weight q > 0 \<longrightarrow> 0 < max_depth q \<and> max_depth q \<le> current_depth q) \<and>
      (\<exists>q \<in> set (all_metrics m). qm_weight q > 0) \<longrightarrow> pressure_score m = 1) \<and>
    ((\<forall>q \<in> set (all_metrics m). current_depth q = 0) \<longrightarrow> pressure_score m = 0)"
proof -
  have inv: "monitor_inv m"
    unfolding assms(2) using BackpressureMonitor_inv [OF assms(1)] by (rule pressure_machine.run_inv)
  let ?qs = "dict_values (bm_queues m)"
  have w: "0 \<le> qm_weight q" if "q \<in> set ?qs" for q
    using monitor_metrics_ok [OF inv that] by (simp add: metrics_ok_def)
  have warn: "is_critical m \<longrightarrow> is_warn m"
    using inv by (auto simp: is_critical_def is_warn_def monitor_inv_def)
  have full: "pressure_score m = 1"
    if sat: "\<forall>q \<in> set ?qs. qm_weight q > 0 \<longrightarrow> 0 < max_depth q \<and> max_depth q \<le> current_depth q"
      and pos: "\<exists>q \<in> set ?qs. qm_weight q > 0"
  proof -
    have "utilization q * qm_weight q = qm_weight q" if q: "q \<in> set ?qs" for q
    proof (cases "qm_weight q > 0")
      case True
      then have "0 < max_depth q" "max_depth q \<le> current_depth q" using sat q by blast+
      then have "(1::rat) \<le> of_int (current_depth q) / of_int (max_depth q)"
        by (simp add: le_divide_eq)
      with \<open>0 < max_depth q\<close> show ?thesis by (simp add: utilization_def)
    next
      case False
      with w [OF q] show ?thesis by simp
    qed
    then have eq: "map (\<lambda>q. utilization q * qm_weight q) ?qs = map qm_weight ?qs" by simp
    have "sum_list (map qm_weight ?qs) \<noteq> 0"
    proof -
      obtain q where q: "q \<in> set ?qs" "qm_weight q > 0" using pos by blast
      have "qm_weight q \<le> sum_list (map qm_weight ?qs)"
        using q(1) w by (intro member_le_sum_list) auto
      with q(2) show ?thesis by simp
    qed
    moreover have "?qs \<noteq> []" using pos by auto
    ultimately show ?thesis unfolding pressure_score_def Let_def eq by simp
  qed
  have empty: "pressure_score m = 0" if "\<forall>q \<in> set ?qs. current_depth q = 0"
  proof -
    have "\<forall>q \<in> set ?qs. utilization q * qm_weight q = 0" using that by (simp add: utilization_def)
    then have "sum_list (map (\<lambda>q. utilization q * qm_weight q) ?qs) = sum_list (map (\<lambda>_. 0) ?qs)"
      by (intro arg_cong [where f = sum_list] map_cong) auto
    then show ?thesis unfolding pressure_score_def Let_def by (simp only: sum_list_0 div_0 if_cancel)
  qed
  show ?thesis unfolding all_metrics_def using pressure_bounds [OF inv] warn full empty by blast
qed

theorem pressure_score_sound_witness:
  "pressure_score (foldl monitor_step \<lparr>bm_warn = 7/10, bm_critical = 9/10, bm_queues = []\<rparr>
     [RegisterQueue ''q'' 10 2, RegisterQueue ''r'' 0 0, UpdateDepth ''q'' 12]) = 1"
proof -
  let ?m0 = "\<lparr>bm_warn = 7/10, bm_critical = 9/10, bm_queues = []\<rparr>"
  let ?es = "[RegisterQueue ''q'' 10 2, RegisterQueue ''r'' 0 0, UpdateDepth ''q'' 12]"
  have "BackpressureMonitor (7/10) (9/10) = Inr ?m0" by (simp add: BackpressureMonitor_def)
  note * = pressure_score_sound [OF this refl, of ?es]
  have "all_metrics (foldl monitor_step ?m0 ?es) =
      [\<lparr>qm_name = ''q'', current_depth = 12, max_depth = 10, qm_weight = 2\<rparr>,
       \<lparr>qm_name = ''r'', current_depth = 0, max_depth = 0, qm_weight = 0\<rparr>]"
    by (simp add: all_metrics_def register_queue_def update_depth_def set_depth_def)
  with * show ?thesis by simp
qed

end
