(* ===== verification/Throttle.thy ===== *)
theory Throttle
  imports Backpressure_Monitor
begin

text \<open>
  \<open>backpressure/throttle.py\<close>: the token bucket whose refill rate falls with the pressure score.
  The readings of the monotonic clock and the state of the attached monitor at the time of a call
  are arguments. The polling loop of \<open>acquire_async\<close> runs over the list of the readings it makes.
\<close>

section \<open>State\<close>

record adaptive_throttle =
  th_agent_id :: string
  base_rate :: rat
  bucket_capacity :: rat
  min_rate_fraction :: rat
  th_warn :: rat
  th_critical :: rat
  tokens :: rat
  last_refill :: timestamp
  total_acquired :: nat
  th_total_rejected :: nat

definition AdaptiveThrottle ::
    "string \<Rightarrow> rat \<Rightarrow> int \<Rightarrow> rat \<Rightarrow> rat \<Rightarrow> rat \<Rightarrow> timestamp \<Rightarrow> exn + adaptive_throttle" where
  "AdaptiveThrottle a rate capacity min_fraction warn critical now =
     (if rate \<le> 0 then Inl (ValueError ''base_rate'')
      else if capacity \<le> 0 then Inl (ValueError ''bucket_capacity'')
      else if \<not> (0 < min_fraction \<and> min_fraction \<le> 1) then Inl (ValueError ''min_rate_fraction'')
      else Inr \<lparr>th_agent_id = a, base_rate = rate, bucket_capacity = of_int capacity,
                min_rate_fraction = min_fraction, th_warn = warn, th_critical = critical,
                tokens = of_int capacity, last_refill = now, total_acquired = 0,
                th_total_rejected = 0\<rparr>)"

section \<open>Refill\<close>

definition compute_rate :: "adaptive_throttle \<Rightarrow> rat \<Rightarrow> exn + rat" where
  \<comment> \<open>a division by zero is Python's \<open>ZeroDivisionError\<close>\<close>
  "compute_rate th pressure =
     (if pressure \<ge> th_critical th then Inr (base_rate th * min_rate_fraction th)
      else if pressure \<ge> th_warn th then
        (let range_size = th_critical th - th_warn th in
         if range_size = 0 then Inl ZeroDivisionError
         else
           let t = (pressure - th_warn th) / range_size;
               fraction = 1 - t * (1 - min_rate_fraction th)
           in Inr (base_rate th * fraction))
      else Inr (base_rate th))"

definition effective_rate :: "backpressure_monitor option \<Rightarrow> adaptive_throttle \<Rightarrow> exn + rat" where
  "effective_rate mon th =
     (case mon of None \<Rightarrow> Inr (base_rate th) | Some m \<Rightarrow> compute_rate th (pressure_score m))"

definition refill ::
    "timestamp \<Rightarrow> backpressure_monitor option \<Rightarrow> adaptive_throttle \<Rightarrow> (adaptive_throttle, unit) outcome" where
  "refill now mon th =
     (let elapsed = now - last_refill th;
          th1 = th\<lparr>last_refill := now\<rparr>;
          pressure = (case mon of None \<Rightarrow> 0 | Some m \<Rightarrow> pressure_score m)
      in case compute_rate th1 pressure of
           Inl x \<Rightarrow> (th1, Inl x)
         | Inr rate \<Rightarrow>
             (th1\<lparr>tokens := min (bucket_capacity th1) (tokens th1 + elapsed * rate)\<rparr>, Inr ()))"

section \<open>Acquisition\<close>

definition try_acquire ::
    "timestamp \<Rightarrow> backpressure_monitor option \<Rightarrow> rat \<Rightarrow> adaptive_throttle
     \<Rightarrow> (adaptive_throttle, bool) outcome" where
  "try_acquire now mon n th =
     (case refill now mon th of
        (th1, Inl x) \<Rightarrow> (th1, Inl x)
      | (th1, Inr _) \<Rightarrow>
          if tokens th1 \<ge> n
          then (th1\<lparr>tokens := tokens th1 - n, total_acquired := total_acquired th1 + 1\<rparr>, Inr True)
          else (th1\<lparr>th_total_rejected := th_total_rejected th1 + 1\<rparr>, Inr False))"

definition available_tokens ::
    "timestamp \<Rightarrow> backpressure_monitor option \<Rightarrow> adaptive_throttle \<Rightarrow> (adaptive_throttle, rat) outcome" where
  "available_tokens now mon th =
     (case refill now mon th of
        (th1, Inl x) \<Rightarrow> (th1, Inl x)
      | (th1, Inr _) \<Rightarrow> (th1, Inr (tokens th1)))"

text \<open>The loop of \<open>acquire_async\<close>: each poll reads the clock for the attempt, the monitor, and, after
  a refusal, the clock for the deadline. \<open>None\<close>: the readings ran out while it was still polling.\<close>

fun acquire_async ::
    "rat \<Rightarrow> timestamp option \<Rightarrow> (timestamp \<times> backpressure_monitor option \<times> timestamp) list
     \<Rightarrow> adaptive_throttle \<Rightarrow> adaptive_throttle \<times> (exn + bool) option" where
  "acquire_async n deadline [] th = (th, None)"
| "acquire_async n deadline ((now, mon, now') # polls) th =
     (case try_acquire now mon n th of
        (th1, Inl x) \<Rightarrow> (th1, Some (Inl x))
      | (th1, Inr True) \<Rightarrow> (th1, Some (Inr True))
      | (th1, Inr False) \<Rightarrow>
          (case deadline of
             Some d \<Rightarrow> if now' \<ge> d then (th1, Some (Inr False)) else acquire_async n deadline polls th1
           | None \<Rightarrow> acquire_async n deadline polls th1))"

section \<open>Specification\<close>

definition throttle_config :: "adaptive_throttle \<Rightarrow> bool" where
  "throttle_config th \<longleftrightarrow> 0 < base_rate th \<and> 0 < bucket_capacity th \<and>
     0 < min_rate_fraction th \<and> min_rate_fraction th \<le> 1"

definition throttle_inv :: "adaptive_throttle \<Rightarrow> bool" where
  "throttle_inv th \<longleftrightarrow> throttle_config th \<and> 0 \<le> tokens th \<and> tokens th \<le> bucket_capacity th"

text \<open>A schedule of acquisitions: time, state of the monitor, tokens asked for.\<close>

type_synonym acquisition = "timestamp \<times> backpressure_monitor option \<times> rat"

fun granted :: "acquisition list \<Rightarrow> adaptive_throttle \<Rightarrow> adaptive_throttle \<times> rat" where
  "granted [] th = (th, 0)"
| "granted ((now, mon, n) # as) th =
     (case try_acquire now mon n th of
        (th1, Inr True) \<Rightarrow> (case granted as th1 of (th2, g) \<Rightarrow> (th2, n + g))
      | (th1, _) \<Rightarrow> granted as th1)"

text \<open>The clock does not go back and nobody asks for a negative number of tokens.\<close>

fun schedule_ok :: "timestamp \<Rightarrow> acquisition list \<Rightarrow> bool" where
  "schedule_ok t [] = True"
| "schedule_ok t ((now, mon, n) # as) = (t \<le> now \<and> 0 \<le> n \<and> schedule_ok now as)"

fun end_time :: "timestamp \<Rightarrow> acquisition list \<Rightarrow> timestamp" where
  "end_time t [] = t"
| "end_time t ((now, mon, n) # as) = end_time now as"

section \<open>Lemmas\<close>

text \<open>The rate is always defined and between the minimum fraction of the base rate and the base
  rate, whatever the thresholds.\<close>

lemma compute_rate_bounds:
  assumes "throttle_config th"
  shows "\<exists>r. compute_rate th p = Inr r \<and> base_rate th * min_rate_fraction th \<le> r \<and> r \<le> base_rate th"
proof -
  let ?f = "min_rate_fraction th" and ?b = "base_rate th"
  have b: "0 < ?b" "0 < ?f" "?f \<le> 1" using assms by (auto simp: throttle_config_def)
  have interp: "?b * ?f \<le> ?b * (1 - t * (1 - ?f)) \<and> ?b * (1 - t * (1 - ?f)) \<le> ?b"
    if t: "0 \<le> t" "t \<le> 1" for t
  proof -
    have "0 \<le> t * (1 - ?f)" "t * (1 - ?f) \<le> 1 - ?f"
      using t b mult_left_le_one_le [of "1 - ?f" t] by auto
    then show ?thesis using b(1) by (simp add: mult_left_le)
  qed
  show ?thesis
  proof (cases "p < th_critical th \<and> th_warn th \<le> p")
    case True
    then have "0 \<le> (p - th_warn th) / (th_critical th - th_warn th)"
      "(p - th_warn th) / (th_critical th - th_warn th) \<le> 1" "th_critical th \<noteq> th_warn th"
      by (auto simp: divide_le_eq)
    with interp [of "(p - th_warn th) / (th_critical th - th_warn th)"] True show ?thesis
      by (auto simp: compute_rate_def Let_def)
  next
    case False
    then show ?thesis using b by (auto simp: compute_rate_def mult_left_le)
  qed
qed

lemma refill_step:
  assumes "throttle_config th" "last_refill th \<le> now"
  shows "\<exists>r. base_rate th * min_rate_fraction th \<le> r \<and> r \<le> base_rate th \<and>
    refill now mon th = (th\<lparr>last_refill := now,
      tokens := min (bucket_capacity th) (tokens th + (now - last_refill th) * r)\<rparr>, Inr ())"
proof -
  let ?p = "case mon of None \<Rightarrow> 0 | Some m \<Rightarrow> pressure_score m"
  have "throttle_config (th\<lparr>last_refill := now\<rparr>)" using assms(1) by (simp add: throttle_config_def)
  from compute_rate_bounds [OF this, of ?p] obtain r where
    "compute_rate (th\<lparr>last_refill := now\<rparr>) ?p = Inr r"
    "base_rate th * min_rate_fraction th \<le> r" "r \<le> base_rate th" by auto
  then show ?thesis by (intro exI [of _ r]) (simp add: refill_def Let_def)
qed

lemma try_acquire_step:
  assumes "throttle_inv th" "last_refill th \<le> now" "0 \<le> n"
  obtains th' b where "try_acquire now mon n th = (th', Inr b)" "throttle_inv th'"
    "last_refill th' = now" "base_rate th' = base_rate th" "bucket_capacity th' = bucket_capacity th"
    "min_rate_fraction th' = min_rate_fraction th"
    "tokens th' + (if b then n else 0) \<le> tokens th + (now - last_refill th) * base_rate th"
    "\<not> b \<Longrightarrow> min (bucket_capacity th)
       (tokens th + (now - last_refill th) * (base_rate th * min_rate_fraction th)) \<le> tokens th'"
    "b \<longleftrightarrow> n \<le> tokens th' + (if b then n else 0)"
proof -
  have cfg: "throttle_config th" and tk: "0 \<le> tokens th" using assms(1) by (simp_all add: throttle_inv_def)
  obtain r where r: "base_rate th * min_rate_fraction th \<le> r" "r \<le> base_rate th" and
    ref: "refill now mon th = (th\<lparr>last_refill := now,
      tokens := min (bucket_capacity th) (tokens th + (now - last_refill th) * r)\<rparr>, Inr ())"
    using refill_step [OF cfg assms(2)] by blast
  let ?tk = "min (bucket_capacity th) (tokens th + (now - last_refill th) * r)"
  have e: "0 \<le> now - last_refill th" using assms(2) by simp
  have "0 \<le> base_rate th * min_rate_fraction th" using cfg by (simp add: throttle_config_def)
  then have "0 \<le> (now - last_refill th) * r" using e r(1) by (intro mult_nonneg_nonneg) auto
  then have tk0: "0 \<le> ?tk" using tk cfg by (simp add: throttle_config_def)
  have up: "?tk \<le> tokens th + (now - last_refill th) * base_rate th"
    using mult_left_mono [OF r(2) e] by simp
  have low: "min (bucket_capacity th)
      (tokens th + (now - last_refill th) * (base_rate th * min_rate_fraction th)) \<le> ?tk"
    using mult_left_mono [OF r(1) e] by auto
  define k where "k = ?tk"
  have k: "0 \<le> k" "k \<le> bucket_capacity th" "k \<le> tokens th + (now - last_refill th) * base_rate th"
    "min (bucket_capacity th)
      (tokens th + (now - last_refill th) * (base_rate th * min_rate_fraction th)) \<le> k"
    using tk0 up low unfolding k_def by auto
  have ref': "refill now mon th = (th\<lparr>last_refill := now, tokens := k\<rparr>, Inr ())"
    using ref unfolding k_def .
  show thesis
  proof (cases "n \<le> k")
    case True
    show thesis
    proof (rule that [of "th\<lparr>last_refill := now, tokens := k - n, total_acquired := total_acquired th + 1\<rparr>" True])
    qed (use True ref' cfg k assms(3) in \<open>simp_all add: try_acquire_def throttle_inv_def throttle_config_def\<close>)
  next
    case False
    show thesis
    proof (rule that [of "th\<lparr>last_refill := now, tokens := k, th_total_rejected := th_total_rejected th + 1\<rparr>" False])
    qed (use False ref' cfg k in \<open>simp_all add: try_acquire_def throttle_inv_def throttle_config_def\<close>)
  qed
qed

lemma granted_bound:
  assumes "throttle_inv th" "schedule_ok (last_refill th) as" "granted as th = (th', g)"
  shows "throttle_inv th' \<and> 0 \<le> g \<and> base_rate th' = base_rate th \<and>
    tokens th' + g \<le> tokens th + (end_time (last_refill th) as - last_refill th) * base_rate th"
  using assms
proof (induction as arbitrary: th th' g)
  case (Cons a as)
  obtain now mon n where a: "a = (now, mon, n)" by (cases a)
  have ok: "last_refill th \<le> now" "0 \<le> n" "schedule_ok now as" using Cons.prems(2) a by auto
  obtain th1 b where step: "try_acquire now mon n th = (th1, Inr b)" "throttle_inv th1"
    "last_refill th1 = now" "base_rate th1 = base_rate th"
    "tokens th1 + (if b then n else 0) \<le> tokens th + (now - last_refill th) * base_rate th"
    using try_acquire_step [OF Cons.prems(1) ok(1,2), of mon] by metis
  obtain th2 g2 where g2: "granted as th1 = (th2, g2)" by (cases "granted as th1")
  have "th' = th2" and g: "g = (if b then n else 0) + g2"
    using Cons.prems(3) step(1) g2 by (auto simp: a split: bool.splits)
  moreover have "throttle_inv th2 \<and> 0 \<le> g2 \<and> base_rate th2 = base_rate th1 \<and>
      tokens th2 + g2 \<le> tokens th1 + (end_time now as - now) * base_rate th1"
    using Cons.IH [OF step(2) _ g2] ok(3) step(3) by simp
  ultimately show ?case using step(4,5) ok(2) by (auto simp: a algebra_simps)
qed simp

text \<open>Polls at least \<open>d\<close> apart.\<close>

fun spaced :: "rat \<Rightarrow> timestamp \<Rightarrow> (timestamp \<times> 'm \<times> timestamp) list \<Rightarrow> bool" where
  "spaced d t [] = True"
| "spaced d t ((now, mon, now') # ps) = (t + d \<le> now \<and> spaced d now ps)"

lemma acquire_async_progress:
  assumes "throttle_inv th" "0 \<le> n" "n \<le> bucket_capacity th" "0 \<le> d" "spaced d (last_refill th) polls"
    "polls \<noteq> []"
    "n \<le> tokens th + of_nat (length polls) * (d * (base_rate th * min_rate_fraction th))"
  shows "snd (acquire_async n None polls th) = Some (Inr True)"
  using assms
proof (induction polls arbitrary: th)
  case (Cons poll polls)
  obtain now mon now' where p: "poll = (now, mon, now')" by (cases poll)
  let ?b = "base_rate th * min_rate_fraction th"
  have time: "last_refill th + d \<le> now" "spaced d now polls" using Cons.prems(5) p by auto
  then have le: "last_refill th \<le> now" using Cons.prems(4) by simp
  obtain th1 b where step: "try_acquire now mon n th = (th1, Inr b)" "throttle_inv th1"
    "last_refill th1 = now" "base_rate th1 = base_rate th" "bucket_capacity th1 = bucket_capacity th"
    "min_rate_fraction th1 = min_rate_fraction th"
    "\<not> b \<Longrightarrow> min (bucket_capacity th) (tokens th + (now - last_refill th) * ?b) \<le> tokens th1"
    "b \<longleftrightarrow> n \<le> tokens th1 + (if b then n else 0)"
    using try_acquire_step [OF Cons.prems(1) le Cons.prems(2), of mon] by metis
  show ?case
  proof (cases b)
    case True
    then show ?thesis using step(1) by (simp add: p)
  next
    case False
    have "0 \<le> ?b" using Cons.prems(1) by (simp add: throttle_inv_def throttle_config_def)
    then have "d * ?b \<le> (now - last_refill th) * ?b" using time(1) by (intro mult_right_mono) auto
    moreover have short: "tokens th1 < n" using False step(8) by simp
    ultimately have gain: "tokens th + d * ?b \<le> tokens th1"
      using step(7) [OF False] Cons.prems(3) by (auto simp: min_def split: if_splits)
    then have n: "n \<le> tokens th1 + of_nat (length polls) * (d * ?b)"
      using Cons.prems(7) by (simp add: algebra_simps)
    then have "polls \<noteq> []" using short by auto
    with n have "snd (acquire_async n None polls th1) = Some (Inr True)"
      using step Cons.prems(2-4) time(2) by (intro Cons.IH) simp_all
    then show ?thesis using step(1) False by (simp add: p)
  qed
qed simp

lemma acquire_async_deadline:
  assumes "\<exists>p \<in> set polls. d \<le> snd (snd p)"
  shows "snd (acquire_async n (Some d) polls th) \<noteq> None"
  using assms
proof (induction polls arbitrary: th)
  case (Cons p polls)
  obtain now mon now' where p: "p = (now, mon, now')" by (cases p)
  show ?case
  proof (cases "d \<le> now'")
    case False
    then have "\<exists>p \<in> set polls. d \<le> snd (snd p)" using Cons.prems p by auto
    then show ?thesis using Cons.IH by (auto simp: p split: prod.split sum.split bool.split)
  qed (auto simp: p split: prod.split sum.split bool.split)
qed simp

section \<open>Properties\<close>



text \<open>
  The refill rate is defined for every pressure (no division by zero, whatever thresholds were
  configured), lies between the minimum fraction of the base rate and the base rate, falls as
  the pressure rises, is the base rate below both thresholds and the minimum from the critical
  threshold on.
\<close>

theorem refill_rate_adaptive:
  assumes "throttle_config th" "p \<le> p'"
  shows "\<exists>r r'. compute_rate th p = Inr r \<and> compute_rate th p' = Inr r' \<and> r' \<le> r \<and>
    base_rate th * min_rate_fraction th \<le> r' \<and> r \<le> base_rate th \<and>
    (p < th_warn th \<and> p < th_critical th \<longrightarrow> r = base_rate th) \<and>
    (th_critical th \<le> p' \<longrightarrow> r' = base_rate th * min_rate_fraction th)"
proof -
  obtain r where r: "compute_rate th p = Inr r" "base_rate th * min_rate_fraction th \<le> r" "r \<le> base_rate th"
    using compute_rate_bounds [OF assms(1)] by blast
  obtain r' where r': "compute_rate th p' = Inr r'" "base_rate th * min_rate_fraction th \<le> r'" "r' \<le> base_rate th"
    using compute_rate_bounds [OF assms(1)] by blast
  have top: "th_critical th \<le> q \<Longrightarrow> compute_rate th q = Inr (base_rate th * min_rate_fraction th)"
    and low: "q < th_warn th \<Longrightarrow> q < th_critical th \<Longrightarrow> compute_rate th q = Inr (base_rate th)" for q
    by (simp_all add: compute_rate_def)
  have "r' \<le> r"
  proof (cases "th_critical th \<le> p' \<or> p < th_warn th \<and> p < th_critical th")
    case True
    then show ?thesis using r r' top [of p'] low [of p] by auto
  next
    case False
    then have range: "th_warn th \<le> p" "p' < th_critical th" "p < th_critical th" "th_warn th \<le> p'"
      using assms(2) by auto
    let ?w = "th_critical th - th_warn th" and ?m = "1 - min_rate_fraction th"
    have "(p - th_warn th) / ?w * ?m \<le> (p' - th_warn th) / ?w * ?m"
      using assms range by (intro mult_right_mono divide_right_mono) (auto simp: throttle_config_def)
    then have "base_rate th * (1 - (p' - th_warn th) / ?w * ?m) \<le> base_rate th * (1 - (p - th_warn th) / ?w * ?m)"
      using assms(1) by (intro mult_left_mono) (auto simp: throttle_config_def)
    then show ?thesis using r(1) r'(1) range by (simp add: compute_rate_def Let_def)
  qed
  with r r' top [of p'] low [of p] show ?thesis by auto
qed

theorem refill_rate_adaptive_witness:
  "\<exists>r. compute_rate \<lparr>th_agent_id = ''a'', base_rate = 1, bucket_capacity = 2, min_rate_fraction = 1/10,
      th_warn = 7/10, th_critical = 7/10, tokens = 2, last_refill = 0, total_acquired = 0,
      th_total_rejected = 0\<rparr> (7/10) = Inr r \<and> r = 1/10"
  using refill_rate_adaptive [of "\<lparr>th_agent_id = ''a'', base_rate = 1, bucket_capacity = 2,
      min_rate_fraction = 1/10, th_warn = 7/10, th_critical = 7/10, tokens = 2, last_refill = 0,
      total_acquired = 0, th_total_rejected = 0\<rparr>" "7/10" "7/10"]
  by (auto simp: throttle_config_def)

text \<open>
  \<open>acquire_async\<close> makes progress. Without a timeout, a caller that asks for no more than the
  bucket holds and polls at least \<open>d\<close> seconds apart gets its tokens within any number of polls
  long enough to refill the missing tokens at the minimum rate, whatever the pressure does. With
  a timeout it returns by its first poll past the deadline.
\<close>

theorem acquire_async_returns:
  assumes "throttle_inv th" "0 \<le> n" "n \<le> bucket_capacity th" "0 < d" "spaced d (last_refill th) polls"
    "polls \<noteq> []"
  shows "(n \<le> tokens th + of_nat (length polls) * (d * (base_rate th * min_rate_fraction th)) \<longrightarrow>
      snd (acquire_async n None polls th) = Some (Inr True)) \<and>
    ((\<exists>p \<in> set polls. deadline \<le> snd (snd p)) \<longrightarrow>
      snd (acquire_async n (Some deadline) polls th) \<noteq> None)"
  using acquire_async_progress [OF assms(1-3) less_imp_le [OF assms(4)] assms(5,6)]
    acquire_async_deadline [of polls deadline n th] by blast

theorem acquire_async_returns_witness:
  "snd (acquire_async 1 None [(1/2, None, 1/2), (1, None, 1)]
     \<lparr>th_agent_id = ''a'', base_rate = 1, bucket_capacity = 2, min_rate_fraction = 1,
      th_warn = 7/10, th_critical = 9/10, tokens = 0, last_refill = 0, total_acquired = 0,
      th_total_rejected = 0\<rparr>) = Some (Inr True)"
  using acquire_async_returns [of "\<lparr>th_agent_id = ''a'', base_rate = 1, bucket_capacity = 2,
      min_rate_fraction = 1, th_warn = 7/10, th_critical = 9/10, tokens = 0, last_refill = 0,
      total_acquired = 0, th_total_rejected = 0\<rparr>" 1 "1/2" "[(1/2, None, 1/2), (1, None, 1)]" 0]
  by (simp add: throttle_inv_def throttle_config_def)

text \<open>
  A negative request breaks the bound on the bucket: it is granted and leaves more tokens in
  the bucket than its capacity when the bucket was full.
\<close>

theorem negative_acquire_overfills:
  assumes "throttle_inv th" "tokens th = bucket_capacity th" "now = last_refill th" "n < 0"
  shows "\<exists>th'. try_acquire now mon n th = (th', Inr True) \<and> tokens th' = bucket_capacity th' - n \<and>
    bucket_capacity th' < tokens th'"
proof -
  have cfg: "throttle_config th" and cap: "0 < bucket_capacity th"
    using assms(1) by (simp_all add: throttle_inv_def throttle_config_def)
  obtain r where "refill now mon th = (th\<lparr>last_refill := now,
      tokens := min (bucket_capacity th) (tokens th + (now - last_refill th) * r)\<rparr>, Inr ())"
    using refill_step [OF cfg, of now mon] assms(3) by auto
  with assms cap show ?thesis by (simp add: try_acquire_def)
qed

theorem negative_acquire_overfills_witness:
  "\<exists>th'. try_acquire 0 None (-5) \<lparr>th_agent_id = ''a'', base_rate = 1, bucket_capacity = 2,
      min_rate_fraction = 1, th_warn = 7/10, th_critical = 9/10, tokens = 2, last_refill = 0,
      total_acquired = 0, th_total_rejected = 0\<rparr> = (th', Inr True) \<and> bucket_capacity th' < tokens th'"
  using negative_acquire_overfills [of "\<lparr>th_agent_id = ''a'', base_rate = 1, bucket_capacity = 2,
      min_rate_fraction = 1, th_warn = 7/10, th_critical = 9/10, tokens = 2, last_refill = 0,
      total_acquired = 0, th_total_rejected = 0\<rparr>" 0 "-5" None]
  by (auto simp: throttle_inv_def throttle_config_def)

end
