(* ===== verification/Task_Queue.thy ===== *)
theory Task_Queue
  imports Backpressure_Monitor
begin

text \<open>
  \<open>backpressure/task_queue.py\<close>: the bounded task queue that reports its depth to a monitor. The
  code takes the queue's own lock and the lock of the counters one after the other, so every
  operation is the composition of two atomic sections; the sections are definitions of their own
  and the concurrent machine interleaves them. A blocking call that waits for space or for a task
  is its first section taken once it is enabled; \<open>QueueFullError\<close> and \<open>QueueEmptyError\<close> are the
  non-blocking calls and the expired timeouts.
\<close>

section \<open>State\<close>

record 'a backpressure_queue =
  bq_max_size :: int
  high_watermark :: rat
  low_watermark :: rat
  queue_name :: string
  bq_items :: "'a list"
  enqueued_total :: nat
  dequeued_total :: nat
  dropped_total :: nat
  under_pressure :: bool
  bq_monitor :: backpressure_monitor

definition BackpressureQueue ::
    "int \<Rightarrow> backpressure_monitor option \<Rightarrow> string \<Rightarrow> rat \<Rightarrow> rat \<Rightarrow> exn + 'a backpressure_queue" where
  "BackpressureQueue max_size mon name high low =
     (if max_size < 1 then Inl (ValueError ''max_size'')
      else if \<not> (0 < high \<and> high \<le> 1) then Inl (ValueError ''high_watermark'')
      else if \<not> (0 \<le> low \<and> low < high) then Inl (ValueError ''low_watermark'')
      else
        let m = (case mon of Some m \<Rightarrow> m
                 | None \<Rightarrow> \<lparr>bm_warn = 7/10, bm_critical = 9/10, bm_queues = []\<rparr>)
        in Inr \<lparr>bq_max_size = max_size, high_watermark = high, low_watermark = low,
                queue_name = name, bq_items = [], enqueued_total = 0, dequeued_total = 0,
                dropped_total = 0, under_pressure = False,
                bq_monitor = fst (register_queue name max_size 1 m)\<rparr>)"

definition fill_ratio :: "'a backpressure_queue \<Rightarrow> rat" where
  "fill_ratio q = of_nat (length (bq_items q)) / of_int (bq_max_size q)"

section \<open>Atomic sections\<close>

text \<open>\<open>queue.Queue.put\<close> and the count of a rejected task.\<close>

definition q_put :: "'a \<Rightarrow> 'a backpressure_queue \<Rightarrow> ('a backpressure_queue, unit) outcome" where
  "q_put task q =
     (if int (length (bq_items q)) \<ge> bq_max_size q
      then (q\<lparr>dropped_total := dropped_total q + 1\<rparr>, Inl QueueFullError)
      else (q\<lparr>bq_items := bq_items q @ [task]\<rparr>, Inr ()))"

definition q_get :: "'a backpressure_queue \<Rightarrow> ('a backpressure_queue, 'a) outcome" where
  "q_get q =
     (case bq_items q of
        [] \<Rightarrow> (q, Inl QueueEmptyError)
      | task # rest \<Rightarrow> (q\<lparr>bq_items := rest\<rparr>, Inr task))"

definition report_depth :: "int \<Rightarrow> 'a backpressure_queue \<Rightarrow> ('a backpressure_queue, unit) outcome" where
  "report_depth n q =
     (case update_depth (queue_name q) n (bq_monitor q) of (m, r) \<Rightarrow> (q\<lparr>bq_monitor := m\<rparr>, r))"

definition enqueue_finish :: "'a backpressure_queue \<Rightarrow> ('a backpressure_queue, unit) outcome" where
  "enqueue_finish q =
     (let q1 = q\<lparr>enqueued_total := enqueued_total q + 1\<rparr>;
          q2 = (if fill_ratio q1 \<ge> high_watermark q1 \<and> \<not> under_pressure q1
                then q1\<lparr>under_pressure := True\<rparr> else q1)
      in report_depth (int (length (bq_items q2))) q2)"

definition dequeue_finish :: "'a backpressure_queue \<Rightarrow> ('a backpressure_queue, unit) outcome" where
  "dequeue_finish q =
     (let q1 = q\<lparr>dequeued_total := dequeued_total q + 1\<rparr>;
          q2 = (if fill_ratio q1 < low_watermark q1 \<and> under_pressure q1
                then q1\<lparr>under_pressure := False\<rparr> else q1)
      in report_depth (int (length (bq_items q2))) q2)"

definition drain_finish :: "nat \<Rightarrow> 'a backpressure_queue \<Rightarrow> ('a backpressure_queue, unit) outcome" where
  "drain_finish n q =
     (let q1 = q\<lparr>dequeued_total := dequeued_total q + n\<rparr> in
      case report_depth 0 q1 of
        (q2, Inl x) \<Rightarrow> (q2, Inl x)
      | (q2, Inr _) \<Rightarrow> (q2\<lparr>under_pressure := False\<rparr>, Inr ()))"

section \<open>Operations\<close>

definition enqueue ::
    "('a \<Rightarrow> bool) \<Rightarrow> 'a \<Rightarrow> 'a backpressure_queue \<Rightarrow> ('a backpressure_queue, unit) outcome" where
  "enqueue is_callable task q =
     (if \<not> is_callable task then (q, Inl (TypeError ''task''))
      else case q_put task q of
        (q1, Inl x) \<Rightarrow> (q1, Inl x)
      | (q1, Inr _) \<Rightarrow> enqueue_finish q1)"

definition dequeue :: "'a backpressure_queue \<Rightarrow> ('a backpressure_queue, 'a) outcome" where
  "dequeue q =
     (case q_get q of
        (q1, Inl x) \<Rightarrow> (q1, Inl x)
      | (q1, Inr task) \<Rightarrow>
          (case dequeue_finish q1 of
             (q2, Inl x) \<Rightarrow> (q2, Inl x)
           | (q2, Inr _) \<Rightarrow> (q2, Inr task)))"

text \<open>The shorthands for the calls that do not wait.\<close>

definition enqueue_nowait ::
    "('a \<Rightarrow> bool) \<Rightarrow> 'a \<Rightarrow> 'a backpressure_queue \<Rightarrow> ('a backpressure_queue, unit) outcome" where
  "enqueue_nowait = enqueue"

definition dequeue_nowait :: "'a backpressure_queue \<Rightarrow> ('a backpressure_queue, 'a) outcome" where
  "dequeue_nowait = dequeue"

function drain_loop :: "'a list \<Rightarrow> 'a backpressure_queue \<Rightarrow> 'a backpressure_queue \<times> 'a list" where
  "drain_loop tasks q =
     (case q_get q of
        (q1, Inr task) \<Rightarrow> drain_loop (tasks @ [task]) q1
      | (q1, Inl _) \<Rightarrow> (q1, tasks))"
  by pat_completeness auto
termination
  by (relation "measure (\<lambda>(_, q). length (bq_items q))") (auto simp: q_get_def split: list.splits)

definition drain :: "'a backpressure_queue \<Rightarrow> ('a backpressure_queue, 'a list) outcome" where
  "drain q =
     (case drain_loop [] q of
        (q1, tasks) \<Rightarrow>
          (case drain_finish (length tasks) q1 of
             (q2, Inl x) \<Rightarrow> (q2, Inl x)
           | (q2, Inr _) \<Rightarrow> (q2, Inr tasks)))"

record queue_stats =
  qs_size :: nat
  qs_max_size :: int
  qs_fill_ratio :: rat
  qs_is_under_pressure :: bool
  qs_enqueued_total :: nat
  qs_dequeued_total :: nat
  qs_dropped_total :: nat

definition queue_stats_of :: "'a backpressure_queue \<Rightarrow> queue_stats" where
  "queue_stats_of q =
     \<lparr>qs_size = length (bq_items q), qs_max_size = bq_max_size q, qs_fill_ratio = fill_ratio q,
      qs_is_under_pressure = under_pressure q, qs_enqueued_total = enqueued_total q,
      qs_dequeued_total = dequeued_total q, qs_dropped_total = dropped_total q\<rparr>"

section \<open>The concurrent machine\<close>

text \<open>
  Threads between their two sections: \<open>ct_enq\<close> calls of \<open>enqueue\<close> have put their task but not
  yet counted it, \<open>ct_deq\<close> calls of \<open>dequeue\<close> have taken theirs, and each running \<open>drain\<close> has
  taken the number of tasks in its entry of \<open>ct_drains\<close>. The histories of all tasks put and taken
  are recorded for the specification.
\<close>

record 'a concurrent_queue =
  ct_queue :: "'a backpressure_queue"
  ct_enq :: nat
  ct_deq :: nat
  ct_drains :: "nat list"
  ct_puts :: "'a list"
  ct_gets :: "'a list"

datatype 'a queue_event =
    Put 'a
  | EnqueueFinish
  | Get
  | DequeueFinish
  | DrainStart
  | DrainGet nat
  | DrainFinish nat
  | MonitorChange monitor_event

fun queue_step :: "'a concurrent_queue \<Rightarrow> 'a queue_event \<Rightarrow> 'a concurrent_queue" where
  "queue_step c (Put t) =
     (case q_put t (ct_queue c) of
        (q, Inr _) \<Rightarrow> c\<lparr>ct_queue := q, ct_enq := ct_enq c + 1, ct_puts := ct_puts c @ [t]\<rparr>
      | (q, Inl _) \<Rightarrow> c\<lparr>ct_queue := q\<rparr>)"
| "queue_step c EnqueueFinish =
     (if ct_enq c = 0 then c
      else c\<lparr>ct_queue := fst (enqueue_finish (ct_queue c)), ct_enq := ct_enq c - 1\<rparr>)"
| "queue_step c Get =
     (case q_get (ct_queue c) of
        (q, Inr t) \<Rightarrow> c\<lparr>ct_queue := q, ct_deq := ct_deq c + 1, ct_gets := ct_gets c @ [t]\<rparr>
      | (q, Inl _) \<Rightarrow> c)"
| "queue_step c DequeueFinish =
     (if ct_deq c = 0 then c
      else c\<lparr>ct_queue := fst (dequeue_finish (ct_queue c)), ct_deq := ct_deq c - 1\<rparr>)"
| "queue_step c DrainStart = c\<lparr>ct_drains := ct_drains c @ [0]\<rparr>"
| "queue_step c (DrainGet i) =
     (if i < length (ct_drains c) then
        (case q_get (ct_queue c) of
           (q, Inr t) \<Rightarrow> c\<lparr>ct_queue := q, ct_drains := (ct_drains c)[i := Suc (ct_drains c ! i)],
             ct_gets := ct_gets c @ [t]\<rparr>
         | (q, Inl _) \<Rightarrow> c)
      else c)"
| "queue_step c (DrainFinish i) =
     (if i < length (ct_drains c)
      then c\<lparr>ct_queue := fst (drain_finish (ct_drains c ! i) (ct_queue c)),
             ct_drains := take i (ct_drains c) @ drop (Suc i) (ct_drains c)\<rparr>
      else c)"
| "queue_step c (MonitorChange e) =
     c\<lparr>ct_queue := (ct_queue c)\<lparr>bq_monitor := monitor_step (bq_monitor (ct_queue c)) e\<rparr>\<rparr>"

definition concurrent_inv :: "'a concurrent_queue \<Rightarrow> bool" where
  "concurrent_inv c \<longleftrightarrow>
     int (length (bq_items (ct_queue c))) \<le> bq_max_size (ct_queue c) \<and>
     ct_puts c = ct_gets c @ bq_items (ct_queue c) \<and>
     enqueued_total (ct_queue c) + ct_enq c = length (ct_puts c) \<and>
     dequeued_total (ct_queue c) + ct_deq c + sum_list (ct_drains c) = length (ct_gets c)"

definition idle :: "'a backpressure_queue \<Rightarrow> 'a concurrent_queue" where
  "idle q = \<lparr>ct_queue = q, ct_enq = 0, ct_deq = 0, ct_drains = [], ct_puts = [], ct_gets = []\<rparr>"

section \<open>The contract of a bounded FIFO queue\<close>

locale bounded_fifo =
  fixes push :: "'a \<Rightarrow> 'q \<Rightarrow> 'q \<times> (exn + unit)"
    and pop :: "'q \<Rightarrow> 'q \<times> (exn + 'a)"
    and contents :: "'q \<Rightarrow> 'a list"
    and capacity :: "'q \<Rightarrow> nat"
    and ok :: "'q \<Rightarrow> bool"
  assumes push_room: "ok q \<Longrightarrow> length (contents q) < capacity q \<Longrightarrow>
      \<exists>q'. push x q = (q', Inr ()) \<and> contents q' = contents q @ [x] \<and> capacity q' = capacity q \<and> ok q'"
    and push_full: "ok q \<Longrightarrow> capacity q \<le> length (contents q) \<Longrightarrow>
      \<exists>q'. push x q = (q', Inl QueueFullError) \<and> contents q' = contents q \<and> capacity q' = capacity q \<and> ok q'"
    and pop_some: "ok q \<Longrightarrow> contents q = x # xs \<Longrightarrow>
      \<exists>q'. pop q = (q', Inr x) \<and> contents q' = xs \<and> capacity q' = capacity q \<and> ok q'"
    and pop_none: "ok q \<Longrightarrow> contents q = [] \<Longrightarrow> pop q = (q, Inl QueueEmptyError)"
begin

primrec push_all :: "'a list \<Rightarrow> 'q \<Rightarrow> 'q" where
  "push_all [] q = q"
| "push_all (x # xs) q = push_all xs (fst (push x q))"

primrec pop_n :: "nat \<Rightarrow> 'q \<Rightarrow> 'q \<times> (exn + 'a) list" where
  "pop_n 0 q = (q, [])"
| "pop_n (Suc n) q = (case pop q of (q1, r) \<Rightarrow> case pop_n n q1 of (q2, rs) \<Rightarrow> (q2, r # rs))"

lemma push_all_contents:
  "ok q \<Longrightarrow> length (contents q) + length xs \<le> capacity q \<Longrightarrow>
     contents (push_all xs q) = contents q @ xs \<and> capacity (push_all xs q) = capacity q \<and> ok (push_all xs q)"
proof (induction xs arbitrary: q)
  case (Cons x xs)
  then obtain q' where "push x q = (q', Inr ())" "contents q' = contents q @ [x]"
    "capacity q' = capacity q" "ok q'" using push_room [of q x] by auto
  with Cons show ?case by simp
qed simp

lemma pop_n_contents:
  "ok q \<Longrightarrow> n \<le> length (contents q) \<Longrightarrow>
     snd (pop_n n q) = map Inr (take n (contents q)) \<and> contents (fst (pop_n n q)) = drop n (contents q) \<and>
     ok (fst (pop_n n q))"
proof (induction n arbitrary: q)
  case (Suc n)
  then obtain x xs where xs: "contents q = x # xs" by (cases "contents q") auto
  then obtain q' where "pop q = (q', Inr x)" "contents q' = xs" "ok q'" using pop_some [OF Suc.prems(1)] by blast
  with Suc xs show ?case by (simp add: case_prod_beta)
qed simp

lemma fifo_order:
  assumes "ok q" "contents q = []" "length xs \<le> capacity q"
  shows "snd (pop_n (length xs) (push_all xs q)) = map Inr xs"
  using assms push_all_contents [of q xs] pop_n_contents [of "push_all xs q" "length xs"] by simp

end

section \<open>The sequential queue\<close>

text \<open>Calls one after the other, with a monitor nobody else changes: besides the bounds, the
  monitor knows the depth and the pressure flag has the hysteresis of the two watermarks.\<close>

definition seq_inv :: "'a backpressure_queue \<Rightarrow> bool" where
  "seq_inv q \<longleftrightarrow> 1 \<le> bq_max_size q \<and> 0 \<le> low_watermark q \<and> low_watermark q < high_watermark q \<and>
     int (length (bq_items q)) \<le> bq_max_size q \<and>
     (\<exists>m. dict_get (bm_queues (bq_monitor q)) (queue_name q) = Some m \<and>
        current_depth m = int (length (bq_items q)) \<and> max_depth m = bq_max_size q) \<and>
     (fill_ratio q \<ge> high_watermark q \<longrightarrow> under_pressure q) \<and>
     (under_pressure q \<longrightarrow> fill_ratio q \<ge> low_watermark q)"

datatype 'a queue_call = Enqueue 'a | Dequeue | Drain

fun call_step :: "'a backpressure_queue \<Rightarrow> 'a queue_call \<Rightarrow> 'a backpressure_queue" where
  "call_step q (Enqueue t) = fst (enqueue (\<lambda>_. True) t q)"
| "call_step q Dequeue = fst (dequeue q)"
| "call_step q Drain = fst (drain q)"

section \<open>Lemmas\<close>

lemma report_depth_ok:
  assumes "dict_get (bm_queues (bq_monitor q)) (queue_name q) = Some m" "0 \<le> n"
  shows "report_depth n q = (q\<lparr>bq_monitor := set_depth (queue_name q) n m (bq_monitor q)\<rparr>, Inr ())"
  using assms by (simp add: report_depth_def update_depth_def)

lemma fill_mono:
  "1 \<le> bq_max_size q \<Longrightarrow> length (bq_items q) \<le> length (bq_items q') \<Longrightarrow> bq_max_size q' = bq_max_size q \<Longrightarrow>
     fill_ratio q \<le> fill_ratio q'"
  unfolding fill_ratio_def by (simp add: divide_right_mono)

lemma fill_ratio_update [simp]:
  "fill_ratio (q\<lparr>enqueued_total := e\<rparr>) = fill_ratio q"
  "fill_ratio (q\<lparr>dequeued_total := d\<rparr>) = fill_ratio q"
  "fill_ratio (q\<lparr>under_pressure := u\<rparr>) = fill_ratio q"
  "fill_ratio (q\<lparr>bq_monitor := m\<rparr>) = fill_ratio q"
  by (simp_all add: fill_ratio_def)

lemma enqueue_finish_alt:
  "enqueue_finish q = report_depth (int (length (bq_items q)))
     (q\<lparr>enqueued_total := enqueued_total q + 1,
        under_pressure := under_pressure q \<or> fill_ratio q \<ge> high_watermark q\<rparr>)"
  by (cases q; cases "under_pressure q"; cases "fill_ratio q \<ge> high_watermark q")
    (simp_all add: enqueue_finish_def Let_def fill_ratio_def)

lemma dequeue_finish_alt:
  "dequeue_finish q = report_depth (int (length (bq_items q)))
     (q\<lparr>dequeued_total := dequeued_total q + 1,
        under_pressure := under_pressure q \<and> \<not> fill_ratio q < low_watermark q\<rparr>)"
  by (cases q; cases "under_pressure q"; cases "fill_ratio q < low_watermark q")
    (simp_all add: dequeue_finish_def Let_def fill_ratio_def)

lemma enqueue_room:
  assumes inv: "seq_inv q" and room: "int (length (bq_items q)) < bq_max_size q"
  shows "\<exists>q'. enqueue (\<lambda>_. True) t q = (q', Inr ()) \<and> bq_items q' = bq_items q @ [t] \<and>
    bq_max_size q' = bq_max_size q \<and> seq_inv q'"
proof -
  obtain m where m: "dict_get (bm_queues (bq_monitor q)) (queue_name q) = Some m" "max_depth m = bq_max_size q"
    using inv by (auto simp: seq_inv_def)
  let ?q1 = "q\<lparr>bq_items := bq_items q @ [t]\<rparr>"
  let ?q2 = "?q1\<lparr>enqueued_total := enqueued_total q + 1,
    under_pressure := under_pressure q \<or> fill_ratio ?q1 \<ge> high_watermark q\<rparr>"
  let ?q3 = "?q2\<lparr>bq_monitor := set_depth (queue_name q) (int (length (bq_items ?q1))) m (bq_monitor q)\<rparr>"
  have e: "enqueue (\<lambda>_. True) t q = (?q3, Inr ())"
    using room m report_depth_ok [of ?q2 m "int (length (bq_items ?q1))"]
    by (simp add: enqueue_def q_put_def enqueue_finish_alt)
  have "fill_ratio q \<le> fill_ratio ?q1" using inv by (intro fill_mono) (simp_all add: seq_inv_def)
  then have "seq_inv ?q3"
    using inv room m by (auto simp: seq_inv_def set_depth_def)
  with e show ?thesis by simp
qed

lemma enqueue_full:
  assumes "seq_inv q" "bq_max_size q \<le> int (length (bq_items q))"
  shows "\<exists>q'. enqueue (\<lambda>_. True) t q = (q', Inl QueueFullError) \<and> bq_items q' = bq_items q \<and>
    bq_max_size q' = bq_max_size q \<and> seq_inv q'"
proof -
  have "seq_inv (q\<lparr>dropped_total := n\<rparr>) = seq_inv q" for n by (simp add: seq_inv_def fill_ratio_def)
  with assms show ?thesis by (simp add: enqueue_def q_put_def)
qed

lemma dequeue_some:
  assumes inv: "seq_inv q" and items: "bq_items q = t # ts"
  shows "\<exists>q'. dequeue q = (q', Inr t) \<and> bq_items q' = ts \<and> bq_max_size q' = bq_max_size q \<and> seq_inv q'"
proof -
  obtain m where m: "dict_get (bm_queues (bq_monitor q)) (queue_name q) = Some m" "max_depth m = bq_max_size q"
    using inv by (auto simp: seq_inv_def)
  let ?q1 = "q\<lparr>bq_items := ts\<rparr>"
  let ?q2 = "?q1\<lparr>dequeued_total := dequeued_total q + 1,
    under_pressure := under_pressure q \<and> \<not> fill_ratio ?q1 < low_watermark q\<rparr>"
  let ?q3 = "?q2\<lparr>bq_monitor := set_depth (queue_name q) (int (length ts)) m (bq_monitor q)\<rparr>"
  have e: "dequeue q = (?q3, Inr t)"
    using items m report_depth_ok [of ?q2 m "int (length ts)"]
    by (simp add: dequeue_def q_get_def dequeue_finish_alt)
  have "fill_ratio ?q1 \<le> fill_ratio q" using inv items by (intro fill_mono) (simp_all add: seq_inv_def)
  then have "seq_inv ?q3"
    using inv m items by (auto simp: seq_inv_def set_depth_def)
  with e show ?thesis by simp
qed

lemma dequeue_none: "bq_items q = [] \<Longrightarrow> dequeue q = (q, Inl QueueEmptyError)"
  by (simp add: dequeue_def q_get_def)

interpretation task_fifo: bounded_fifo "enqueue (\<lambda>_. True)" dequeue bq_items "\<lambda>q. nat (bq_max_size q)" seq_inv
proof
  fix q :: "'a backpressure_queue" and x xs
  assume inv: "seq_inv q"
  show "\<exists>q'. enqueue (\<lambda>_. True) x q = (q', Inr ()) \<and> bq_items q' = bq_items q @ [x] \<and>
      nat (bq_max_size q') = nat (bq_max_size q) \<and> seq_inv q'" if "length (bq_items q) < nat (bq_max_size q)"
  proof -
    have "int (length (bq_items q)) < bq_max_size q" using that by linarith
    from enqueue_room [OF inv this, of x] show ?thesis by metis
  qed
  show "\<exists>q'. enqueue (\<lambda>_. True) x q = (q', Inl QueueFullError) \<and> bq_items q' = bq_items q \<and>
      nat (bq_max_size q') = nat (bq_max_size q) \<and> seq_inv q'" if "nat (bq_max_size q) \<le> length (bq_items q)"
  proof -
    have "bq_max_size q \<le> int (length (bq_items q))" using that by linarith
    from enqueue_full [OF inv this, of x] show ?thesis by metis
  qed
  show "\<exists>q'. dequeue q = (q', Inr x) \<and> bq_items q' = xs \<and>
      nat (bq_max_size q') = nat (bq_max_size q) \<and> seq_inv q'" if "bq_items q = x # xs"
    using dequeue_some [OF inv that] by metis
  show "dequeue q = (q, Inl QueueEmptyError)" if "bq_items q = []"
    using that by (rule dequeue_none)
qed

declare drain_loop.simps [simp del]

lemma drain_loop_all: "drain_loop tasks q = (q\<lparr>bq_items := []\<rparr>, tasks @ bq_items q)"
proof (induction "bq_items q" arbitrary: tasks q)
  case Nil
  then show ?case by (subst drain_loop.simps) (cases q; simp add: q_get_def)
next
  case (Cons t ts)
  from Cons(2) [symmetric] Cons(1) [of "q\<lparr>bq_items := ts\<rparr>" "tasks @ [t]"] show ?case
    by (subst drain_loop.simps) (simp add: q_get_def)
qed

lemma drain_all:
  assumes inv: "seq_inv q"
  shows "\<exists>q'. drain q = (q', Inr (bq_items q)) \<and> bq_items q' = [] \<and> \<not> under_pressure q' \<and> seq_inv q'"
proof -
  obtain m where m: "dict_get (bm_queues (bq_monitor q)) (queue_name q) = Some m" "max_depth m = bq_max_size q"
    using inv by (auto simp: seq_inv_def)
  let ?q1 = "q\<lparr>bq_items := [], dequeued_total := dequeued_total q + length (bq_items q)\<rparr>"
  let ?q2 = "?q1\<lparr>bq_monitor := set_depth (queue_name q) 0 m (bq_monitor q)\<rparr>"
  have "drain q = (?q2\<lparr>under_pressure := False\<rparr>, Inr (bq_items q))"
    using m report_depth_ok [of ?q1 m 0]
    by (simp add: drain_def drain_loop_all drain_finish_def Let_def)
  moreover have "seq_inv (?q2\<lparr>under_pressure := False\<rparr>)"
    using inv m by (auto simp: seq_inv_def set_depth_def fill_ratio_def)
  ultimately show ?thesis by simp
qed

interpretation call_machine: inv_system call_step seq_inv
proof
  fix q :: "'a backpressure_queue" and e
  assume inv: "seq_inv q"
  show "seq_inv (call_step q e)"
  proof (cases e)
    case (Enqueue t)
    then show ?thesis
      using enqueue_room [OF inv, of t] enqueue_full [OF inv, of t]
      by (cases "int (length (bq_items q)) < bq_max_size q") auto
  next
    case Dequeue
    then show ?thesis
      using dequeue_some [OF inv] dequeue_none [of q] inv by (cases "bq_items q") auto
  next
    case Drain
    then show ?thesis using drain_all [OF inv] by auto
  qed
qed

lemma BackpressureQueue_inv:
  "BackpressureQueue n mon name high low = Inr q \<Longrightarrow> seq_inv q \<and> bq_items q = [] \<and> bq_max_size q = n"
  by (auto simp: BackpressureQueue_def Let_def seq_inv_def register_queue_def fill_ratio_def
      split: if_splits)

section \<open>Lemmas: the concurrent machine\<close>

lemma report_depth_fields:
  "bq_items (fst (report_depth n q)) = bq_items q"
  "bq_max_size (fst (report_depth n q)) = bq_max_size q"
  "enqueued_total (fst (report_depth n q)) = enqueued_total q"
  "dequeued_total (fst (report_depth n q)) = dequeued_total q"
  by (simp_all add: report_depth_def case_prod_beta)

lemma finish_fields:
  "bq_items (fst (enqueue_finish q)) = bq_items q" "bq_max_size (fst (enqueue_finish q)) = bq_max_size q"
  "enqueued_total (fst (enqueue_finish q)) = enqueued_total q + 1"
  "dequeued_total (fst (enqueue_finish q)) = dequeued_total q"
  "bq_items (fst (dequeue_finish q)) = bq_items q" "bq_max_size (fst (dequeue_finish q)) = bq_max_size q"
  "enqueued_total (fst (dequeue_finish q)) = enqueued_total q"
  "dequeued_total (fst (dequeue_finish q)) = dequeued_total q + 1"
  by (simp_all add: enqueue_finish_alt dequeue_finish_alt report_depth_fields)

lemma drain_finish_fields:
  "bq_items (fst (drain_finish n q)) = bq_items q" "bq_max_size (fst (drain_finish n q)) = bq_max_size q"
  "enqueued_total (fst (drain_finish n q)) = enqueued_total q"
  "dequeued_total (fst (drain_finish n q)) = dequeued_total q + n"
proof -
  let ?q1 = "q\<lparr>dequeued_total := dequeued_total q + n\<rparr>"
  obtain q2 r where r: "report_depth 0 ?q1 = (q2, r)" by (cases "report_depth 0 ?q1")
  then have "bq_items q2 = bq_items q" "bq_max_size q2 = bq_max_size q"
    "enqueued_total q2 = enqueued_total q" "dequeued_total q2 = dequeued_total q + n"
    using report_depth_fields [of 0 ?q1] by simp_all
  with r show "bq_items (fst (drain_finish n q)) = bq_items q"
    "bq_max_size (fst (drain_finish n q)) = bq_max_size q"
    "enqueued_total (fst (drain_finish n q)) = enqueued_total q"
    "dequeued_total (fst (drain_finish n q)) = dequeued_total q + n"
    by (simp_all add: drain_finish_def Let_def split: sum.split)
qed

lemma sum_list_remove_nth:
  "i < length xs \<Longrightarrow> sum_list (take i xs @ drop (Suc i) xs) + xs ! i = sum_list xs" for xs :: "nat list"
  by (subst (3) id_take_nth_drop [of i xs]) simp_all

lemma sum_list_bump:
  "i < length xs \<Longrightarrow> sum_list (xs[i := Suc (xs ! i)]) = Suc (sum_list xs)"
  by (simp add: sum_list_update elem_le_sum_list Suc_diff_le)

lemma q_put_cases:
  "q_put t q = (q\<lparr>bq_items := bq_items q @ [t]\<rparr>, Inr ()) \<and> int (length (bq_items q)) < bq_max_size q \<or>
   q_put t q = (q\<lparr>dropped_total := dropped_total q + 1\<rparr>, Inl QueueFullError)"
  by (simp add: q_put_def)

lemma q_get_cases:
  "bq_items q = [] \<and> q_get q = (q, Inl QueueEmptyError) \<or>
   (\<exists>t ts. bq_items q = t # ts \<and> q_get q = (q\<lparr>bq_items := ts\<rparr>, Inr t))"
  by (cases "bq_items q") (simp_all add: q_get_def)

interpretation queue_machine: inv_system queue_step concurrent_inv
proof
  fix c :: "'a concurrent_queue" and e
  assume inv: "concurrent_inv c"
  show "concurrent_inv (queue_step c e)"
  proof (cases e)
    case EnqueueFinish
    with inv show ?thesis
      by (cases "ct_enq c") (simp_all add: concurrent_inv_def finish_fields)
  next
    case (Put t)
    with inv q_put_cases [of t "ct_queue c"] show ?thesis by (auto simp: concurrent_inv_def)
  next
    case Get
    with inv q_get_cases [of "ct_queue c"] show ?thesis by (auto simp: concurrent_inv_def)
  next
    case (DrainGet i)
    with inv q_get_cases [of "ct_queue c"] show ?thesis by (auto simp: concurrent_inv_def sum_list_bump)
  next
    case (DrainFinish i)
    with inv sum_list_remove_nth [of i "ct_drains c"] show ?thesis
      by (cases "i < length (ct_drains c)") (simp_all add: concurrent_inv_def drain_finish_fields)
  qed (use inv in \<open>simp_all add: concurrent_inv_def finish_fields\<close>)
qed

lemma call_step_max: "bq_max_size (call_step q e) = bq_max_size q"
proof (cases e)
  case (Enqueue t)
  then show ?thesis by (simp add: enqueue_def q_put_def finish_fields)
next
  case Dequeue
  then show ?thesis
    by (cases "bq_items q") (simp_all add: dequeue_def q_get_def finish_fields case_prod_beta split: sum.split)
next
  case Drain
  then show ?thesis
    by (simp add: drain_def drain_loop_all drain_finish_fields case_prod_beta split: sum.split)
qed

lemma calls_max: "bq_max_size (foldl call_step q es) = bq_max_size q"
  by (induction es arbitrary: q) (simp_all add: call_step_max)

text \<open>A queue of two tasks with its own monitor, for the examples.\<close>

definition example_queue :: "nat backpressure_queue" where
  "example_queue = \<lparr>bq_max_size = 2, high_watermark = 1, low_watermark = 1/2, queue_name = ''q'',
     bq_items = [], enqueued_total = 0, dequeued_total = 0, dropped_total = 0, under_pressure = False,
     bq_monitor = \<lparr>bm_warn = 7/10, bm_critical = 9/10,
       bm_queues = [(''q'', \<lparr>qm_name = ''q'', current_depth = 0, max_depth = 2, qm_weight = 1\<rparr>)]\<rparr>\<rparr>"

lemma example_queue_made: "BackpressureQueue 2 None ''q'' 1 (1/2) = Inr example_queue"
  by (simp add: BackpressureQueue_def example_queue_def register_queue_def Let_def)

section \<open>Properties\<close>



text \<open>
  Used from one thread the queue is a FIFO queue of its capacity: tasks that fit are returned
  in the order they were enqueued; \<open>enqueue\<close> on a full queue raises \<open>QueueFullError\<close> and \<open>dequeue\<close>
  on an empty one \<open>QueueEmptyError\<close>, both leaving the tasks alone; \<open>drain\<close> returns everything in
  order; and after every call the monitor knows the depth, the queue is under pressure whenever
  it is filled to the high watermark, and never when it is filled below the low one.
\<close>

theorem task_queue_fifo:
  assumes "BackpressureQueue n mon name high low = Inr q0" "q = foldl call_step q0 es"
  shows "(length (bq_items q) < nat n \<longrightarrow> (\<exists>q'. enqueue (\<lambda>_. True) t q = (q', Inr ()) \<and> bq_items q' = bq_items q @ [t])) \<and>
    (length (bq_items q) = nat n \<longrightarrow>
       (\<exists>q'. enqueue (\<lambda>_. True) t q = (q', Inl QueueFullError) \<and> bq_items q' = bq_items q)) \<and>
    (case bq_items q of [] \<Rightarrow> dequeue q = (q, Inl QueueEmptyError)
     | x # xs \<Rightarrow> (\<exists>q'. dequeue q = (q', Inr x) \<and> bq_items q' = xs)) \<and>
    (\<exists>q'. drain q = (q', Inr (bq_items q)) \<and> bq_items q' = []) \<and>
    (\<exists>m. queue_metrics_of (queue_name q) (bq_monitor q) = Inr m \<and> current_depth m = int (length (bq_items q))) \<and>
    (high_watermark q \<le> fill_ratio q \<longrightarrow> under_pressure q) \<and>
    (fill_ratio q < low_watermark q \<longrightarrow> \<not> under_pressure q)"
proof -
  have start: "seq_inv q0" "bq_max_size q0 = n" using BackpressureQueue_inv [OF assms(1)] by auto
  then have inv: "seq_inv q" unfolding assms(2) by (intro call_machine.run_inv)
  have n: "bq_max_size q = n" using start by (simp add: assms(2) calls_max)
  have "case bq_items q of [] \<Rightarrow> dequeue q = (q, Inl QueueEmptyError)
     | x # xs \<Rightarrow> (\<exists>q'. dequeue q = (q', Inr x) \<and> bq_items q' = xs)"
    using task_fifo.pop_some [OF inv] task_fifo.pop_none [OF inv] by (cases "bq_items q") auto
  moreover have "\<exists>m. queue_metrics_of (queue_name q) (bq_monitor q) = Inr m \<and>
      current_depth m = int (length (bq_items q))"
    using inv by (auto simp: seq_inv_def queue_metrics_of_def)
  moreover have "high_watermark q \<le> fill_ratio q \<longrightarrow> under_pressure q"
    "fill_ratio q < low_watermark q \<longrightarrow> \<not> under_pressure q"
    using inv by (auto simp: seq_inv_def)
  ultimately show ?thesis
    using task_fifo.push_room [OF inv, of t] task_fifo.push_full [OF inv, of t] drain_all [OF inv]
    unfolding n by (intro conjI impI) (blast | simp)+
qed

theorem task_queue_fifo_witness:
  "\<exists>q'. dequeue (foldl call_step example_queue [Enqueue 1, Enqueue 2]) = (q', Inr 1) \<and> bq_items q' = [2]"
proof -
  let ?q = "foldl call_step example_queue [Enqueue 1, Enqueue 2]"
  have "bq_items ?q = [1, 2]"
    by (simp add: enqueue_def q_put_def finish_fields example_queue_def)
  then show ?thesis using task_queue_fifo [OF example_queue_made refl, of "[Enqueue 1, Enqueue 2]"] by simp
qed

text \<open>
  \<open>drain\<close> reports a depth of zero without looking at the queue. When a task is put and counted
  after \<open>drain\<close> found the queue empty and before \<open>drain\<close> takes the lock of the counters, then with
  no call in progress any more a task is waiting while the monitor shows depth 0 and, if the queue
  is full, its pressure flag is off.
\<close>

theorem drain_race:
  "\<exists>es. let c = foldl queue_step (idle example_queue) es; q = ct_queue c in
     ct_enq c = 0 \<and> ct_deq c = 0 \<and> ct_drains c = [] \<and> length (bq_items q) = 2 \<and>
     (\<exists>m. queue_metrics_of (queue_name q) (bq_monitor q) = Inr m \<and> current_depth m = 0) \<and>
     fill_ratio q \<ge> high_watermark q \<and> \<not> under_pressure q"
proof -
  let ?es = "[DrainStart, DrainGet 0, Put 1, EnqueueFinish, Put 2, EnqueueFinish, DrainFinish 0]"
  let ?c = "foldl queue_step (idle example_queue) ?es"
  let ?q = "ct_queue ?c"
  have "ct_enq ?c = 0" "ct_deq ?c = 0" "ct_drains ?c = []" "length (bq_items ?q) = 2"
    "queue_metrics_of (queue_name ?q) (bq_monitor ?q) =
       Inr \<lparr>qm_name = ''q'', current_depth = 0, max_depth = 2, qm_weight = 1\<rparr>"
    "fill_ratio ?q \<ge> high_watermark ?q" "\<not> under_pressure ?q"
    by (simp_all add: idle_def example_queue_def q_get_def q_put_def enqueue_finish_alt report_depth_def
        update_depth_def set_depth_def drain_finish_def fill_ratio_def queue_metrics_of_def Let_def)
  moreover have "current_depth \<lparr>qm_name = ''q'', current_depth = 0, max_depth = 2, qm_weight = 1\<rparr> = 0"
    by simp
  ultimately show ?thesis unfolding Let_def by blast
qed

end
