(* ===== verification/Broker_Queues.thy ===== *)
theory Broker_Queues
  imports Messages "HOL-Library.Product_Lexorder"
begin

text \<open>
  \<open>broker/queue.py\<close> and \<open>broker/dead_letter.py\<close>: the priority queue of the broker and its
  dead-letter queue. \<open>asyncio.PriorityQueue\<close> is modelled by what the code uses of it: a collection
  whose \<open>get\<close> removes the least item, where items compare by priority and arrival number. A call
  that would wait returns \<open>None\<close>. The clock readings of a \<open>get\<close> are given as a function of their
  number.
\<close>

section \<open>The priority queue\<close>

record queue_item =
  qi_priority :: int
  qi_sequence :: nat
  enqueued_at :: timestamp
  qi_envelope :: message_envelope

record priority_queue =
  pq_maxsize :: int
  discard_expired :: bool
  pq_items :: "queue_item list"
  pq_putters :: "queue_item list"
  pq_sequence :: nat
  total_enqueued :: nat
  total_dequeued :: nat
  total_discarded :: nat
  unfinished_tasks :: nat

definition PriorityMessageQueue :: "int \<Rightarrow> bool \<Rightarrow> priority_queue" where
  "PriorityMessageQueue mx discard =
     \<lparr>pq_maxsize = mx, discard_expired = discard, pq_items = [], pq_putters = [], pq_sequence = 0,
      total_enqueued = 0, total_dequeued = 0, total_discarded = 0, unfinished_tasks = 0\<rparr>"

text \<open>The order of \<open>_QueueItem\<close>, a dataclass with \<open>order=True\<close>: first by priority, then by
  sequence.\<close>

definition item_less :: "queue_item \<Rightarrow> queue_item \<Rightarrow> bool" where
  "item_less i j \<longleftrightarrow>
     qi_priority i < qi_priority j \<or> qi_priority i = qi_priority j \<and> qi_sequence i < qi_sequence j"

definition pq_full :: "priority_queue \<Rightarrow> bool" where
  "pq_full q \<longleftrightarrow> 0 < pq_maxsize q \<and> pq_maxsize q \<le> int (length (pq_items q))"

definition make_item :: "timestamp \<Rightarrow> message_envelope \<Rightarrow> priority_queue \<Rightarrow> priority_queue \<times> queue_item" where
  "make_item now env q =
     (q\<lparr>pq_sequence := pq_sequence q + 1\<rparr>,
      \<lparr>qi_priority = priority_value (priority env), qi_sequence = pq_sequence q, enqueued_at = now,
       qi_envelope = env\<rparr>)"

definition insert_item :: "queue_item \<Rightarrow> priority_queue \<Rightarrow> priority_queue" where
  "insert_item i q =
     q\<lparr>pq_items := pq_items q @ [i], unfinished_tasks := unfinished_tasks q + 1,
       total_enqueued := total_enqueued q + 1\<rparr>"

definition put_nowait :: "timestamp \<Rightarrow> message_envelope \<Rightarrow> priority_queue \<Rightarrow> (priority_queue, unit) outcome" where
  "put_nowait now env q =
     (case make_item now env q of
        (q1, i) \<Rightarrow> if pq_full q1 then (q1, Inl QueueFullError) else (insert_item i q1, Inr ()))"

text \<open>\<open>put\<close>: the item gets its number at once; \<open>None\<close> means that the coroutine waits for a free slot
  among \<open>pq_putters\<close>. \<open>resume_put n\<close>: the \<open>n\<close>-th waiting coroutine is woken and inserts its item
  if it finds a slot.\<close>

definition pq_put :: "timestamp \<Rightarrow> message_envelope \<Rightarrow> priority_queue \<Rightarrow> priority_queue \<times> unit option" where
  "pq_put now env q =
     (case make_item now env q of
        (q1, i) \<Rightarrow> if pq_full q1 then (q1\<lparr>pq_putters := pq_putters q1 @ [i]\<rparr>, None)
                   else (insert_item i q1, Some ()))"

definition resume_put :: "nat \<Rightarrow> priority_queue \<Rightarrow> priority_queue" where
  "resume_put n q =
     (if pq_full q \<or> length (pq_putters q) \<le> n then q
      else insert_item (pq_putters q ! n)
        (q\<lparr>pq_putters := take n (pq_putters q) @ drop (Suc n) (pq_putters q)\<rparr>))"

text \<open>The least item and the queue without it.\<close>

fun least_item :: "queue_item \<Rightarrow> queue_item list \<Rightarrow> queue_item" where
  "least_item b [] = b"
| "least_item b (i # is) = (if item_less i b then least_item i is else least_item b is)"

definition pop_least :: "priority_queue \<Rightarrow> (queue_item \<times> priority_queue) option" where
  "pop_least q =
     (case pq_items q of
        [] \<Rightarrow> None
      | i # is \<Rightarrow>
          let b = least_item i is in
          Some (b, q\<lparr>pq_items := remove1 b (pq_items q), total_dequeued := total_dequeued q + 1\<rparr>))"

definition task_done :: "priority_queue \<Rightarrow> (priority_queue, unit) outcome" where
  "task_done q =
     (if unfinished_tasks q = 0 then (q, Inl (ValueError ''task_done''))
      else (q\<lparr>unfinished_tasks := unfinished_tasks q - 1\<rparr>, Inr ()))"

definition get_nowait :: "priority_queue \<Rightarrow> (priority_queue, message_envelope) outcome" where
  "get_nowait q =
     (case pop_least q of
        None \<Rightarrow> (q, Inl QueueEmptyError)
      | Some (i, q1) \<Rightarrow> (q1, Inr (qi_envelope i)))"

lemma least_item_in: "least_item b is \<in> set (b # is)"
  by (induction b "is" rule: least_item.induct) auto

lemma pop_least_shorter:
  "pop_least q = Some (i, q') \<Longrightarrow> length (pq_items q') < length (pq_items q)"
proof (cases "pq_items q")
  case (Cons b bs)
  moreover assume "pop_least q = Some (i, q')"
  ultimately show ?thesis
    using least_item_in [of b bs] length_pos_if_in_set [of "least_item b bs" bs]
    by (auto simp: pop_least_def Let_def length_remove1)
qed (simp add: pop_least_def)

text \<open>\<open>get\<close>; \<open>clk k\<close> is the \<open>k\<close>-th reading of the clock, \<open>None\<close> means that the coroutine waits.\<close>

function pq_get :: "(nat \<Rightarrow> timestamp) \<Rightarrow> nat \<Rightarrow> priority_queue \<Rightarrow> priority_queue \<times> message_envelope option" where
  "pq_get clk k q =
     (case pop_least q of
        None \<Rightarrow> (q, None)
      | Some (i, q1) \<Rightarrow>
          if discard_expired q \<and> is_expired (clk k) (qi_envelope i)
          then pq_get clk (k + 1) (fst (task_done (q1\<lparr>total_discarded := total_discarded q1 + 1\<rparr>)))
          else (q1, Some (qi_envelope i)))"
  by pat_completeness auto
termination
  by (relation "measure (\<lambda>(_, _, q). length (pq_items q))")
    (auto simp: task_done_def dest: pop_least_shorter split: if_splits)

declare pq_get.simps [simp del]

section \<open>The dead-letter queue\<close>

record dead_letter_entry =
  dl_envelope :: message_envelope
  dl_reason :: string
  error_detail :: string
  dead_lettered_at :: timestamp
  attempt_count :: int

record dead_letter_queue =
  dlq_maxsize :: int
  dlq_entries :: "dead_letter_entry list"
  dlq_total_received :: nat

definition DeadLetterQueue :: "int \<Rightarrow> exn + dead_letter_queue" where
  "DeadLetterQueue mx =
     (if mx \<le> 0 then Inl (ValueError ''maxsize'')
      else Inr \<lparr>dlq_maxsize = mx, dlq_entries = [], dlq_total_received = 0\<rparr>)"

definition dlq_push :: "dead_letter_entry \<Rightarrow> dead_letter_queue \<Rightarrow> dead_letter_queue" where
  "dlq_push e d =
     (let kept = (if int (length (dlq_entries d)) \<ge> dlq_maxsize d then tl (dlq_entries d) else dlq_entries d)
      in d\<lparr>dlq_entries := kept @ [e], dlq_total_received := dlq_total_received d + 1\<rparr>)"

definition dlq_pop :: "dead_letter_queue \<Rightarrow> dead_letter_queue \<times> dead_letter_entry option" where
  "dlq_pop d =
     (case dlq_entries d of [] \<Rightarrow> (d, None) | e # es \<Rightarrow> (d\<lparr>dlq_entries := es\<rparr>, Some e))"

definition dlq_list_entries :: "string option \<Rightarrow> int option \<Rightarrow> dead_letter_queue \<Rightarrow> dead_letter_entry list" where
  "dlq_list_entries reason_filter limit d =
     (let entries = (case reason_filter of None \<Rightarrow> dlq_entries d
                     | Some r \<Rightarrow> filter (\<lambda>e. dl_reason e = r) (dlq_entries d))
      in case limit of None \<Rightarrow> entries | Some n \<Rightarrow> slice_from entries (- n))"

definition dlq_clear :: "dead_letter_queue \<Rightarrow> dead_letter_queue \<times> nat" where
  "dlq_clear d = (d\<lparr>dlq_entries := []\<rparr>, length (dlq_entries d))"

section \<open>Invariants\<close>

text \<open>The numbers of the queued items are different and already given out, the counters balance,
  and a bounded queue stays within its bound.\<close>

definition numbered :: "queue_item list \<Rightarrow> nat \<Rightarrow> bool" where
  "numbered is n \<longleftrightarrow> distinct (map qi_sequence is) \<and>
     (\<forall>i \<in> set is. qi_sequence i < n \<and> qi_priority i = priority_value (priority (qi_envelope i)))"

definition pq_inv :: "priority_queue \<Rightarrow> bool" where
  "pq_inv q \<longleftrightarrow> numbered (pq_items q @ pq_putters q) (pq_sequence q) \<and>
     total_enqueued q = total_dequeued q + length (pq_items q) \<and>
     total_discarded q \<le> total_dequeued q \<and>
     (0 < pq_maxsize q \<longrightarrow> int (length (pq_items q)) \<le> pq_maxsize q)"

datatype pq_event =
    PutNowait timestamp message_envelope
  | PutWait timestamp message_envelope
  | ResumePut nat
  | GetWait "nat \<Rightarrow> timestamp"
  | GetNowait
  | TaskDone

fun pq_step :: "priority_queue \<Rightarrow> pq_event \<Rightarrow> priority_queue" where
  "pq_step q (PutNowait now env) = fst (put_nowait now env q)"
| "pq_step q (PutWait now env) = fst (pq_put now env q)"
| "pq_step q (ResumePut n) = resume_put n q"
| "pq_step q (GetWait clk) = fst (pq_get clk 0 q)"
| "pq_step q GetNowait = fst (get_nowait q)"
| "pq_step q TaskDone = fst (task_done q)"

datatype dlq_event = DlqPush dead_letter_entry | DlqPop | DlqClear

fun dlq_step :: "dead_letter_queue \<Rightarrow> dlq_event \<Rightarrow> dead_letter_queue" where
  "dlq_step d (DlqPush e) = dlq_push e d"
| "dlq_step d DlqPop = fst (dlq_pop d)"
| "dlq_step d DlqClear = fst (dlq_clear d)"

section \<open>Lemmas: the priority queue\<close>

lemma item_less_trans: "item_less i j \<Longrightarrow> item_less j k \<Longrightarrow> item_less i k"
  by (auto simp: item_less_def)

lemma item_less_total: "\<not> item_less i j \<Longrightarrow> qi_sequence i \<noteq> qi_sequence j \<Longrightarrow> item_less j i"
  by (auto simp: item_less_def)

lemma least_item_least: "j \<in> set (b # is) \<Longrightarrow> \<not> item_less j (least_item b is)"
proof (induction b "is" arbitrary: j rule: least_item.induct)
  case (1 b)
  then show ?case by (simp add: item_less_def)
next
  case (2 b i "is")
  show ?case
  proof (cases "item_less i b")
    case True
    have "\<not> item_less b (least_item i is)"
      using "2.IH"(1) [OF True, of i] item_less_trans [of b _ i] item_less_trans [of i b] True
      by (auto simp: item_less_def)
    with "2.IH"(1) [OF True] "2.prems" True show ?thesis by auto
  next
    case False
    have "\<not> item_less i (least_item b is)"
      using "2.IH"(2) [OF False, of b] False by (auto simp: item_less_def)
    with "2.IH"(2) [OF False] "2.prems" False show ?thesis by auto
  qed
qed

lemma pop_least_Some:
  assumes "pop_least q = Some (i, q')"
  shows "i \<in> set (pq_items q)" "\<forall>j \<in> set (pq_items q). \<not> item_less j i"
    "q' = q\<lparr>pq_items := remove1 i (pq_items q), total_dequeued := total_dequeued q + 1\<rparr>"
  using assms least_item_in least_item_least
  by (auto simp: pop_least_def Let_def split: list.splits)

lemma pop_least_None: "pop_least q = None \<longleftrightarrow> pq_items q = []"
  by (simp add: pop_least_def Let_def split: list.split)

lemma numbered_perm: "mset is = mset js \<Longrightarrow> numbered is n = numbered js n"
  using mset_eq_distinct_map [of "is" js qi_sequence] mset_eq_setD [of "is" js]
  by (simp add: numbered_def)

lemma numbered_tail: "numbered (i # is) n \<Longrightarrow> numbered is n"
  by (simp add: numbered_def)

lemma numbered_mono: "numbered is n \<Longrightarrow> numbered is (Suc n)"
  by (auto simp: numbered_def less_Suc_eq)

lemma numbered_snoc:
  "numbered is n \<Longrightarrow> qi_sequence i = n \<Longrightarrow> qi_priority i = priority_value (priority (qi_envelope i)) \<Longrightarrow>
     numbered (is @ [i]) (Suc n)"
  by (auto simp: numbered_def less_Suc_eq)

lemma pq_inv_pop:
  assumes "pq_inv q" "pop_least q = Some (i, q')"
  shows "pq_inv q'"
proof -
  note pop = pop_least_Some [OF assms(2)]
  have len: "length (pq_items q) = Suc (length (remove1 i (pq_items q)))"
    using length_pos_if_in_set [OF pop(1)] pop(1) by (simp add: length_remove1)
  have "mset (i # remove1 i (pq_items q) @ pq_putters q) = mset (pq_items q @ pq_putters q)"
    using pop(1) by simp
  then have "numbered (remove1 i (pq_items q) @ pq_putters q) (pq_sequence q)"
    using assms(1) numbered_perm numbered_tail unfolding pq_inv_def by blast
  with assms(1) len show ?thesis unfolding pop(3) by (auto simp: pq_inv_def)
qed

lemma pq_inv_task_done: "pq_inv (fst (task_done q)) = pq_inv q"
  by (simp add: pq_inv_def task_done_def)

lemma pq_inv_get: "pq_inv q \<Longrightarrow> pq_inv (fst (pq_get clk k q))"
proof (induction clk k q rule: pq_get.induct)
  case (1 clk k q)
  show ?case
  proof (cases "pop_least q")
    case None
    with 1 show ?thesis by (simp add: pq_get.simps)
  next
    case (Some p)
    obtain i q1 where p: "p = (i, q1)" by (cases p)
    have inv: "pq_inv q1" using pq_inv_pop "1.prems" Some p by blast
    have "total_discarded q1 < total_dequeued q1"
      using "1.prems" pop_least_Some(3) [OF Some [unfolded p]] by (simp add: pq_inv_def)
    with inv have "pq_inv (q1\<lparr>total_discarded := total_discarded q1 + 1\<rparr>)" by (simp add: pq_inv_def)
    then have "pq_inv (fst (task_done (q1\<lparr>total_discarded := total_discarded q1 + 1\<rparr>)))"
      by (simp only: pq_inv_task_done)
    with "1.IH" [OF Some p [symmetric]] inv Some p show ?thesis
      by (subst pq_get.simps) simp
  qed
qed

lemma insert_item_inv:
  assumes "pq_inv (q\<lparr>pq_putters := ps\<rparr>)" "mset ps = add_mset i (mset (pq_putters q))" "\<not> pq_full q"
  shows "pq_inv (insert_item i q)"
proof -
  have m: "mset (pq_items q @ ps) = mset ((pq_items q @ [i]) @ pq_putters q)" using assms(2) by simp
  have "numbered ((pq_items q @ [i]) @ pq_putters q) (pq_sequence q)"
    using assms(1) numbered_perm [OF m, of "pq_sequence q"] unfolding pq_inv_def by simp
  with assms show ?thesis by (auto simp: pq_inv_def insert_item_def pq_full_def)
qed

lemma make_item_inv:
  "pq_inv q \<Longrightarrow> make_item now env q = (q1, i) \<Longrightarrow>
     pq_inv q1 \<and> pq_inv (q1\<lparr>pq_putters := pq_putters q1 @ [i]\<rparr>)"
  using numbered_mono [of "pq_items q @ pq_putters q" "pq_sequence q"]
    numbered_snoc [of "pq_items q @ pq_putters q" "pq_sequence q" i]
  by (auto simp: pq_inv_def make_item_def)

lemma resume_put_inv:
  assumes inv: "pq_inv q"
  shows "pq_inv (resume_put n q)"
proof (cases "pq_full q \<or> length (pq_putters q) \<le> n")
  case True
  with inv show ?thesis by (simp add: resume_put_def)
next
  case False
  let ?ps = "pq_putters q"
  let ?q = "q\<lparr>pq_putters := take n ?ps @ drop (Suc n) ?ps\<rparr>"
  have "mset (take n ?ps @ ?ps ! n # drop (Suc n) ?ps) = mset ?ps"
    using False by (simp flip: id_take_nth_drop)
  then have "mset ?ps = add_mset (?ps ! n) (mset (pq_putters ?q))" by simp
  moreover have "pq_inv (?q\<lparr>pq_putters := ?ps\<rparr>)" "\<not> pq_full ?q"
    using inv False by (simp_all add: pq_inv_def pq_full_def)
  ultimately have "pq_inv (insert_item (?ps ! n) ?q)" by (intro insert_item_inv)
  with False show ?thesis by (simp add: resume_put_def)
qed

interpretation pq_machine: inv_system pq_step pq_inv
proof
  fix q e assume inv: "pq_inv q"
  show "pq_inv (pq_step q e)"
  proof (cases e)
    case (PutNowait now env)
    obtain q1 i where mk: "make_item now env q = (q1, i)" by (cases "make_item now env q")
    with make_item_inv [OF inv mk] PutNowait show ?thesis by (auto simp: put_nowait_def intro: insert_item_inv)
  next
    case (PutWait now env)
    obtain q1 i where mk: "make_item now env q = (q1, i)" by (cases "make_item now env q")
    with make_item_inv [OF inv mk] PutWait show ?thesis by (auto simp: pq_put_def intro: insert_item_inv)
  next
    case GetNowait
    with pq_inv_pop [OF inv] inv show ?thesis
      by (cases "pop_least q") (auto simp: get_nowait_def)
  qed (simp_all add: inv pq_inv_get pq_inv_task_done resume_put_inv)
qed

text \<open>The order in which the queue hands out what it holds: by priority, then by arrival.\<close>

definition delivery_order :: "priority_queue \<Rightarrow> queue_item list" where
  "delivery_order q = sort_key (\<lambda>i. (qi_priority i, qi_sequence i)) (pq_items q)"

lemma delivery_order_sorted:
  assumes "pq_inv q"
  shows "sorted_wrt item_less (delivery_order q)"
proof -
  let ?k = "\<lambda>i. (qi_priority i, qi_sequence i)" and ?xs = "delivery_order q"
  have m: "mset ?xs = mset (pq_items q)" by (simp add: delivery_order_def)
  have d: "distinct (map qi_sequence ?xs)"
    unfolding mset_eq_distinct_map [OF m] using assms by (simp add: pq_inv_def numbered_def)
  have s: "sorted (map ?k ?xs)" by (simp add: delivery_order_def)
  have "item_less (?xs ! a) (?xs ! b)" if ab: "a < b" "b < length ?xs" for a b
  proof -
    have "?k (?xs ! a) \<le> ?k (?xs ! b)" using s ab by (simp add: sorted_iff_nth_mono_less)
    moreover have "qi_sequence (?xs ! a) \<noteq> qi_sequence (?xs ! b)"
      using d ab nth_eq_iff_index_eq [OF d, of a b] by simp
    ultimately show ?thesis by (auto simp: item_less_def less_eq_prod_def)
  qed
  then show ?thesis by (simp add: sorted_wrt_iff_nth_less)
qed

lemma pq_get_spec:
  assumes "mset xs = mset (pq_items q)" "sorted_wrt item_less xs"
  shows "\<exists>n \<le> length xs.
    (\<forall>i < n. discard_expired q \<and> is_expired (clk (k + i)) (qi_envelope (xs ! i))) \<and>
    mset (pq_items (fst (pq_get clk k q))) = mset (drop (Suc n) xs) \<and>
    (if n = length xs then snd (pq_get clk k q) = None
     else \<not> (discard_expired q \<and> is_expired (clk (k + n)) (qi_envelope (xs ! n))) \<and>
       snd (pq_get clk k q) = Some (qi_envelope (xs ! n)))"
  using assms
proof (induction xs arbitrary: q k)
  case Nil
  then have "pop_least q = None" by (simp add: pop_least_None)
  with Nil show ?case by (simp add: pq_get.simps)
next
  case (Cons x xs)
  have "pq_items q \<noteq> []" using Cons.prems(1) by auto
  then obtain i q1 where pop: "pop_least q = Some (i, q1)"
    by (cases "pop_least q") (auto simp: pop_least_None)
  note least = pop_least_Some [OF pop]
  have set: "set (pq_items q) = set (x # xs)" using mset_eq_setD [OF Cons.prems(1)] by simp
  have i: "i = x" using least(1,2) Cons.prems(2) unfolding set by auto
  have "mset (pq_items q1) = mset (pq_items q) - {#x#}" unfolding least(3) i by simp
  also have "\<dots> = mset xs" unfolding Cons.prems(1) [symmetric] by simp
  finally have m: "mset xs = mset (pq_items q1)" by (rule sym)
  show ?case
  proof (cases "discard_expired q \<and> is_expired (clk k) (qi_envelope x)")
    case False
    then have "pq_get clk k q = (q1, Some (qi_envelope x))" using pop i by (subst pq_get.simps) auto
    with False m show ?thesis by (intro exI [of _ "0::nat"] conjI) simp_all
  next
    case True
    let ?q2 = "fst (task_done (q1\<lparr>total_discarded := total_discarded q1 + 1\<rparr>))"
    have q2: "pq_items ?q2 = pq_items q1" "discard_expired ?q2 = discard_expired q"
      unfolding least(3) by (simp_all add: task_done_def)
    have g: "pq_get clk k q = pq_get clk (k + 1) ?q2" using pop i True by (subst pq_get.simps) simp
    obtain n where n: "n \<le> length xs"
      "\<forall>i < n. discard_expired q \<and> is_expired (clk (k + 1 + i)) (qi_envelope (xs ! i))"
      "mset (pq_items (fst (pq_get clk (k + 1) ?q2))) = mset (drop (Suc n) xs)"
      "if n = length xs then snd (pq_get clk (k + 1) ?q2) = None
       else \<not> (discard_expired q \<and> is_expired (clk (k + 1 + n)) (qi_envelope (xs ! n))) \<and>
         snd (pq_get clk (k + 1) ?q2) = Some (qi_envelope (xs ! n))"
      using Cons.IH [of ?q2 "k + 1"] m Cons.prems(2) unfolding q2 by auto
    have "\<forall>i < Suc n. discard_expired q \<and> is_expired (clk (k + i)) (qi_envelope ((x # xs) ! i))"
      using n(2) True by (auto simp: less_Suc_eq_0_disj)
    moreover have "mset (pq_items (fst (pq_get clk k q))) = mset (drop (Suc (Suc n)) (x # xs))"
      using n(3) unfolding g by simp
    moreover have "if Suc n = length (x # xs) then snd (pq_get clk k q) = None
       else \<not> (discard_expired q \<and> is_expired (clk (k + Suc n)) (qi_envelope ((x # xs) ! Suc n))) \<and>
         snd (pq_get clk k q) = Some (qi_envelope ((x # xs) ! Suc n))"
      using n(4) unfolding g by (cases "n = length xs") simp_all
    ultimately show ?thesis using n(1) by (intro exI [of _ "Suc n"] conjI) simp_all
  qed
qed

section \<open>Lemmas: the dead-letter queue\<close>

definition dlq_inv :: "dead_letter_queue \<Rightarrow> bool" where
  "dlq_inv d \<longleftrightarrow> 0 < dlq_maxsize d \<and> int (length (dlq_entries d)) \<le> dlq_maxsize d"

interpretation dlq_machine: inv_system dlq_step dlq_inv
proof
  fix d e assume "dlq_inv d"
  then show "dlq_inv (dlq_step d e)"
    by (cases e) (auto simp: dlq_inv_def dlq_push_def dlq_pop_def dlq_clear_def Let_def split: list.split)
qed

text \<open>Pushing keeps the newest entries.\<close>

lemma dlq_push_inv: "dlq_inv d \<Longrightarrow> dlq_inv (dlq_push e d)"
  using dlq_machine.step_inv [of d "DlqPush e"] by simp

lemma dlq_push_fields [simp]:
  "dlq_maxsize (dlq_push e d) = dlq_maxsize d"
  "dlq_total_received (dlq_push e d) = Suc (dlq_total_received d)"
  by (simp_all add: dlq_push_def Let_def)

lemma dlq_push_count:
  "dlq_total_received (foldl (\<lambda>d e. dlq_push e d) d es) = dlq_total_received d + length es"
  by (induction es arbitrary: d) simp_all

lemma dlq_push_newest:
  "dlq_inv d \<Longrightarrow> dlq_entries (foldl (\<lambda>d e. dlq_push e d) d es) =
    drop (length (dlq_entries d) + length es - nat (dlq_maxsize d)) (dlq_entries d @ es)"
proof (induction es arbitrary: d)
  case Nil
  then have "length (dlq_entries d) \<le> nat (dlq_maxsize d)" unfolding dlq_inv_def by linarith
  then show ?case by simp
next
  case (Cons e es)
  note IH = Cons.IH [OF dlq_push_inv [OF Cons.prems, of e]]
  show ?case
  proof (cases "int (length (dlq_entries d)) \<ge> dlq_maxsize d")
    case True
    then have len: "length (dlq_entries d) = nat (dlq_maxsize d)" "0 < nat (dlq_maxsize d)"
      using Cons.prems unfolding dlq_inv_def by linarith+
    then obtain y ys where ys: "dlq_entries d = y # ys" by (cases "dlq_entries d") auto
    then have "dlq_entries (dlq_push e d) = ys @ [e]" using True by (simp add: dlq_push_def)
    moreover have "nat (dlq_maxsize d) = Suc (length ys)" using len ys by simp
    ultimately show ?thesis using IH ys by simp
  next
    case False
    then have "dlq_entries (dlq_push e d) = dlq_entries d @ [e]" by (simp add: dlq_push_def)
    with IH show ?thesis by simp
  qed
qed

section \<open>Properties\<close>


text \<open>A message of a given priority, for the examples.\<close>

definition example_message :: "string \<Rightarrow> priority \<Rightarrow> message_envelope" where
  "example_message i p = \<lparr>sender = ''a'', receiver = ''b'', payload = [], message_type = TASK,
     priority = p, topic = JNull, trace_id = ''t'', parent_message_id = None, message_id = i,
     created_at = 0, ttl_seconds = None, cost_budget_usd = None, env_metadata = []\<rparr>"


text \<open>
  The queue accounts for every message: a bounded queue never holds more than its bound, what
  was enqueued is what was dequeued (discarded ones included) plus what is queued, arrival numbers
  are never reused, and \<open>put_nowait\<close> refuses a message exactly when the queue is full, leaving its
  contents alone.
\<close>

theorem priority_queue_accounting:
  assumes "q = foldl pq_step (PriorityMessageQueue mx discard) es"
  shows "(0 < mx \<longrightarrow> int (length (pq_items q)) \<le> mx) \<and>
    total_enqueued q = total_dequeued q + length (pq_items q) \<and> total_discarded q \<le> total_dequeued q \<and>
    distinct (map qi_sequence (pq_items q @ pq_putters q)) \<and>
    (case put_nowait now env q of
       (q', Inl x) \<Rightarrow> x = QueueFullError \<and> 0 < mx \<and> int (length (pq_items q)) = mx \<and> pq_items q' = pq_items q
     | (q', Inr _) \<Rightarrow> (0 < mx \<longrightarrow> int (length (pq_items q)) < mx) \<and> map qi_envelope (pq_items q') =
         map qi_envelope (pq_items q) @ [env])"
proof -
  have "pq_inv (PriorityMessageQueue mx discard)"
    by (simp add: PriorityMessageQueue_def pq_inv_def numbered_def)
  then have inv: "pq_inv q" unfolding assms by (rule pq_machine.run_inv)
  have get: "pq_maxsize (fst (pq_get clk k q)) = pq_maxsize q" for clk k q
  proof (induction clk k q rule: pq_get.induct)
    case (1 clk k q)
    then show ?case
      by (subst pq_get.simps)
        (auto simp: task_done_def dest: pop_least_Some(3) split: option.split prod.split if_splits)
  qed
  have step: "pq_maxsize (pq_step q e) = pq_maxsize q" for q e
    by (cases e) (auto simp: get put_nowait_def pq_put_def make_item_def insert_item_def resume_put_def
        get_nowait_def task_done_def dest: pop_least_Some(3) split: option.split)
  have "pq_maxsize (foldl pq_step q es) = pq_maxsize q" for q
    by (induction es arbitrary: q) (simp_all add: step)
  then have mx: "pq_maxsize q = mx" by (simp add: assms PriorityMessageQueue_def)
  show ?thesis
    using inv mx by (auto simp: pq_inv_def numbered_def put_nowait_def make_item_def pq_full_def insert_item_def)
qed

theorem priority_queue_accounting_witness:
  "int (length (pq_items (foldl pq_step (PriorityMessageQueue 1 True)
     [PutNowait 0 (example_message ''m'' LOW), PutNowait 1 (example_message ''n'' CRITICAL)]))) \<le> 1"
  using priority_queue_accounting [OF refl, where mx = 1 and discard = True and now = 0 and
      env = "example_message ''x'' LOW", THEN conjunct1] zero_less_one by blast

text \<open>
  The dead-letter queue never exceeds its size and keeps the newest letters: after any pushes
  without a removal it holds the last \<open>maxsize\<close> of them in order and has counted all. Listing with
  a positive limit returns that many of the newest entries; with the limit 0 it returns all of
  them.
\<close>

theorem dead_letters_newest:
  assumes "DeadLetterQueue mx = Inr d0" "d = foldl dlq_step d0 es" "0 < n"
  shows "int (length (dlq_entries d)) \<le> mx \<and>
    dlq_entries (foldl (\<lambda>d e. dlq_push e d) d0 ls) = drop (length ls - nat mx) ls \<and>
    dlq_total_received (foldl (\<lambda>d e. dlq_push e d) d0 ls) = length ls \<and>
    dlq_list_entries None (Some n) d = drop (length (dlq_entries d) - nat n) (dlq_entries d) \<and>
    dlq_list_entries None (Some 0) d = dlq_entries d"
proof -
  have d0: "dlq_inv d0" "dlq_maxsize d0 = mx" "dlq_entries d0 = []" "dlq_total_received d0 = 0"
    using assms(1) by (auto simp: DeadLetterQueue_def dlq_inv_def split: if_splits)
  have "dlq_maxsize (dlq_step d e) = dlq_maxsize d" for d e
    by (cases e) (auto simp: dlq_pop_def dlq_clear_def split: list.split)
  then have "dlq_maxsize (foldl dlq_step d es) = dlq_maxsize d" for d
    by (induction es arbitrary: d) simp_all
  then have "dlq_maxsize d = mx" using d0 assms(2) by simp
  moreover have "dlq_inv d" unfolding assms(2) using d0(1) by (rule dlq_machine.run_inv)
  moreover have "nat (int (length (dlq_entries d)) - n) = length (dlq_entries d) - nat n" using assms(3) by simp
  ultimately show ?thesis
    using dlq_push_newest [OF d0(1), of ls] dlq_push_count [of d0 ls] d0 assms(3)
    by (simp add: dlq_inv_def dlq_list_entries_def slice_from_def Let_def)
qed

theorem dead_letters_newest_witness:
  "int (length (dlq_entries (foldl dlq_step \<lparr>dlq_maxsize = 1, dlq_entries = [], dlq_total_received = 0\<rparr>
     [DlqPush \<lparr>dl_envelope = example_message ''m'' LOW, dl_reason = ''no_subscriber'', error_detail = [],
        dead_lettered_at = 0, attempt_count = 1\<rparr>, DlqPop, DlqClear]))) \<le> 1"
proof -
  have "DeadLetterQueue 1 = Inr \<lparr>dlq_maxsize = 1, dlq_entries = [], dlq_total_received = 0\<rparr>"
    by (simp add: DeadLetterQueue_def)
  then show ?thesis using dead_letters_newest [OF _ refl zero_less_one] by blast
qed

end
