(* ===== verification/Topic_Manager.thy ===== *)
theory Topic_Manager
  imports Mesh_Prelude
begin

text \<open>
  \<open>broker/pubsub.py\<close>: subscriptions of agents to topic patterns, kept in two indexes, and the
  matching of a published topic. The patterns are those of \<open>fnmatch.fnmatchcase\<close>, modelled here
  with its wildcards and character classes.
\<close>

section \<open>Patterns\<close>

datatype glob_token =
    Star
  | AnyChar
  | Lit char
  | CharClass bool "(char \<times> char) list"

text \<open>The members of a class between its brackets: \<open>a-b\<close> is a range, a hyphen elsewhere stands for
  itself.\<close>

fun class_ranges :: "string \<Rightarrow> (char \<times> char) list" where
  "class_ranges [] = []"
| "class_ranges (c # cs) =
     (case cs of
        h # d # rest \<Rightarrow> if h = CHR ''-'' then (c, d) # class_ranges rest else (c, c) # class_ranges cs
      | _ \<Rightarrow> (c, c) # class_ranges cs)"

text \<open>The text up to the closing bracket and what follows it; a bracket in first place (after the
  negation sign) belongs to the class. \<open>None\<close> when the bracket is never closed.\<close>

definition split_close :: "string \<Rightarrow> (string \<times> string) option" where
  "split_close s =
     (let (neg, s1) = (case s of c # r \<Rightarrow> if c = CHR ''!'' then ([c], r) else ([], s) | [] \<Rightarrow> ([], []));
          (first, s2) = (case s1 of c # r \<Rightarrow> if c = CHR '']'' then ([c], r) else ([], s1) | [] \<Rightarrow> ([], []));
          body = takeWhile (\<lambda>c. c \<noteq> CHR '']'') s2
      in if length body < length s2
         then Some (neg @ first @ body, drop (Suc (length body)) s2) else None)"

definition mk_class :: "string \<Rightarrow> glob_token" where
  "mk_class stuff =
     (case stuff of
        c # rest \<Rightarrow> if c = CHR ''!'' then CharClass True (class_ranges rest)
                   else CharClass False (class_ranges stuff)
      | [] \<Rightarrow> CharClass False [])"

lemma split_close_shorter: "split_close s = Some (a, r) \<Longrightarrow> length r < length s"
  by (auto simp: split_close_def Let_def split: list.splits if_splits)

function glob_tokens :: "string \<Rightarrow> glob_token list" where
  "glob_tokens [] = []"
| "glob_tokens (c # cs) =
     (if c = CHR ''*'' then Star # glob_tokens cs
      else if c = CHR ''?'' then AnyChar # glob_tokens cs
      else if c = CHR ''['' then
        (case split_close cs of
           None \<Rightarrow> Lit c # glob_tokens cs
         | Some (stuff, rest) \<Rightarrow> mk_class stuff # glob_tokens rest)
      else Lit c # glob_tokens cs)"
  by pat_completeness auto
termination
  by (relation "measure length") (auto dest: split_close_shorter)

definition in_class :: "char \<Rightarrow> (char \<times> char) list \<Rightarrow> bool" where
  "in_class c ranges \<longleftrightarrow> list_ex (\<lambda>(lo, hi). lo \<le> c \<and> c \<le> hi) ranges"

fun glob_match :: "glob_token list \<Rightarrow> string \<Rightarrow> bool" where
  "glob_match [] s = (s = [])"
| "glob_match (Star # ts) [] = glob_match ts []"
| "glob_match (Star # ts) (c # s) = (glob_match ts (c # s) \<or> glob_match (Star # ts) s)"
| "glob_match (AnyChar # ts) (c # s) = glob_match ts s"
| "glob_match (Lit d # ts) (c # s) = (c = d \<and> glob_match ts s)"
| "glob_match (CharClass neg rs # ts) (c # s) = (in_class c rs \<noteq> neg \<and> glob_match ts s)"
| "glob_match _ [] = False"

definition fnmatchcase :: "string \<Rightarrow> string \<Rightarrow> bool" where
  "fnmatchcase name pat = glob_match (glob_tokens pat) name"

section \<open>State\<close>

record topic_manager =
  case_sensitive :: bool
  subscriptions :: "(string, string set) dict"
  agent_patterns :: "(string, string set) dict"
  publish_count :: nat
  total_deliveries :: nat

definition TopicManager :: "bool \<Rightarrow> topic_manager" where
  "TopicManager cs =
     \<lparr>case_sensitive = cs, subscriptions = [], agent_patterns = [], publish_count = 0, total_deliveries = 0\<rparr>"

definition normalize :: "topic_manager \<Rightarrow> string \<Rightarrow> string" where
  "normalize m v = (if case_sensitive m then v else py_lower v)"

text \<open>\<open>d[k].add(x)\<close> on a \<open>defaultdict(set)\<close>, and \<open>d[k].discard(x)\<close> followed by the removal of an
  empty entry.\<close>

definition index_add :: "string \<Rightarrow> string \<Rightarrow> (string, string set) dict \<Rightarrow> (string, string set) dict" where
  "index_add k x d = dict_set k (insert x (dict_get_or d k {})) d"

definition index_discard :: "string \<Rightarrow> string \<Rightarrow> (string, string set) dict \<Rightarrow> (string, string set) dict" where
  "index_discard k x d =
     (let s = dict_get_or d k {} - {x} in if s = {} then dict_del k d else dict_set k s d)"

section \<open>Operations\<close>

definition subscribe :: "string \<Rightarrow> string \<Rightarrow> topic_manager \<Rightarrow> (topic_manager, unit) outcome" where
  "subscribe a pattern m =
     (if blank a then (m, Inl (ValueError ''agent_id''))
      else if blank pattern then (m, Inl (ValueError ''pattern''))
      else
        let p = normalize m pattern in
        (m\<lparr>subscriptions := index_add p a (subscriptions m),
           agent_patterns := index_add a p (agent_patterns m)\<rparr>, Inr ()))"

definition unsubscribe :: "string \<Rightarrow> string \<Rightarrow> topic_manager \<Rightarrow> topic_manager" where
  "unsubscribe a pattern m =
     (let p = normalize m pattern in
      m\<lparr>subscriptions := index_discard p a (subscriptions m),
        agent_patterns := index_discard a p (agent_patterns m)\<rparr>)"

text \<open>The loop over the popped set of patterns; its order does not matter.\<close>

definition unsubscribe_all :: "string \<Rightarrow> topic_manager \<Rightarrow> topic_manager \<times> nat" where
  "unsubscribe_all a m =
     (let patterns = dict_get_or (agent_patterns m) a {} in
      (m\<lparr>agent_patterns := dict_del a (agent_patterns m),
         subscriptions := fold (\<lambda>p d. index_discard p a d) (sorted_list_of_set patterns) (subscriptions m)\<rparr>,
       card patterns))"

definition resolve_subscribers :: "string \<Rightarrow> topic_manager \<Rightarrow> string set" where
  "resolve_subscribers topic m =
     \<Union> (snd ` set (filter (\<lambda>(p, _). fnmatchcase (normalize m topic) p) (subscriptions m)))"

definition publish :: "string \<Rightarrow> topic_manager \<Rightarrow> topic_manager \<times> string set" where
  "publish topic m =
     (let matched = resolve_subscribers topic m in
      (m\<lparr>publish_count := publish_count m + 1,
         total_deliveries := total_deliveries m + card matched\<rparr>, matched))"

definition list_topics :: "topic_manager \<Rightarrow> string list" where
  "list_topics m = sort (dict_keys (subscriptions m))"

definition list_subscribers :: "string \<Rightarrow> topic_manager \<Rightarrow> string set" where
  "list_subscribers pattern m = dict_get_or (subscriptions m) (normalize m pattern) {}"

definition list_agent_patterns :: "string \<Rightarrow> topic_manager \<Rightarrow> string set" where
  "list_agent_patterns a m = dict_get_or (agent_patterns m) a {}"

definition subscriber_count :: "string option \<Rightarrow> topic_manager \<Rightarrow> nat" where
  "subscriber_count pattern m =
     (case pattern of
        Some p \<Rightarrow> card (dict_get_or (subscriptions m) (normalize m p) {})
      | None \<Rightarrow> card (\<Union> (set (dict_values (subscriptions m)))))"

section \<open>Specification\<close>

text \<open>The abstract state: the set of active subscriptions, as pairs of agent and pattern.\<close>

datatype topic_event =
    Subscribe string string
  | Unsubscribe string string
  | UnsubscribeAll string
  | Publish string

fun topic_step :: "topic_manager \<Rightarrow> topic_event \<Rightarrow> topic_manager" where
  "topic_step m (Subscribe a p) = fst (subscribe a p m)"
| "topic_step m (Unsubscribe a p) = unsubscribe a p m"
| "topic_step m (UnsubscribeAll a) = fst (unsubscribe_all a m)"
| "topic_step m (Publish t) = fst (publish t m)"

text \<open>What the calls mean: \<open>nrm\<close> is the normalization of patterns.\<close>

fun active_step :: "(string \<Rightarrow> string) \<Rightarrow> (string \<times> string) set \<Rightarrow> topic_event \<Rightarrow> (string \<times> string) set" where
  "active_step nrm S (Subscribe a p) = (if blank a \<or> blank p then S else insert (a, nrm p) S)"
| "active_step nrm S (Unsubscribe a p) = S - {(a, nrm p)}"
| "active_step nrm S (UnsubscribeAll a) = {(b, p) \<in> S. b \<noteq> a}"
| "active_step nrm S (Publish t) = S"

text \<open>Both indexes hold the same relation, with no empty or infinite entries.\<close>

definition index_ok :: "(string, string set) dict \<Rightarrow> (string \<times> string) set \<Rightarrow> bool" where
  "index_ok d R \<longleftrightarrow> dict_wf d \<and> finite R \<and> (\<forall>k. dict_get_or d k {} = {x. (k, x) \<in> R}) \<and>
     (\<forall>k. dict_get d k \<noteq> Some {})"

definition represents :: "topic_manager \<Rightarrow> (string \<times> string) set \<Rightarrow> bool" where
  "represents m S \<longleftrightarrow> index_ok (agent_patterns m) S \<and> index_ok (subscriptions m) (S\<inverse>)"

section \<open>Lemmas: the indexes\<close>

lemma index_ok_add: "index_ok d R \<Longrightarrow> index_ok (index_add k x d) (insert (k, x) R)"
  by (auto simp: index_ok_def index_add_def dict_get_or_set)

lemma dict_get_or_del: "dict_get_or (dict_del k d) k' z = (if k' = k then z else dict_get_or d k' z)"
  by (simp add: dict_get_or_def)

lemma index_ok_discard: "index_ok d R \<Longrightarrow> index_ok (index_discard k x d) (R - {(k, x)})"
  by (auto simp: index_ok_def index_discard_def Let_def dict_get_or_set dict_get_or_del)

lemma index_ok_discards:
  "index_ok d R \<Longrightarrow> index_ok (fold (\<lambda>p d. index_discard p x d) ps d) (R - (\<lambda>p. (p, x)) ` set ps)"
proof (induction ps arbitrary: d R)
  case (Cons p ps)
  have "R - {(p, x)} - (\<lambda>p. (p, x)) ` set ps = R - (\<lambda>p. (p, x)) ` set (p # ps)" by auto
  with Cons.IH [OF index_ok_discard [OF Cons.prems, of p x]] show ?case by simp
qed simp

lemma index_ok_del: "index_ok d R \<Longrightarrow> index_ok (dict_del k d) {(b, p) \<in> R. b \<noteq> k}"
  by (auto simp: index_ok_def dict_get_or_del intro: rev_finite_subset)

lemma represents_step:
  assumes "represents m S"
  shows "represents (topic_step m e) (active_step (normalize m) S e)"
proof (cases e)
  case (Subscribe a p)
  show ?thesis
  proof (cases "blank a \<or> blank p")
    case True
    with assms Subscribe show ?thesis by (auto simp: subscribe_def)
  next
    case False
    have "(insert (a, normalize m p) S)\<inverse> = insert (normalize m p, a) (S\<inverse>)" by auto
    with False assms Subscribe show ?thesis
      by (simp add: subscribe_def represents_def Let_def index_ok_add)
  qed
next
  case (Unsubscribe a p)
  have "(S - {(a, normalize m p)})\<inverse> = S\<inverse> - {(normalize m p, a)}" by auto
  with assms Unsubscribe show ?thesis
    by (simp add: unsubscribe_def represents_def Let_def index_ok_discard)
next
  case (UnsubscribeAll a)
  have idx: "index_ok (agent_patterns m) S" "index_ok (subscriptions m) (S\<inverse>)"
    using assms by (simp_all add: represents_def)
  let ?P = "dict_get_or (agent_patterns m) a {}"
  have P: "?P = {p. (a, p) \<in> S}" "finite S" using idx(1) by (auto simp: index_ok_def)
  then have "finite ?P" using finite_subset [of ?P "snd ` S"] by (force simp: image_iff)
  then have "(S\<inverse> - (\<lambda>p. (p, a)) ` set (sorted_list_of_set ?P)) = {(b, p) \<in> S. b \<noteq> a}\<inverse>"
    using P(1) by auto
  with index_ok_discards [OF idx(2), of a "sorted_list_of_set ?P"] index_ok_del [OF idx(1), of a]
  show ?thesis by (simp add: UnsubscribeAll unsubscribe_all_def represents_def Let_def)
next
  case (Publish t)
  with assms show ?thesis by (simp add: publish_def represents_def Let_def)
qed

lemma case_sensitive_step: "case_sensitive (topic_step m e) = case_sensitive m"
  by (cases e) (simp_all add: subscribe_def unsubscribe_def unsubscribe_all_def publish_def Let_def)

lemma represents_run:
  "represents m S \<Longrightarrow> represents (foldl topic_step m es) (foldl (active_step (normalize m)) S es)"
proof (induction es arbitrary: m S)
  case (Cons e es)
  have "normalize (topic_step m e) = normalize m"
    by (simp add: fun_eq_iff normalize_def case_sensitive_step)
  with Cons.IH [OF represents_step [OF Cons.prems, of e]] show ?case by simp
qed simp

lemma represents_new: "represents (TopicManager cs) {}"
  by (simp add: represents_def TopicManager_def index_ok_def dict_get_or_def)

lemma resolve_represents:
  assumes "represents m S"
  shows "resolve_subscribers t m = {a. \<exists>p. (a, p) \<in> S \<and> fnmatchcase (normalize m t) p}"
proof -
  have idx: "dict_wf (subscriptions m)" "\<And>p. dict_get_or (subscriptions m) p {} = {a. (a, p) \<in> S}"
    using assms by (simp_all add: represents_def index_ok_def)
  have "(\<exists>s. (p, s) \<in> set (subscriptions m) \<and> a \<in> s) \<longleftrightarrow> (a, p) \<in> S" for a p
  proof -
    have "(\<exists>s. (p, s) \<in> set (subscriptions m) \<and> a \<in> s) \<longleftrightarrow> a \<in> dict_get_or (subscriptions m) p {}"
      unfolding map_of_eq_Some_iff [OF idx(1), symmetric] dict_get_or_def by (simp split: option.split)
    then show ?thesis unfolding idx(2) by simp
  qed
  moreover have "a \<in> resolve_subscribers t m \<longleftrightarrow>
      (\<exists>p. fnmatchcase (normalize m t) p \<and> (\<exists>s. (p, s) \<in> set (subscriptions m) \<and> a \<in> s))" for a
    unfolding resolve_subscribers_def by (auto simp: image_iff)
  ultimately show ?thesis by blast
qed

section \<open>Lemmas: patterns\<close>

definition literal :: "string \<Rightarrow> bool" where
  "literal s \<longleftrightarrow> set s \<inter> {CHR ''*'', CHR ''?'', CHR ''[''} = {}"

lemma glob_tokens_literal: "literal s \<Longrightarrow> glob_tokens (s @ r) = map Lit s @ glob_tokens r"
  by (induction s) (auto simp: literal_def)

lemma glob_match_literal: "glob_match (map Lit s @ ts) n \<longleftrightarrow> (\<exists>r. n = s @ r \<and> glob_match ts r)"
proof (induction s arbitrary: n)
  case (Cons c s)
  then show ?case by (cases n) auto
qed simp

lemma glob_match_star: "glob_match [Star] n"
  by (induction n) auto

lemma glob_match_Star_append: "glob_match (Star # ts) n \<longleftrightarrow> (\<exists>a b. n = a @ b \<and> glob_match ts b)"
proof (induction n)
  case step: (Cons c n)
  show ?case
  proof
    assume "glob_match (Star # ts) (c # n)"
    then consider "glob_match ts (c # n)" | "glob_match (Star # ts) n" by auto
    then show "\<exists>a b. c # n = a @ b \<and> glob_match ts b"
    proof cases
      case 1
      then show ?thesis by (intro exI [of _ "[]"] exI [of _ "c # n"]) simp
    next
      case 2
      then obtain a b where "n = a @ b" "glob_match ts b" using step.IH by blast
      then show ?thesis by (intro exI [of _ "c # a"] exI [of _ b]) simp
    qed
  next
    assume "\<exists>a b. c # n = a @ b \<and> glob_match ts b"
    then obtain a b where ab: "c # n = a @ b" "glob_match ts b" by blast
    show "glob_match (Star # ts) (c # n)"
    proof (cases a)
      case Nil
      with ab have "glob_match ts (c # n)" by simp
      then show ?thesis by simp
    next
      case (Cons d a')
      with ab have "n = a' @ b" by simp
      with ab(2) step.IH show ?thesis by auto
    qed
  qed
qed auto

lemma publish_run:
  "snd (publish t (foldl topic_step (TopicManager cs) es)) =
     {a. \<exists>p. (a, p) \<in> foldl (active_step (normalize (TopicManager cs))) {} es \<and>
        fnmatchcase (normalize (TopicManager cs) t) p}"
proof -
  let ?m = "foldl topic_step (TopicManager cs) es"
  have "case_sensitive (foldl topic_step m es) = case_sensitive m" for m
    by (induction es arbitrary: m) (simp_all add: case_sensitive_step)
  then have "normalize ?m = normalize (TopicManager cs)" by (simp add: fun_eq_iff normalize_def)
  with resolve_represents [OF represents_run [OF represents_new], of t cs es] show ?thesis
    by (simp add: publish_def Let_def)
qed

lemma fnmatch_literal:
  assumes "literal p"
  shows "fnmatchcase t p \<longleftrightarrow> t = p" "fnmatchcase t (p @ ''*'') \<longleftrightarrow> (\<exists>r. t = p @ r)"
    "fnmatchcase t (''*'' @ p) \<longleftrightarrow> (\<exists>r. t = r @ p)"
proof -
  have p: "glob_tokens p = map Lit p" using glob_tokens_literal [OF assms, of "[]"] by simp
  have exact: "glob_match (map Lit p) n \<longleftrightarrow> n = p" for n
    using glob_match_literal [of p "[]" n] by auto
  then show "fnmatchcase t p \<longleftrightarrow> t = p" by (simp add: fnmatchcase_def p)
  show "fnmatchcase t (p @ ''*'') \<longleftrightarrow> (\<exists>r. t = p @ r)"
    using glob_match_literal [of p "[Star]" t] glob_match_star
    by (simp add: fnmatchcase_def glob_tokens_literal [OF assms])
  show "fnmatchcase t (''*'' @ p) \<longleftrightarrow> (\<exists>r. t = r @ p)"
    using glob_match_Star_append [of "map Lit p" t] by (simp add: fnmatchcase_def p exact)
qed

section \<open>Properties\<close>

text \<open>
  C7: The topic manager refines a set of active subscriptions. After any calls, both of its
  indexes hold exactly the subscriptions made and not withdrawn since (with case folded patterns
  when it is case insensitive); publishing to a topic reaches exactly the agents with an active
  subscription whose pattern matches the topic; and the number of patterns an
  \<open>unsubscribe_all\<close> reports is the number it removes.
\<close>

theorem topic_manager_refines:
  assumes "m = foldl topic_step (TopicManager cs) es"
    "S = foldl (active_step (normalize (TopicManager cs))) {} es"
  shows "(\<forall>a. list_agent_patterns a m = {p. (a, p) \<in> S}) \<and>
    (\<forall>p. list_subscribers p m = {a. (a, normalize m p) \<in> S}) \<and>
    snd (publish t m) = {a. \<exists>p. (a, p) \<in> S \<and> fnmatchcase (normalize m t) p} \<and>
    snd (unsubscribe_all b m) = card {p. (b, p) \<in> S} \<and>
    set (list_topics m) = snd ` S"
proof -
  have rep: "represents m S"
    unfolding assms by (rule represents_run [OF represents_new])
  then have idx: "index_ok (agent_patterns m) S" "index_ok (subscriptions m) (S\<inverse>)"
    by (simp_all add: represents_def)
  have "p \<in> set (dict_keys (subscriptions m)) \<longleftrightarrow> p \<in> snd ` S" for p
  proof -
    have "p \<in> set (dict_keys (subscriptions m)) \<longleftrightarrow> dict_get_or (subscriptions m) p {} \<noteq> {}"
    proof -
      have "dict_get (subscriptions m) p \<noteq> Some {}" using idx(2) by (simp add: index_ok_def)
      then show ?thesis
        unfolding dict_has_iff [symmetric] dict_has_def dict_get_or_def by (auto split: option.split)
    qed
    also have "\<dots> \<longleftrightarrow> (\<exists>a. (a, p) \<in> S)" using idx(2) by (auto simp: index_ok_def)
    finally show ?thesis by force
  qed
  then have "set (list_topics m) = snd ` S" unfolding list_topics_def set_sort by blast
  moreover have "\<forall>a. list_agent_patterns a m = {p. (a, p) \<in> S}"
    using idx(1) by (simp add: list_agent_patterns_def index_ok_def)
  moreover have "\<forall>p. list_subscribers p m = {a. (a, normalize m p) \<in> S}"
    using idx(2) by (simp add: list_subscribers_def index_ok_def)
  moreover have "snd (publish t m) = {a. \<exists>p. (a, p) \<in> S \<and> fnmatchcase (normalize m t) p}"
    using resolve_represents [OF rep, of t] by (simp add: publish_def Let_def)
  moreover have "snd (unsubscribe_all b m) = card {p. (b, p) \<in> S}"
    using idx(1) by (simp add: unsubscribe_all_def Let_def index_ok_def)
  ultimately show ?thesis by blast
qed

theorem topic_manager_refines_witness:
  "''x'' \<in> snd (publish ''EV.err'' (foldl topic_step (TopicManager False)
     [Subscribe ''x'' ''ev.*'', Subscribe ''y'' ''ev.err'', Unsubscribe ''y'' ''EV.err'']))"
proof -
  let ?es = "[Subscribe ''x'' ''ev.*'', Subscribe ''y'' ''ev.err'', Unsubscribe ''y'' ''EV.err'']"
  let ?m = "foldl topic_step (TopicManager False) ?es"
  have "snd (publish ''EV.err'' ?m) =
      {a. \<exists>p. (a, p) \<in> foldl (active_step (normalize (TopicManager False))) {} ?es \<and>
        fnmatchcase (normalize ?m ''EV.err'') p}"
    using topic_manager_refines [OF refl refl, where t = "''EV.err''" and cs = False and es = ?es] by blast
  moreover have "(''x'', ''ev.*'') \<in> foldl (active_step (normalize (TopicManager False))) {} ?es"
    by (simp add: TopicManager_def normalize_def py_lower_def py_lower_char_def blank_def py_isspace_def)
  moreover have "fnmatchcase (normalize ?m ''EV.err'') ''ev.*''" by code_simp
  ultimately show ?thesis by blast
qed

text \<open>
  A subscription to a topic without wildcards receives exactly that topic; one to a
  wildcard-free prefix followed by \<open>*\<close> receives exactly the topics that begin with the prefix,
  however many dots follow; one to \<open>*\<close> followed by a suffix exactly those that end with it. So a
  subscriber of \<open>agent.*\<close> also receives \<open>agent.a.b\<close>.
\<close>

theorem pattern_prefix:
  assumes "literal p" "\<not> blank a" "\<not> blank p"
  shows "(a \<in> snd (publish t (foldl topic_step (TopicManager True) [Subscribe a p])) \<longleftrightarrow> t = p) \<and>
    (a \<in> snd (publish t (foldl topic_step (TopicManager True) [Subscribe a (p @ ''*'')])) \<longleftrightarrow>
       (\<exists>r. t = p @ r)) \<and>
    (a \<in> snd (publish t (foldl topic_step (TopicManager True) [Subscribe a (''*'' @ p)])) \<longleftrightarrow>
       (\<exists>r. t = r @ p))"
proof -
  have "\<not> blank (p @ ''*'')" "\<not> blank (''*'' @ p)" using assms(3) by (auto simp: blank_def)
  with assms(2,3) fnmatch_literal [OF assms(1)] show ?thesis
    unfolding publish_run by (simp add: TopicManager_def normalize_def)
qed

theorem pattern_prefix_witness:
  "''x'' \<in> snd (publish ''agent.a.b'' (foldl topic_step (TopicManager True) [Subscribe ''x'' (''agent.'' @ ''*'')]))"
proof -
  have "literal ''agent.''" "\<not> blank ''x''" "\<not> blank ''agent.''"
    by (simp_all add: literal_def blank_def py_isspace_def)
  from pattern_prefix [OF this, of "''agent.a.b''"] show ?thesis by auto
qed

end
