(* ===== verification/Message_Broker.thy ===== *)
theory Message_Broker
  imports Broker_Queues
begin

text \<open>
  \<open>broker/message_broker.py\<close>: subscriptions, publishing, the choice of targets, delivery with
  retries and dead-lettering, and the life cycle of the dispatch workers. What a handler does when
  it is called (it returns, or raises) is an argument, as are the handlers registered at each
  attempt, since other coroutines run between attempts.
\<close>

section \<open>State\<close>

record 'h message_broker =
  br_queue :: priority_queue
  br_dlq :: dead_letter_queue
  max_delivery_attempts :: int
  dispatch_workers :: int
  agent_handlers :: "(string, 'h) dict"
  topic_subscribers :: "(string, string set) dict"
  br_running :: bool

definition AsyncMessageBroker :: "int \<Rightarrow> int \<Rightarrow> int \<Rightarrow> int \<Rightarrow> bool \<Rightarrow> exn + 'h message_broker" where
  "AsyncMessageBroker queue_max dlq_max attempts workers discard =
     (case DeadLetterQueue dlq_max of
        Inl x \<Rightarrow> Inl x
      | Inr d \<Rightarrow>
          Inr \<lparr>br_queue = PriorityMessageQueue queue_max discard, br_dlq = d,
               max_delivery_attempts = attempts, dispatch_workers = workers, agent_handlers = [],
               topic_subscribers = [], br_running = False\<rparr>)"

section \<open>Subscriptions\<close>

definition broker_subscribe :: "string \<Rightarrow> 'h \<Rightarrow> 'h message_broker \<Rightarrow> 'h message_broker" where
  "broker_subscribe a h b = b\<lparr>agent_handlers := dict_set a h (agent_handlers b)\<rparr>"

definition broker_unsubscribe :: "string \<Rightarrow> 'h message_broker \<Rightarrow> 'h message_broker" where
  "broker_unsubscribe a b =
     b\<lparr>agent_handlers := dict_del a (agent_handlers b),
       topic_subscribers := map (\<lambda>(t, s). (t, s - {a})) (topic_subscribers b)\<rparr>"

definition subscribe_topic :: "string \<Rightarrow> string \<Rightarrow> 'h message_broker \<Rightarrow> 'h message_broker" where
  "subscribe_topic a t b =
     b\<lparr>topic_subscribers := dict_set t (insert a (dict_get_or (topic_subscribers b) t {})) (topic_subscribers b)\<rparr>"

definition unsubscribe_topic :: "string \<Rightarrow> string \<Rightarrow> 'h message_broker \<Rightarrow> 'h message_broker" where
  "unsubscribe_topic a t b =
     b\<lparr>topic_subscribers := dict_set t (dict_get_or (topic_subscribers b) t {} - {a}) (topic_subscribers b)\<rparr>"

section \<open>Publishing\<close>

definition dead_letter ::
    "timestamp \<Rightarrow> message_envelope \<Rightarrow> string \<Rightarrow> string \<Rightarrow> int \<Rightarrow> dead_letter_queue \<Rightarrow> dead_letter_queue" where
  "dead_letter now env reason detail attempts d =
     dlq_push \<lparr>dl_envelope = env, dl_reason = reason, error_detail = detail, dead_lettered_at = now,
       attempt_count = attempts\<rparr> d"

text \<open>\<open>publish\<close> reads the clock for the expiry check and again for the dead letter or the item;
  \<open>None\<close> means that it waits for a slot in the queue.\<close>

definition broker_publish ::
    "timestamp \<Rightarrow> timestamp \<Rightarrow> message_envelope \<Rightarrow> 'h message_broker \<Rightarrow> 'h message_broker \<times> unit option" where
  "broker_publish now now' env b =
     (if is_expired now env
      then (b\<lparr>br_dlq := dead_letter now' env ''ttl_expired_at_publish'' '''' 1 (br_dlq b)\<rparr>, Some ())
      else case pq_put now' env (br_queue b) of (q, r) \<Rightarrow> (b\<lparr>br_queue := q\<rparr>, r))"

definition publish_nowait ::
    "timestamp \<Rightarrow> timestamp \<Rightarrow> message_envelope \<Rightarrow> 'h message_broker \<Rightarrow> ('h message_broker, unit) outcome" where
  "publish_nowait now now' env b =
     (if is_expired now env
      then (b\<lparr>br_dlq := dead_letter now' env ''ttl_expired_at_publish'' '''' 1 (br_dlq b)\<rparr>, Inr ())
      else case put_nowait now' env (br_queue b) of (q, r) \<Rightarrow> (b\<lparr>br_queue := q\<rparr>, r))"

section \<open>Inspection\<close>

definition broker_subscriber_count :: "'h message_broker \<Rightarrow> nat" where
  "broker_subscriber_count b = length (agent_handlers b)"

definition topic_subscriber_count :: "string \<Rightarrow> 'h message_broker \<Rightarrow> nat" where
  "topic_subscriber_count t b = card (dict_get_or (topic_subscribers b) t {})"

section \<open>Dispatch\<close>

text \<open>The subscribers of \<open>envelope.topic\<close>; looking up a topic that is not hashable raises.\<close>

fun topic_targets :: "(string, string set) dict \<Rightarrow> json \<Rightarrow> exn + string set" where
  "topic_targets d (JStr t) = Inr (dict_get_or d t {})"
| "topic_targets d (JList _) = Inl (TypeError ''unhashable'')"
| "topic_targets d (JObj _) = Inl (TypeError ''unhashable'')"
| "topic_targets d _ = Inr {}"

definition resolve_targets :: "message_envelope \<Rightarrow> 'h message_broker \<Rightarrow> exn + string set" where
  "resolve_targets env b =
     (let direct = (if receiver env = ''*'' then set (dict_keys (agent_handlers b))
                    else if dict_has (agent_handlers b) (receiver env) then {receiver env} else {})
      in if truthy (topic env)
         then (case topic_targets (topic_subscribers b) (topic env) of
                 Inl x \<Rightarrow> Inl x
               | Inr subs \<Rightarrow> Inr (direct \<union> {a \<in> subs. dict_has (agent_handlers b) a}))
         else Inr direct)"

text \<open>
  The world a delivery runs in: the handlers registered when the attempt is made for an agent,
  the exception a handler raises at the attempt (\<open>None\<close>: it returned), the text of an exception,
  and the clock.
\<close>

record 'h delivery_world =
  handlers_at :: "string \<Rightarrow> int \<Rightarrow> (string, 'h) dict"
  raises :: "'h \<Rightarrow> message_envelope \<Rightarrow> string \<Rightarrow> int \<Rightarrow> exn option"
  exn_str :: "exn \<Rightarrow> string"
  clock_at :: "string \<Rightarrow> int \<Rightarrow> timestamp"

text \<open>\<open>_deliver_to\<close>; the result says whether a handler has returned.\<close>

function deliver_to ::
    "'h delivery_world \<Rightarrow> int \<Rightarrow> message_envelope \<Rightarrow> string \<Rightarrow> int \<Rightarrow> dead_letter_queue
     \<Rightarrow> (dead_letter_queue, bool) outcome" where
  "deliver_to W mx env a attempt d =
     (case dict_get (handlers_at W a attempt) a of
        None \<Rightarrow> (dead_letter (clock_at W a attempt) env ''handler_disappeared'' '''' attempt d, Inr False)
      | Some h \<Rightarrow>
          (case raises W h env a attempt of
             None \<Rightarrow> (d, Inr True)
           | Some x \<Rightarrow>
               if \<not> is_exception x then (d, Inl x)
               else if attempt < mx then deliver_to W mx env a (attempt + 1) d
               else (dead_letter (clock_at W a attempt) env ''handler_error'' (exn_str W x) attempt d,
                     Inr False)))"
  by pat_completeness auto
termination
  by (relation "measure (\<lambda>(W, mx, env, a, attempt, d). nat (mx - attempt))") auto

declare deliver_to.simps [simp del]

text \<open>The targets one after the other: the agents reached, or the exception that cut it off.\<close>

fun deliver_all ::
    "'h delivery_world \<Rightarrow> int \<Rightarrow> message_envelope \<Rightarrow> string list \<Rightarrow> dead_letter_queue
     \<Rightarrow> (dead_letter_queue, string list) outcome" where
  "deliver_all W mx env [] d = (d, Inr [])"
| "deliver_all W mx env (a # as) d =
     (case deliver_to W mx env a 1 d of
        (d1, Inl x) \<Rightarrow> (d1, Inl x)
      | (d1, Inr ok) \<Rightarrow>
          (case deliver_all W mx env as d1 of
             (d2, Inl x) \<Rightarrow> (d2, Inl x)
           | (d2, Inr reached) \<Rightarrow> (d2, Inr (if ok then a # reached else reached))))"

text \<open>\<open>_dispatch\<close>; \<open>order\<close> is the order in which Python lists the set of targets.\<close>

definition dispatch ::
    "(string set \<Rightarrow> string list) \<Rightarrow> 'h delivery_world \<Rightarrow> timestamp \<Rightarrow> timestamp \<Rightarrow> message_envelope
     \<Rightarrow> 'h message_broker \<Rightarrow> ('h message_broker, string list) outcome" where
  "dispatch order W now now' env b =
     (if is_expired now env
      then (b\<lparr>br_dlq := dead_letter now' env ''ttl_expired_at_dispatch'' '''' 1 (br_dlq b)\<rparr>, Inr [])
      else case resolve_targets env b of
        Inl x \<Rightarrow> (b, Inl x)
      | Inr targets \<Rightarrow>
          if targets = {}
          then (b\<lparr>br_dlq := dead_letter now' env ''no_subscriber'' '''' 1 (br_dlq b)\<rparr>, Inr [])
          else (case deliver_all W (max_delivery_attempts b) env (order targets) (br_dlq b) of
                  (d, r) \<Rightarrow> (b\<lparr>br_dlq := d\<rparr>, r)))"

section \<open>Life cycle\<close>

text \<open>
  A dispatch worker is at the head of its loop, waiting in \<open>get\<close>, dispatching a message, or has
  left the loop. The state is that of the broker between two steps of its coroutines: the messages
  of the queue in delivery order, and the messages published, dispatched, discarded as expired by
  \<open>get\<close>, and cut off when their worker was cancelled.
\<close>

datatype worker = AtLoop | Waiting | Dispatching message_envelope | Exited

record broker_run =
  run_running :: bool
  run_workers :: "worker list"
  run_queue :: "message_envelope list"
  run_published :: "message_envelope list"
  run_dispatched :: "message_envelope list"
  run_discarded :: "message_envelope list"
  run_cut_off :: "message_envelope list"

definition broker_start :: "int \<Rightarrow> broker_run \<Rightarrow> broker_run" where
  "broker_start n s =
     (if run_running s then s else s\<lparr>run_running := True, run_workers := replicate (nat n) AtLoop\<rparr>)"

abbreviation worker_at :: "broker_run \<Rightarrow> nat \<Rightarrow> worker \<Rightarrow> bool" where
  "worker_at s w k \<equiv> w < length (run_workers s) \<and> run_workers s ! w = k"

abbreviation set_worker :: "nat \<Rightarrow> worker \<Rightarrow> broker_run \<Rightarrow> broker_run" where
  "set_worker w k s \<equiv> s\<lparr>run_workers := (run_workers s)[w := k]\<rparr>"

text \<open>\<open>stop\<close> up to its first wait, and its last part: \<open>task.cancel()\<close> makes a worker that is
  dispatching leave its message unfinished.\<close>

definition broker_stop :: "broker_run \<Rightarrow> broker_run" where
  "broker_stop s = (if run_running s then s\<lparr>run_running := False\<rparr> else s)"

definition cancel_worker :: "nat \<Rightarrow> broker_run \<Rightarrow> broker_run" where
  "cancel_worker w s = set_worker w Exited s\<lparr>run_cut_off := run_cut_off s @
      (case run_workers s ! w of Dispatching e \<Rightarrow> [e] | _ \<Rightarrow> [])\<rparr>"

text \<open>
  One step of one coroutine after \<open>start\<close>. A worker tests \<open>self._running\<close> only at the head of its
  loop; in \<open>get\<close> it takes the first message, drops it as expired, or times out when there is none.
  Publishing puts a message at its place in the delivery order. \<open>stop\<close> clears the flag, waits, and
  in the end cancels the workers.
\<close>

inductive broker_step :: "broker_run \<Rightarrow> broker_run \<Rightarrow> bool" where
  enter: "worker_at s w AtLoop \<Longrightarrow> run_running s \<Longrightarrow> broker_step s (set_worker w Waiting s)"
| leave: "worker_at s w AtLoop \<Longrightarrow> \<not> run_running s \<Longrightarrow> broker_step s (set_worker w Exited s)"
| take_message: "worker_at s w Waiting \<Longrightarrow> run_queue s = e # q \<Longrightarrow>
    broker_step s (set_worker w (Dispatching e) s\<lparr>run_queue := q\<rparr>)"
| drop_expired: "worker_at s w Waiting \<Longrightarrow> run_queue s = e # q \<Longrightarrow>
    broker_step s (s\<lparr>run_queue := q, run_discarded := run_discarded s @ [e]\<rparr>)"
| time_out: "worker_at s w Waiting \<Longrightarrow> run_queue s = [] \<Longrightarrow> broker_step s (set_worker w AtLoop s)"
| dispatched: "worker_at s w (Dispatching e) \<Longrightarrow>
    broker_step s (set_worker w AtLoop s\<lparr>run_dispatched := run_dispatched s @ [e]\<rparr>)"
| publish: "run_queue s = q1 @ q2 \<Longrightarrow>
    broker_step s (s\<lparr>run_queue := q1 @ e # q2, run_published := run_published s @ [e]\<rparr>)"
| stop: "broker_step s (broker_stop s)"
| cancel: "w < length (run_workers s) \<Longrightarrow> \<not> run_running s \<Longrightarrow> broker_step s (cancel_worker w s)"

fun in_hand :: "worker \<Rightarrow> message_envelope multiset" where
  "in_hand (Dispatching e) = {#e#}"
| "in_hand _ = {#}"

definition in_flight :: "broker_run \<Rightarrow> message_envelope multiset" where
  "in_flight s = sum_list (map in_hand (run_workers s))"

definition waiting_workers :: "broker_run \<Rightarrow> nat" where
  "waiting_workers s = length (filter (\<lambda>k. k = Waiting) (run_workers s))"

text \<open>The messages that a worker has taken for dispatch so far.\<close>

definition taken :: "broker_run \<Rightarrow> message_envelope multiset" where
  "taken s = in_flight s + mset (run_dispatched s) + mset (run_cut_off s)"

section \<open>Lemmas: subscriptions\<close>

datatype 'h subscription_event =
    Subscribe string 'h
  | Unsubscribe string
  | SubscribeTopic string string
  | UnsubscribeTopic string string

fun subscription_step :: "'h message_broker \<Rightarrow> 'h subscription_event \<Rightarrow> 'h message_broker" where
  "subscription_step b (Subscribe a h) = broker_subscribe a h b"
| "subscription_step b (Unsubscribe a) = broker_unsubscribe a b"
| "subscription_step b (SubscribeTopic a t) = subscribe_topic a t b"
| "subscription_step b (UnsubscribeTopic a t) = unsubscribe_topic a t b"

text \<open>The specification: who has which handler, and which pairs of agent and topic are active.\<close>

type_synonym 'h subscriptions = "(string \<rightharpoonup> 'h) \<times> (string \<times> string) set"

fun subscription_spec :: "'h subscriptions \<Rightarrow> 'h subscription_event \<Rightarrow> 'h subscriptions" where
  "subscription_spec (H, S) (Subscribe a h) = (H(a \<mapsto> h), S)"
| "subscription_spec (H, S) (Unsubscribe a) = (H(a := None), {p \<in> S. fst p \<noteq> a})"
| "subscription_spec (H, S) (SubscribeTopic a t) = (H, insert (a, t) S)"
| "subscription_spec (H, S) (UnsubscribeTopic a t) = (H, S - {(a, t)})"

definition subscriptions_of :: "'h message_broker \<Rightarrow> 'h subscriptions" where
  "subscriptions_of b =
     (dict_get (agent_handlers b), {(a, t). a \<in> dict_get_or (topic_subscribers b) t {}})"

lemma subscriptions_of_step:
  "subscriptions_of (subscription_step b e) = subscription_spec (subscriptions_of b) e"
proof (cases e)
  case (Unsubscribe a)
  have "dict_get_or (map (\<lambda>(t, s). (t, s - {a})) (topic_subscribers b)) t {} =
      dict_get_or (topic_subscribers b) t {} - {a}" for t
    by (rule dict_get_or_map) simp
  with Unsubscribe show ?thesis by (auto simp: subscriptions_of_def broker_unsubscribe_def)
qed (auto simp: subscriptions_of_def broker_subscribe_def subscribe_topic_def unsubscribe_topic_def
    dict_get_or_set split: if_splits)

lemma subscriptions_of_run:
  "subscriptions_of (foldl subscription_step b es) = foldl subscription_spec (subscriptions_of b) es"
  by (induction es arbitrary: b) (simp_all add: subscriptions_of_step)

definition hashable :: "json \<Rightarrow> bool" where
  "hashable j = (case j of JList _ \<Rightarrow> False | JObj _ \<Rightarrow> False | _ \<Rightarrow> True)"

lemma resolve_targets_spec:
  assumes "subscriptions_of b = (H, S)"
  shows "resolve_targets env b =
    (if truthy (topic env) \<and> \<not> hashable (topic env) then Inl (TypeError ''unhashable'')
     else Inr {a. a \<in> dom H \<and> (receiver env = ''*'' \<or> receiver env = a \<or>
       (\<exists>t. topic env = JStr t \<and> t \<noteq> [] \<and> (a, t) \<in> S))})"
proof -
  have H: "dict_has (agent_handlers b) a \<longleftrightarrow> a \<in> dom H" for a
    using assms by (auto simp: subscriptions_of_def dict_has_def dom_def)
  have S: "a \<in> dict_get_or (topic_subscribers b) t {} \<longleftrightarrow> (a, t) \<in> S" for a t
    using assms by (auto simp: subscriptions_of_def)
  have K: "set (dict_keys (agent_handlers b)) = dom H" using H by (auto simp: dict_has_iff)
  have direct: "(if receiver env = ''*'' then set (dict_keys (agent_handlers b))
      else if dict_has (agent_handlers b) (receiver env) then {receiver env} else {}) =
    {a. a \<in> dom H \<and> (receiver env = ''*'' \<or> receiver env = a)}"
    unfolding K H by auto
  have R: "resolve_targets env b =
     (if truthy (topic env)
      then (case topic_targets (topic_subscribers b) (topic env) of
              Inl x \<Rightarrow> Inl x
            | Inr subs \<Rightarrow> Inr ({a. a \<in> dom H \<and> (receiver env = ''*'' \<or> receiver env = a)} \<union> {a \<in> subs. a \<in> dom H}))
      else Inr {a. a \<in> dom H \<and> (receiver env = ''*'' \<or> receiver env = a)})"
    unfolding resolve_targets_def Let_def direct unfolding H ..
  show ?thesis unfolding R by (cases "topic env") (auto simp: hashable_def S)
qed

section \<open>Lemmas: delivery\<close>

text \<open>What attempt \<open>j\<close> of the delivery to an agent meets.\<close>

definition attempt_fails :: "'h delivery_world \<Rightarrow> message_envelope \<Rightarrow> string \<Rightarrow> int \<Rightarrow> bool" where
  "attempt_fails W env a j \<longleftrightarrow> (\<exists>h x. dict_get (handlers_at W a j) a = Some h \<and>
     raises W h env a j = Some x \<and> is_exception x)"

definition attempt_succeeds :: "'h delivery_world \<Rightarrow> message_envelope \<Rightarrow> string \<Rightarrow> int \<Rightarrow> bool" where
  "attempt_succeeds W env a j \<longleftrightarrow> (\<exists>h. dict_get (handlers_at W a j) a = Some h \<and> raises W h env a j = None)"

definition no_handler :: "'h delivery_world \<Rightarrow> string \<Rightarrow> int \<Rightarrow> bool" where
  "no_handler W a j \<longleftrightarrow> dict_get (handlers_at W a j) a = None"

datatype fate = Reached | Lettered dead_letter_entry | Aborted exn

fun with_fate :: "fate \<Rightarrow> dead_letter_queue \<Rightarrow> (dead_letter_queue, bool) outcome" where
  "with_fate Reached d = (d, Inr True)"
| "with_fate (Lettered e) d = (dlq_push e d, Inr False)"
| "with_fate (Aborted x) d = (d, Inl x)"

text \<open>The fate of a delivery that has come to attempt \<open>k\<close>, with at most \<open>max k mx\<close> attempts.\<close>

fun fate_ok :: "'h delivery_world \<Rightarrow> int \<Rightarrow> message_envelope \<Rightarrow> string \<Rightarrow> int \<Rightarrow> fate \<Rightarrow> bool" where
  "fate_ok W mx env a k Reached \<longleftrightarrow>
     (\<exists>j. k \<le> j \<and> j \<le> max k mx \<and> (\<forall>i. k \<le> i \<and> i < j \<longrightarrow> attempt_fails W env a i) \<and> attempt_succeeds W env a j)"
| "fate_ok W mx env a k (Lettered e) \<longleftrightarrow> dl_envelope e = env \<and>
     (\<exists>j. k \<le> j \<and> j \<le> max k mx \<and> (\<forall>i. k \<le> i \<and> i < j \<longrightarrow> attempt_fails W env a i) \<and> attempt_count e = j \<and>
       (dl_reason e = ''handler_disappeared'' \<and> no_handler W a j \<or>
        dl_reason e = ''handler_error'' \<and> j = max k mx \<and> attempt_fails W env a j))"
| "fate_ok W mx env a k (Aborted x) \<longleftrightarrow> \<not> is_exception x"

lemma fate_ok_later:
  assumes "fate_ok W mx env a (k + 1) f" "attempt_fails W env a k" "k < mx"
  shows "fate_ok W mx env a k f"
proof -
  have m: "max (k + 1) mx = max k mx" using assms(3) by simp
  have fails: "\<forall>i. k \<le> i \<and> i < j \<longrightarrow> attempt_fails W env a i"
    if "\<forall>i. k + 1 \<le> i \<and> i < j \<longrightarrow> attempt_fails W env a i" for j
  proof (intro allI impI)
    fix i assume "k \<le> i \<and> i < j"
    with that assms(2) show "attempt_fails W env a i" by (cases "i = k") auto
  qed
  show ?thesis
  proof (cases f)
    case Reached
    from assms(1) obtain j where j: "k + 1 \<le> j" "j \<le> max k mx"
      "\<forall>i. k + 1 \<le> i \<and> i < j \<longrightarrow> attempt_fails W env a i" "attempt_succeeds W env a j"
      unfolding Reached fate_ok.simps m by blast
    then have "k \<le> j" by linarith
    with j fails [of j] show ?thesis unfolding Reached fate_ok.simps by blast
  next
    case (Lettered e)
    from assms(1) obtain j where "k + 1 \<le> j" "j \<le> max k mx" "dl_envelope e = env" "attempt_count e = j"
      "\<forall>i. k + 1 \<le> i \<and> i < j \<longrightarrow> attempt_fails W env a i"
      "dl_reason e = ''handler_disappeared'' \<and> no_handler W a j \<or>
        dl_reason e = ''handler_error'' \<and> j = max k mx \<and> attempt_fails W env a j"
      unfolding Lettered fate_ok.simps m by blast
    moreover from this(1) have "k \<le> j" by linarith
    ultimately show ?thesis using fails [of j] unfolding Lettered fate_ok.simps by blast
  next
    case (Aborted x)
    with assms(1) show ?thesis by simp
  qed
qed

lemma deliver_to_fate:
  "\<exists>f. (\<forall>d. deliver_to W mx env a k d = with_fate f d) \<and> fate_ok W mx env a k f"
proof (induction "nat (mx - k)" arbitrary: k rule: less_induct)
  case less
  let ?letter = "\<lambda>r x. \<lparr>dl_envelope = env, dl_reason = r, error_detail = x,
    dead_lettered_at = clock_at W a k, attempt_count = k\<rparr>"
  show ?case
  proof (cases "dict_get (handlers_at W a k) a")
    case None
    then have "deliver_to W mx env a k d = with_fate (Lettered (?letter ''handler_disappeared'' [])) d" for d
      by (subst deliver_to.simps) (simp add: dead_letter_def)
    moreover have "fate_ok W mx env a k (Lettered (?letter ''handler_disappeared'' []))"
      using None by (auto simp: no_handler_def intro!: exI [of _ k])
    ultimately show ?thesis by blast
  next
    case (Some h)
    note handler = Some
    show ?thesis
    proof (cases "raises W h env a k")
      case None
      then have "deliver_to W mx env a k d = with_fate Reached d" for d
        by (subst deliver_to.simps) (simp add: handler)
      moreover have "fate_ok W mx env a k Reached"
        using None handler by (auto simp: attempt_succeeds_def intro!: exI [of _ k])
      ultimately show ?thesis by blast
    next
      case (Some x)
      consider "\<not> is_exception x" | "is_exception x" "k < mx" | "is_exception x" "mx \<le> k" by fastforce
      then show ?thesis
      proof cases
        case 1
        then have "deliver_to W mx env a k d = with_fate (Aborted x) d" for d
          by (subst deliver_to.simps) (simp add: handler Some)
        with 1 show ?thesis by (intro exI [of _ "Aborted x"]) simp
      next
        case 2
        then have "deliver_to W mx env a k d = deliver_to W mx env a (k + 1) d" for d
          by (subst deliver_to.simps) (simp add: handler Some)
        moreover have "attempt_fails W env a k" using 2 handler Some by (auto simp: attempt_fails_def)
        moreover have "nat (mx - (k + 1)) < nat (mx - k)" using 2 by simp
        ultimately show ?thesis using less [of "k + 1"] fate_ok_later 2 by metis
      next
        case 3
        then have "deliver_to W mx env a k d = with_fate (Lettered (?letter ''handler_error'' (exn_str W x))) d" for d
          by (subst deliver_to.simps) (simp add: dead_letter_def handler Some)
        moreover have "fate_ok W mx env a k (Lettered (?letter ''handler_error'' (exn_str W x)))"
          using 3 handler Some by (auto simp: attempt_fails_def)
        ultimately show ?thesis by blast
      qed
    qed
  qed
qed

text \<open>All targets: the dead letters are those of the targets not reached, in order.\<close>

lemma deliver_all_fate:
  assumes "\<And>a d. deliver_to W mx env a 1 d = with_fate (f a) d" "distinct as"
  shows "(\<exists>a \<in> set as. \<exists>x d'. f a = Aborted x \<and> deliver_all W mx env as d = (d', Inl x)) \<or>
    (\<forall>a \<in> set as. \<forall>x. f a \<noteq> Aborted x) \<and>
    deliver_all W mx env as d =
      (foldl (\<lambda>d a. case f a of Lettered e \<Rightarrow> dlq_push e d | _ \<Rightarrow> d) d as,
       Inr (filter (\<lambda>a. f a = Reached) as))"
  using assms(2)
proof (induction as arbitrary: d)
  case (Cons a as)
  show ?case
  proof (cases "f a")
    case Reached
    with Cons.IH [of d] Cons.prems show ?thesis by (auto simp: assms(1))
  next
    case (Lettered e)
    with Cons.IH [of "dlq_push e d"] Cons.prems show ?thesis by (auto simp: assms(1))
  next
    case (Aborted x)
    then show ?thesis by (simp add: assms(1))
  qed
qed simp

lemma foldl_letters:
  "(\<And>a. a \<in> set as \<Longrightarrow> f a = Reached \<or> f a = Lettered (l a)) \<Longrightarrow>
    foldl (\<lambda>d a. case f a of Lettered e \<Rightarrow> dlq_push e d | _ \<Rightarrow> d) d as =
    foldl (\<lambda>d a. dlq_push (l a) d) d (filter (\<lambda>a. f a \<noteq> Reached) as)"
proof (induction as arbitrary: d)
  case (Cons a as)
  then have "f a = Reached \<or> f a = Lettered (l a)" by simp
  moreover have "foldl (\<lambda>d a. case f a of Lettered e \<Rightarrow> dlq_push e d | _ \<Rightarrow> d) d as =
      foldl (\<lambda>d a. dlq_push (l a) d) d (filter (\<lambda>a. f a \<noteq> Reached) as)" for d
    using Cons by simp
  ultimately show ?case by (elim disjE) simp_all
qed simp

section \<open>Lemmas: the life cycle\<close>

lemma in_flight_update:
  "w < length ks \<Longrightarrow>
     sum_list (map in_hand (ks[w := k])) + in_hand (ks ! w) = sum_list (map in_hand ks) + in_hand k"
  by (induction ks arbitrary: w) (auto simp: nth_Cons split: nat.split)

lemma waiting_update:
  "w < length ks \<Longrightarrow> length (filter (\<lambda>k. k = Waiting) (ks[w := k'])) + (if ks ! w = Waiting then 1 else 0) =
     length (filter (\<lambda>k. k = Waiting) ks) + (if k' = Waiting then 1 else 0)"
proof (induction ks arbitrary: w)
  case (Cons k ks)
  show ?case
  proof (cases w)
    case (Suc v)
    with Cons.IH [of v] Cons.prems show ?thesis by (simp split: if_splits)
  qed simp
qed simp

lemma in_flight_set_worker:
  "w < length (run_workers s) \<Longrightarrow>
     in_flight (set_worker w k s) + in_hand (run_workers s ! w) = in_flight s + in_hand k"
  using in_flight_update [of w "run_workers s" k] by (simp add: in_flight_def)

lemma in_flight_frame [simp]:
  "in_flight (s\<lparr>run_running := r\<rparr>) = in_flight s" "in_flight (s\<lparr>run_queue := q\<rparr>) = in_flight s"
  "in_flight (s\<lparr>run_published := q\<rparr>) = in_flight s" "in_flight (s\<lparr>run_dispatched := q\<rparr>) = in_flight s"
  "in_flight (s\<lparr>run_discarded := q\<rparr>) = in_flight s" "in_flight (s\<lparr>run_cut_off := q\<rparr>) = in_flight s"
  by (simp_all add: in_flight_def)

text \<open>Every message published is in exactly one place.\<close>

definition run_conserves :: "broker_run \<Rightarrow> bool" where
  "run_conserves s \<longleftrightarrow>
     mset (run_published s) = mset (run_queue s) + in_flight s + mset (run_dispatched s) +
       mset (run_discarded s) + mset (run_cut_off s)"

lemma broker_step_conserves:
  assumes "broker_step s s'" "run_conserves s"
  shows "run_conserves s'"
  using assms
proof cases
  case (cancel w)
  have "in_flight (set_worker w Exited s) + in_hand (run_workers s ! w) = in_flight s"
    using in_flight_set_worker [OF cancel(2), of Exited] by simp
  moreover have "mset (case run_workers s ! w of Dispatching e \<Rightarrow> [e] | _ \<Rightarrow> []) = in_hand (run_workers s ! w)"
    by (cases "run_workers s ! w") simp_all
  ultimately show ?thesis
    using assms(2) unfolding cancel(1) cancel_worker_def run_conserves_def by (simp add: ac_simps)
next
  case (take_message w e q)
  have "in_flight (set_worker w (Dispatching e) s) = in_flight s + {#e#}"
    using in_flight_set_worker [of w s "Dispatching e"] take_message by simp
  with assms(2) take_message show ?thesis unfolding run_conserves_def by (simp add: ac_simps)
next
  case (dispatched w e)
  have "in_flight (set_worker w AtLoop s) + {#e#} = in_flight s"
    using in_flight_set_worker [of w s AtLoop] dispatched by simp
  with assms(2) dispatched show ?thesis unfolding run_conserves_def by (simp add: ac_simps)
next
  case (enter w)
  with assms(2) in_flight_set_worker [of w s Waiting] show ?thesis unfolding run_conserves_def by simp
next
  case (leave w)
  with assms(2) in_flight_set_worker [of w s Exited] show ?thesis unfolding run_conserves_def by simp
next
  case (time_out w)
  with assms(2) in_flight_set_worker [of w s AtLoop] show ?thesis unfolding run_conserves_def by simp
qed (simp_all add: run_conserves_def broker_stop_def ac_simps)

text \<open>Until \<open>stop\<close> is called no message is cut off.\<close>

lemma broker_step_running:
  "broker_step s s' \<Longrightarrow> (run_running s \<longrightarrow> run_cut_off s = []) \<Longrightarrow> (run_running s' \<longrightarrow> run_cut_off s' = [])"
  by (induction rule: broker_step.induct) (simp_all add: broker_stop_def cancel_worker_def)

text \<open>After \<open>stop\<close> a worker takes at most one more message, and only if it was waiting.\<close>

definition after_stop :: "nat \<Rightarrow> broker_run \<Rightarrow> broker_run \<Rightarrow> bool" where
  "after_stop n s s' \<longleftrightarrow> \<not> run_running s' \<and> size (taken s') + waiting_workers s' \<le> n \<and>
     (waiting_workers s = 0 \<longrightarrow> waiting_workers s' = 0 \<and> mset (run_queue s) \<subseteq># mset (run_queue s'))"

lemma waiting_set_worker:
  "w < length (run_workers s) \<Longrightarrow> waiting_workers (set_worker w k s) + (if run_workers s ! w = Waiting then 1 else 0) =
     waiting_workers s + (if k = Waiting then 1 else 0)"
  using waiting_update [of w "run_workers s" k] by (simp add: waiting_workers_def)

lemma waiting_frame [simp]:
  "waiting_workers (s\<lparr>run_running := r\<rparr>) = waiting_workers s" "waiting_workers (s\<lparr>run_queue := q\<rparr>) = waiting_workers s"
  "waiting_workers (s\<lparr>run_published := q\<rparr>) = waiting_workers s"
  "waiting_workers (s\<lparr>run_dispatched := q\<rparr>) = waiting_workers s"
  "waiting_workers (s\<lparr>run_discarded := q\<rparr>) = waiting_workers s"
  "waiting_workers (s\<lparr>run_cut_off := q\<rparr>) = waiting_workers s"
  by (simp_all add: waiting_workers_def)

lemma worker_waiting: "worker_at s w Waiting \<Longrightarrow> 0 < waiting_workers s"
  by (auto simp: waiting_workers_def filter_empty_conv in_set_conv_nth)

lemma broker_step_after_stop:
  assumes "broker_step s1 s2" "after_stop n s s1"
  shows "after_stop n s s2"
  using assms
proof cases
  case (cancel w)
  have "in_flight (set_worker w Exited s1) + in_hand (run_workers s1 ! w) = in_flight s1"
    using in_flight_set_worker [OF cancel(2), of Exited] by simp
  moreover have "mset (case run_workers s1 ! w of Dispatching e \<Rightarrow> [e] | _ \<Rightarrow> []) = in_hand (run_workers s1 ! w)"
    by (cases "run_workers s1 ! w") simp_all
  ultimately have "taken s2 = taken s1" unfolding cancel(1) cancel_worker_def by (simp add: taken_def ac_simps)
  moreover have "waiting_workers s2 \<le> waiting_workers s1"
    using waiting_set_worker [OF cancel(2), of Exited] unfolding cancel(1) cancel_worker_def by simp
  ultimately show ?thesis
    using assms(2) cancel unfolding after_stop_def by (auto simp: cancel_worker_def)
next
  case (take_message w e q)
  have "in_flight (set_worker w (Dispatching e) s1) = in_flight s1 + {#e#}"
    using in_flight_set_worker [of w s1 "Dispatching e"] take_message by simp
  moreover have "Suc (waiting_workers s2) = waiting_workers s1"
    using waiting_set_worker [of w s1 "Dispatching e"] take_message by simp
  ultimately show ?thesis using assms(2) take_message unfolding after_stop_def by (auto simp: taken_def)
next
  case (dispatched w e)
  have "in_flight (set_worker w AtLoop s1) + {#e#} = in_flight s1"
    using in_flight_set_worker [of w s1 AtLoop] dispatched by simp
  then have "taken s2 = taken s1" unfolding dispatched(1) by (simp add: taken_def ac_simps)
  moreover have "waiting_workers s2 = waiting_workers s1"
    using waiting_set_worker [of w s1 AtLoop] dispatched by simp
  ultimately show ?thesis using assms(2) dispatched unfolding after_stop_def by simp
next
  case (leave w)
  then have "taken s2 = taken s1" "waiting_workers s2 = waiting_workers s1"
    using in_flight_set_worker [of w s1 Exited] waiting_set_worker [of w s1 Exited] by (simp_all add: taken_def)
  with assms(2) leave show ?thesis unfolding after_stop_def by simp
next
  case (time_out w)
  then have "taken s2 = taken s1" "waiting_workers s2 \<le> waiting_workers s1"
    using in_flight_set_worker [of w s1 AtLoop] waiting_set_worker [of w s1 AtLoop] by (simp_all add: taken_def)
  with assms(2) time_out show ?thesis unfolding after_stop_def by auto
next
  case (drop_expired w e q)
  with assms(2) worker_waiting [of w s1] show ?thesis unfolding after_stop_def by (auto simp: taken_def)
next
  case (publish q1 q2 e)
  have "mset (run_queue s1) \<subseteq># mset (run_queue s2)" unfolding publish by simp
  with assms(2) publish show ?thesis
    unfolding after_stop_def by (auto simp: taken_def intro: subset_mset.order_trans)
qed (simp_all add: after_stop_def broker_stop_def)

section \<open>Properties\<close>

text \<open>
  C9: Subscriptions are exact. After any calls the broker represents exactly the handlers and the
  pairs of agent and topic that are active (leaving the broker ends an agent's topic
  subscriptions too), and a message goes to exactly the agents with a handler that are its
  receiver, or covered by a broadcast, or active subscribers of its topic. A topic that is not
  hashable raises.
\<close>

theorem targets_exact:
  assumes "b = foldl subscription_step b0 es" "subscriptions_of b = (H, S)"
  shows "(H, S) = foldl subscription_spec (subscriptions_of b0) es \<and>
    resolve_targets env b =
      (if truthy (topic env) \<and> \<not> hashable (topic env) then Inl (TypeError ''unhashable'')
       else Inr {a. a \<in> dom H \<and> (receiver env = ''*'' \<or> receiver env = a \<or>
         (\<exists>t. topic env = JStr t \<and> t \<noteq> [] \<and> (a, t) \<in> S))})"
  using subscriptions_of_run [of b0 es] resolve_targets_spec [OF assms(2)] assms by simp

text \<open>A broker with two workers, for the examples.\<close>

definition example_broker :: "nat message_broker" where
  "example_broker = \<lparr>br_queue = PriorityMessageQueue 0 True,
     br_dlq = \<lparr>dlq_maxsize = 10, dlq_entries = [], dlq_total_received = 0\<rparr>, max_delivery_attempts = 3,
     dispatch_workers = 2, agent_handlers = [], topic_subscribers = [], br_running = False\<rparr>"

theorem targets_exact_witness:
  "resolve_targets ((example_message ''m'' LOW)\<lparr>topic := JStr ''t''\<rparr>)
     (foldl subscription_step example_broker
       [Subscribe ''b'' 1, Subscribe ''c'' 2, SubscribeTopic ''c'' ''t'', SubscribeTopic ''d'' ''t'', Unsubscribe ''b'']) =
   Inr {''c''}"
proof -
  define es :: "nat subscription_event list" where "es = [Subscribe ''b'' 1, Subscribe ''c'' 2,
    SubscribeTopic ''c'' ''t'', SubscribeTopic ''d'' ''t'', Unsubscribe ''b'']"
  obtain H S where HS: "subscriptions_of (foldl subscription_step example_broker es) = (H, S)" by fastforce
  note exact = targets_exact [OF refl HS]
  have "(H, S) = ([''c'' \<mapsto> 2], {(''c'', ''t''), (''d'', ''t'')})"
    using exact [THEN conjunct1]
    by (auto simp: es_def subscriptions_of_def example_broker_def dict_get_or_def fun_eq_iff)
  then show ?thesis
    using exact [of "(example_message ''m'' LOW)\<lparr>topic := JStr ''t''\<rparr>", THEN conjunct2]
    unfolding es_def by (auto simp: hashable_def example_message_def)
qed

text \<open>
  C4: Delivery accounts for every target. A message that is not expired and has targets is offered
  to each of them, at most \<open>max_delivery_attempts\<close> times (once at least) and until a handler
  returns; every target that is not reached leaves exactly one dead letter, which tells the last
  attempt and why it failed, and no other dead letter is written. Only an exception outside
  \<open>Exception\<close> can cut this short. An expired message or one without targets leaves exactly one
  dead letter and calls nobody.
\<close>

theorem dispatch_accounts:
  assumes "\<not> is_expired now env" "resolve_targets env b = Inr T" "T \<noteq> {}"
    and listed: "set (order T) = T" "distinct (order T)"
  shows "(case dispatch order W now now' env b of
      (b', Inl x) \<Rightarrow> \<not> is_exception x
    | (b', Inr reached) \<Rightarrow> distinct reached \<and> set reached \<subseteq> T \<and>
        (\<forall>a \<in> set reached. fate_ok W (max_delivery_attempts b) env a 1 Reached) \<and>
        (\<exists>letter. b' = b\<lparr>br_dlq := foldl (\<lambda>d a. dlq_push (letter a) d) (br_dlq b)
            (filter (\<lambda>a. a \<notin> set reached) (order T))\<rparr> \<and>
          (\<forall>a \<in> T - set reached. fate_ok W (max_delivery_attempts b) env a 1 (Lettered (letter a))))) \<and>
    (is_expired later env \<longrightarrow> dispatch order W later now' env b =
      (b\<lparr>br_dlq := dead_letter now' env ''ttl_expired_at_dispatch'' '''' 1 (br_dlq b)\<rparr>, Inr [])) \<and>
    (resolve_targets env b0 = Inr {} \<longrightarrow> dispatch order W now now' env b0 =
      (b0\<lparr>br_dlq := dead_letter now' env ''no_subscriber'' '''' 1 (br_dlq b0)\<rparr>, Inr []))"
proof -
  let ?mx = "max_delivery_attempts b"
  obtain f where f: "\<And>a d. deliver_to W ?mx env a 1 d = with_fate (f a) d" "\<And>a. fate_ok W ?mx env a 1 (f a)"
    using deliver_to_fate [of W ?mx env _ 1] by metis
  have D: "dispatch order W now now' env b = (case deliver_all W ?mx env (order T) (br_dlq b) of
      (d, r) \<Rightarrow> (b\<lparr>br_dlq := d\<rparr>, r))"
    using assms(1-3) by (simp add: dispatch_def)
  define letter where "letter a = (case f a of Lettered e \<Rightarrow> e | _ \<Rightarrow> undefined)" for a
  have "case dispatch order W now now' env b of (b', Inl x) \<Rightarrow> \<not> is_exception x
    | (b', Inr reached) \<Rightarrow> distinct reached \<and> set reached \<subseteq> T \<and>
        (\<forall>a \<in> set reached. fate_ok W ?mx env a 1 Reached) \<and>
        (\<exists>letter. b' = b\<lparr>br_dlq := foldl (\<lambda>d a. dlq_push (letter a) d) (br_dlq b)
            (filter (\<lambda>a. a \<notin> set reached) (order T))\<rparr> \<and>
          (\<forall>a \<in> T - set reached. fate_ok W ?mx env a 1 (Lettered (letter a))))"
    using deliver_all_fate [of W ?mx env f "order T" "br_dlq b", OF f(1) listed(2)]
  proof (elim disjE bexE exE conjE)
    fix a x d' assume "f a = Aborted x" "deliver_all W ?mx env (order T) (br_dlq b) = (d', Inl x)"
    then show ?thesis using f(2) [of a] D by simp
  next
    assume no: "\<forall>a \<in> set (order T). \<forall>x. f a \<noteq> Aborted x"
      and all: "deliver_all W ?mx env (order T) (br_dlq b) =
        (foldl (\<lambda>d a. case f a of Lettered e \<Rightarrow> dlq_push e d | _ \<Rightarrow> d) (br_dlq b) (order T),
         Inr (filter (\<lambda>a. f a = Reached) (order T)))"
    have fate: "f a = Reached \<or> f a = Lettered (letter a)" if "a \<in> set (order T)" for a
      using no that by (cases "f a") (auto simp: letter_def)
    have sel: "filter (\<lambda>a. f a \<noteq> Reached) (order T) =
        filter (\<lambda>a. a \<notin> set (filter (\<lambda>a. f a = Reached) (order T))) (order T)"
      by (rule filter_cong) auto
    have "fate_ok W ?mx env a 1 Reached" if "f a = Reached" for a using f(2) [of a] that by simp
    moreover have "fate_ok W ?mx env a 1 (Lettered (letter a))" if "a \<in> T" "f a \<noteq> Reached" for a
      using fate [of a] f(2) [of a] that listed(1) by auto
    moreover have dlq: "foldl (\<lambda>d a. case f a of Lettered e \<Rightarrow> dlq_push e d | _ \<Rightarrow> d) (br_dlq b) (order T) =
        foldl (\<lambda>d a. dlq_push (letter a) d) (br_dlq b)
          (filter (\<lambda>a. a \<notin> set (filter (\<lambda>a. f a = Reached) (order T))) (order T))"
      using foldl_letters [of "order T" f letter "br_dlq b", OF fate] unfolding sel by simp
    ultimately show ?thesis
      unfolding D all dlq prod.case sum.case using listed
      by (intro conjI exI [of _ letter]) (simp_all del: fate_ok.simps)
  qed
  then show ?thesis using assms(1) by (simp add: dispatch_def)
qed

definition example_world :: "nat delivery_world" where
  "example_world = \<lparr>handlers_at = (\<lambda>_ _. [(''b'', 1)]),
     raises = (\<lambda>h env a k. if k < 3 then Some (AppError ''busy'') else None),
     exn_str = (\<lambda>x. ''busy''), clock_at = (\<lambda>_ _. 0)\<rparr>"

theorem dispatch_accounts_witness:
  "case dispatch sorted_list_of_set example_world 0 0 (example_message ''m'' LOW)
       (broker_subscribe ''b'' 1 example_broker) of
     (b', Inl x) \<Rightarrow> \<not> is_exception x
   | (b', Inr reached) \<Rightarrow> \<forall>a \<in> set reached. fate_ok example_world 3 (example_message ''m'' LOW) a 1 Reached"
proof -
  let ?b = "broker_subscribe ''b'' 1 example_broker" and ?m = "example_message ''m'' LOW"
  have "\<not> is_expired 0 ?m" by (simp add: is_expired_def example_message_def)
  moreover have "resolve_targets ?m ?b = Inr {''b''}"
    by (simp add: resolve_targets_def broker_subscribe_def example_broker_def example_message_def dict_has_def)
  moreover have "max_delivery_attempts ?b = 3" by (simp add: broker_subscribe_def example_broker_def)
  ultimately show ?thesis
    using dispatch_accounts [of 0 ?m ?b "{''b''}" sorted_list_of_set example_world 0, THEN conjunct1]
    by (simp split: prod.splits sum.splits)
qed



text \<open>
  \<open>stop\<close> does not drain the queue. Once it has cleared the flag, the workers take at most as
  many messages as there were workers waiting in \<open>get\<close>; if all of them were busy, not one of the
  queued messages is ever taken, whatever the five-second wait for \<open>join\<close> promises.
\<close>

theorem stop_abandons_queue:
  assumes "broker_step\<^sup>*\<^sup>* s s'" "\<not> run_running s"
  shows "size (taken s') \<le> size (taken s) + waiting_workers s \<and>
    (waiting_workers s = 0 \<longrightarrow> mset (run_queue s) \<subseteq># mset (run_queue s'))"
proof -
  have "after_stop (size (taken s) + waiting_workers s) s s'"
    using assms(1)
  proof (induction rule: rtranclp_induct)
    case base
    with assms(2) show ?case by (simp add: after_stop_def)
  next
    case (step s1 s2)
    then show ?case using broker_step_after_stop by blast
  qed
  then show ?thesis by (simp add: after_stop_def)
qed

theorem stop_abandons_queue_witness:
  "mset [example_message ''m'' LOW] \<subseteq># mset (run_queue (set_worker 0 Exited \<lparr>run_running = False,
     run_workers = [AtLoop], run_queue = [example_message ''m'' LOW],
     run_published = [example_message ''m'' LOW], run_dispatched = [], run_discarded = [], run_cut_off = []\<rparr>))"
proof -
  let ?m = "example_message ''m'' LOW"
  let ?s = "\<lparr>run_running = False, run_workers = [AtLoop], run_queue = [?m], run_published = [?m],
    run_dispatched = [], run_discarded = [], run_cut_off = []\<rparr>"
  have "broker_step ?s (set_worker 0 Exited ?s)" by (rule broker_step.leave) simp_all
  then have "broker_step\<^sup>*\<^sup>* ?s (set_worker 0 Exited ?s)" by (rule r_into_rtranclp)
  then show ?thesis
    using stop_abandons_queue [of ?s "set_worker 0 Exited ?s"] by (simp add: waiting_workers_def)
qed

end
