(* ===== verification/Fleet.thy ===== *)
theory Fleet
  imports Mesh_Prelude
begin

text \<open>
  The fleet: \<open>fleet/registry.py\<close> (agent nodes, registration, heartbeats, pruning),
  \<open>fleet/health.py\<close> (marking nodes whose heartbeat is overdue) and \<open>fleet/load_balancer.py\<close>
  (choosing among the healthy nodes). The monitor and the balancer hold a reference to the
  registry; here the registry is passed to and returned from their operations. Clock readings are
  arguments, and the generator behind the random strategy is a parameter.
\<close>

section \<open>The registry\<close>

datatype agent_status = HEALTHY | UNHEALTHY | DEGRADED | STARTING | STOPPING

record agent_node =
  node_id :: string
  capabilities :: "string set"
  node_status :: agent_status
  load_score :: pyfloat
  last_heartbeat :: timestamp
  node_metadata :: "(string, string) dict"

type_synonym fleet_registry = "(string, agent_node) dict"

definition is_healthy :: "agent_node \<Rightarrow> bool" where
  "is_healthy n \<longleftrightarrow> node_status n = HEALTHY"

definition has_capability :: "string \<Rightarrow> agent_node \<Rightarrow> bool" where
  "has_capability c n \<longleftrightarrow> c \<in> capabilities n"

definition unit_load :: "pyfloat \<Rightarrow> bool" where
  "unit_load x \<longleftrightarrow> 0 \<le> x \<and> x \<le> 1"

definition get_or_raise :: "string \<Rightarrow> fleet_registry \<Rightarrow> exn + agent_node" where
  "get_or_raise a r = (case dict_get r a of None \<Rightarrow> Inl (AgentNodeNotFoundError a) | Some n \<Rightarrow> Inr n)"

definition fleet_register :: "agent_node \<Rightarrow> fleet_registry \<Rightarrow> (fleet_registry, unit) outcome" where
  "fleet_register n r =
     (if \<not> unit_load (load_score n) then (r, Inl (ValueError ''load_score''))
      else (dict_set (node_id n) n r, Inr ()))"

definition fleet_deregister :: "string \<Rightarrow> fleet_registry \<Rightarrow> (fleet_registry, unit) outcome" where
  "fleet_deregister a r =
     (if dict_has r a then (dict_del a r, Inr ()) else (r, Inl (AgentNodeNotFoundError a)))"

definition fleet_heartbeat ::
    "timestamp \<Rightarrow> string \<Rightarrow> pyfloat option \<Rightarrow> agent_status option \<Rightarrow> fleet_registry
     \<Rightarrow> (fleet_registry, unit) outcome" where
  "fleet_heartbeat now a load status r =
     (if \<exists>x \<in> set_option load. \<not> unit_load x then (r, Inl (ValueError ''load_score''))
      else case get_or_raise a r of
        Inl x \<Rightarrow> (r, Inl x)
      | Inr n \<Rightarrow>
          (let n1 = n\<lparr>last_heartbeat := now\<rparr>;
               n2 = (case load of None \<Rightarrow> n1 | Some x \<Rightarrow> n1\<lparr>load_score := x\<rparr>);
               n3 = (case status of None \<Rightarrow> n2 | Some s \<Rightarrow> n2\<lparr>node_status := s\<rparr>)
           in (dict_set a n3 r, Inr ())))"

definition get_available :: "string \<Rightarrow> fleet_registry \<Rightarrow> agent_node list" where
  "get_available c r = filter (\<lambda>n. is_healthy n \<and> has_capability c n) (dict_values r)"

definition list_nodes :: "bool \<Rightarrow> fleet_registry \<Rightarrow> agent_node list" where
  "list_nodes healthy_only r =
     (let nodes = dict_values r in if healthy_only then filter is_healthy nodes else nodes)"

definition prune_stale :: "timestamp \<Rightarrow> rat \<Rightarrow> fleet_registry \<Rightarrow> fleet_registry \<times> string list" where
  "prune_stale now timeout r =
     (let stale_ids = map fst (filter (\<lambda>(a, n). now - last_heartbeat n > timeout) r)
      in (fold dict_del stale_ids r, stale_ids))"

section \<open>The health monitor\<close>

record health_monitor =
  heartbeat_timeout :: rat
  check_interval :: rat
  restore_on_heartbeat :: bool
  hm_running :: bool
  total_checks :: nat
  total_marked_unhealthy :: nat
  total_restored :: nat

definition HealthMonitor :: "rat \<Rightarrow> rat \<Rightarrow> bool \<Rightarrow> exn + health_monitor" where
  "HealthMonitor timeout interval restore =
     (if timeout \<le> 0 then Inl (ValueError ''heartbeat_timeout_seconds'')
      else if interval \<le> 0 then Inl (ValueError ''check_interval_seconds'')
      else Inr \<lparr>heartbeat_timeout = timeout, check_interval = interval, restore_on_heartbeat = restore,
                hm_running = False, total_checks = 0, total_marked_unhealthy = 0, total_restored = 0\<rparr>)"

definition hm_start :: "health_monitor \<Rightarrow> health_monitor" where
  "hm_start m = (if hm_running m then m else m\<lparr>hm_running := True\<rparr>)"

definition hm_stop :: "health_monitor \<Rightarrow> health_monitor" where
  "hm_stop m = (if \<not> hm_running m then m else m\<lparr>hm_running := False\<rparr>)"

type_synonym fleet_state = "health_monitor \<times> fleet_registry"

definition record_heartbeat ::
    "timestamp \<Rightarrow> string \<Rightarrow> pyfloat option \<Rightarrow> fleet_state \<Rightarrow> (fleet_state, unit) outcome" where
  "record_heartbeat now a load = (\<lambda>(m, r).
     (case get_or_raise a r of
        Inl _ \<Rightarrow> ((m, r), Inr ())
      | Inr n \<Rightarrow>
          (let restore_to_healthy = (restore_on_heartbeat m \<and> node_status n = UNHEALTHY);
               new_status = (if restore_to_healthy then Some HEALTHY else None)
           in case fleet_heartbeat now a load new_status r of
                (r', Inl x) \<Rightarrow> ((m, r'), Inl x)
              | (r', Inr _) \<Rightarrow>
                  ((if restore_to_healthy then m\<lparr>total_restored := total_restored m + 1\<rparr> else m, r'), Inr ()))))"

definition overdue :: "timestamp \<Rightarrow> health_monitor \<Rightarrow> agent_node \<Rightarrow> bool" where
  "overdue now m n \<longleftrightarrow> now - last_heartbeat n > heartbeat_timeout m \<and> node_status n \<noteq> UNHEALTHY"

definition mark_unhealthy :: "agent_node \<Rightarrow> health_monitor \<Rightarrow> health_monitor \<times> agent_node" where
  "mark_unhealthy n m =
     (m\<lparr>total_marked_unhealthy := total_marked_unhealthy m + 1\<rparr>, n\<lparr>node_status := UNHEALTHY\<rparr>)"

text \<open>The loop of \<open>check_all\<close>: the nodes of the snapshot are the registry's own objects.\<close>

fun check_nodes :: "timestamp \<Rightarrow> health_monitor \<Rightarrow> fleet_registry \<Rightarrow> fleet_state \<times> string list" where
  "check_nodes now m [] = ((m, []), [])"
| "check_nodes now m ((a, n) # r) =
     (if overdue now m n
      then (let (m1, n1) = mark_unhealthy n m; ((m2, r2), ids) = check_nodes now m1 r
            in ((m2, (a, n1) # r2), node_id n # ids))
      else (let ((m2, r2), ids) = check_nodes now m r in ((m2, (a, n) # r2), ids)))"

definition check_all :: "timestamp \<Rightarrow> fleet_state \<Rightarrow> fleet_state \<times> string list" where
  "check_all now = (\<lambda>(m, r).
     (let ((m1, r1), ids) = check_nodes now m r in ((m1\<lparr>total_checks := total_checks m1 + 1\<rparr>, r1), ids)))"

definition check_node :: "timestamp \<Rightarrow> string \<Rightarrow> fleet_state \<Rightarrow> (fleet_state, bool) outcome" where
  "check_node now a = (\<lambda>(m, r).
     (case get_or_raise a r of
        Inl x \<Rightarrow> ((m, r), Inl x)
      | Inr n \<Rightarrow>
          (if overdue now m n
           then (let (m1, n1) = mark_unhealthy n m in ((m1, dict_set a n1 r), Inr True))
           else ((m, r), Inr False))))"

section \<open>The load balancer\<close>

datatype strategy = ROUND_ROBIN | LEAST_LOADED | RANDOM | CAPABILITY_WEIGHTED

record 'g load_balancer =
  lb_strategy :: strategy
  lb_rng :: 'g
  rr_counter :: int

definition LoadBalancer :: "strategy \<Rightarrow> 'g \<Rightarrow> 'g load_balancer" where
  "LoadBalancer s g = \<lparr>lb_strategy = s, lb_rng = g, rr_counter = 0\<rparr>"

definition eligible_nodes :: "string option \<Rightarrow> fleet_registry \<Rightarrow> agent_node list" where
  "eligible_nodes req r =
     (let healthy = list_nodes True r in
      case req of None \<Rightarrow> healthy | Some c \<Rightarrow> filter (has_capability c) healthy)"

definition lb_round_robin :: "agent_node list \<Rightarrow> 'g load_balancer \<Rightarrow> 'g load_balancer \<times> agent_node" where
  "lb_round_robin candidates lb =
     (let candidates_sorted = sort_key node_id candidates;
          index = nat (rr_counter lb mod int (length candidates_sorted))
      in (lb\<lparr>rr_counter := rr_counter lb + 1\<rparr>, candidates_sorted ! index))"

definition lb_random :: "'g rng_ops \<Rightarrow> agent_node list \<Rightarrow> 'g load_balancer \<Rightarrow> 'g load_balancer \<times> agent_node" where
  "lb_random R candidates lb =
     (let (g, i) = draw_index R (lb_rng lb) (length candidates) in (lb\<lparr>lb_rng := g\<rparr>, candidates ! i))"

definition capability_score :: "agent_node \<Rightarrow> rat" where
  "capability_score n = (1 + of_nat (card (capabilities n))) / (1 + load_score n)"

definition lb_select ::
    "'g rng_ops \<Rightarrow> string option \<Rightarrow> fleet_registry \<Rightarrow> 'g load_balancer \<Rightarrow> 'g load_balancer \<times> agent_node option" where
  "lb_select R req r lb =
     (case eligible_nodes req r of
        [] \<Rightarrow> (lb, None)
      | n # ns \<Rightarrow>
          (case lb_strategy lb of
             ROUND_ROBIN \<Rightarrow> map_prod id Some (lb_round_robin (n # ns) lb)
           | LEAST_LOADED \<Rightarrow> (lb, Some (min_by_from load_score n ns))
           | RANDOM \<Rightarrow> map_prod id Some (lb_random R (n # ns) lb)
           | CAPABILITY_WEIGHTED \<Rightarrow> (lb, Some (max_by_from capability_score n ns))))"

text \<open>\<open>sorted(..., reverse=True)\<close> keeps the order of equal elements.\<close>

definition lb_rank ::
    "'g rng_ops \<Rightarrow> agent_node list \<Rightarrow> 'g load_balancer \<Rightarrow> 'g load_balancer \<times> agent_node list" where
  "lb_rank R candidates lb =
     (case lb_strategy lb of
        ROUND_ROBIN \<Rightarrow> (lb, sort_key node_id candidates)
      | LEAST_LOADED \<Rightarrow> (lb, sort_key load_score candidates)
      | RANDOM \<Rightarrow> (let (g, is) = draw_order R (lb_rng lb) (length candidates)
                   in (lb\<lparr>lb_rng := g\<rparr>, map ((!) candidates) is))
      | CAPABILITY_WEIGHTED \<Rightarrow> (lb, sort_key (\<lambda>n. - capability_score n) candidates))"

definition select_many ::
    "'g rng_ops \<Rightarrow> int \<Rightarrow> string option \<Rightarrow> fleet_registry \<Rightarrow> 'g load_balancer \<Rightarrow> 'g load_balancer \<times> agent_node list" where
  "select_many R n req r lb =
     (if n \<le> 0 then (lb, [])
      else let healthy = eligible_nodes req r in
        if healthy = [] then (lb, [])
        else let (lb', ranked) = lb_rank R healthy lb in (lb', take (nat n) ranked))"

section \<open>Invariant\<close>

text \<open>Every node is stored under its own id, once, and has a load in the unit interval.\<close>

definition fleet_wf :: "fleet_registry \<Rightarrow> bool" where
  "fleet_wf r \<longleftrightarrow> dict_wf r \<and> (\<forall>(a, n) \<in> set r. node_id n = a \<and> unit_load (load_score n))"

datatype fleet_event =
    Register agent_node
  | Deregister string
  | Heartbeat timestamp string "pyfloat option" "agent_status option"
  | MonitorHeartbeat timestamp string "pyfloat option"
  | Prune timestamp rat
  | CheckAll timestamp
  | CheckNode timestamp string

fun fleet_step :: "fleet_state \<Rightarrow> fleet_event \<Rightarrow> fleet_state" where
  "fleet_step (m, r) (Register n) = (m, fst (fleet_register n r))"
| "fleet_step (m, r) (Deregister a) = (m, fst (fleet_deregister a r))"
| "fleet_step (m, r) (Heartbeat now a load s) = (m, fst (fleet_heartbeat now a load s r))"
| "fleet_step (m, r) (MonitorHeartbeat now a load) = fst (record_heartbeat now a load (m, r))"
| "fleet_step (m, r) (Prune now t) = (m, fst (prune_stale now t r))"
| "fleet_step (m, r) (CheckAll now) = fst (check_all now (m, r))"
| "fleet_step (m, r) (CheckNode now a) = fst (check_node now a (m, r))"

lemma fleet_wf_get: "fleet_wf r \<Longrightarrow> dict_get r a = Some n \<Longrightarrow> node_id n = a \<and> unit_load (load_score n)"
  unfolding fleet_wf_def by (auto dest: map_of_SomeD)

lemma fleet_wf_set:
  "fleet_wf r \<Longrightarrow> node_id n = a \<Longrightarrow> unit_load (load_score n) \<Longrightarrow> fleet_wf (dict_set a n r)"
  unfolding fleet_wf_def
proof (elim conjE, intro conjI)
  assume r: "\<forall>(a, n) \<in> set r. node_id n = a \<and> unit_load (load_score n)" "node_id n = a" "unit_load (load_score n)"
  have "set (dict_set a n r) \<subseteq> insert (a, n) (set r)" by (induction r) auto
  with r show "\<forall>(a, n) \<in> set (dict_set a n r). node_id n = a \<and> unit_load (load_score n)" by blast
qed simp

lemma fleet_wf_filter: "fleet_wf r \<Longrightarrow> fleet_wf (filter P r)"
  unfolding fleet_wf_def by (auto simp: distinct_map_filter)

lemma fleet_wf_del: "fleet_wf r \<Longrightarrow> fleet_wf (dict_del a r)"
  by (simp add: dict_del_filter fleet_wf_filter)

lemma fold_dict_del: "fold dict_del ks d = filter (\<lambda>p. fst p \<notin> set ks) d"
  by (induction ks arbitrary: d) (simp_all add: dict_del_filter conj_commute)

text \<open>Pruning keeps exactly the entries that are not stale.\<close>

lemma prune_stale_filter:
  assumes "dict_wf r"
  shows "prune_stale now t r =
    (filter (\<lambda>(a, n). now - last_heartbeat n \<le> t) r, map fst (filter (\<lambda>(a, n). now - last_heartbeat n > t) r))"
proof -
  have "fst p \<in> set (map fst (filter (\<lambda>(a, n). now - last_heartbeat n > t) r)) \<longleftrightarrow> now - last_heartbeat (snd p) > t"
    if p: "p \<in> set r" for p
  proof
    assume "fst p \<in> set (map fst (filter (\<lambda>(a, n). now - last_heartbeat n > t) r))"
    then obtain q where q: "q \<in> set r" "fst q = fst p" "now - last_heartbeat (snd q) > t" by auto
    with p assms have "q = p" by (auto simp: distinct_map dest: inj_onD)
    with q show "now - last_heartbeat (snd p) > t" by simp
  next
    assume "now - last_heartbeat (snd p) > t"
    with p show "fst p \<in> set (map fst (filter (\<lambda>(a, n). now - last_heartbeat n > t) r))"
      by (auto intro!: image_eqI [of _ _ p] simp: case_prod_beta)
  qed
  then have "filter (\<lambda>p. fst p \<notin> set (map fst (filter (\<lambda>(a, n). now - last_heartbeat n > t) r))) r =
      filter (\<lambda>(a, n). now - last_heartbeat n \<le> t) r"
    by (intro filter_cong) (auto simp: case_prod_beta not_less)
  then show ?thesis unfolding prune_stale_def Let_def fold_dict_del by simp
qed

text \<open>One pass of the monitor, as a map over the entries.\<close>

definition checked :: "timestamp \<Rightarrow> health_monitor \<Rightarrow> agent_node \<Rightarrow> agent_node" where
  "checked now m n = (if overdue now m n then n\<lparr>node_status := UNHEALTHY\<rparr> else n)"

lemma check_nodes_map:
  "check_nodes now m r =
    ((m\<lparr>total_marked_unhealthy := total_marked_unhealthy m + length (filter (\<lambda>(a, n). overdue now m n) r)\<rparr>,
      map (\<lambda>(a, n). (a, checked now m n)) r),
     map (\<lambda>(a, n). node_id n) (filter (\<lambda>(a, n). overdue now m n) r))"
proof (induction r arbitrary: m)
  case (Cons p r)
  have same: "overdue now (m\<lparr>total_marked_unhealthy := k\<rparr>) = overdue now m" for k
    by (simp add: overdue_def fun_eq_iff)
  then have "checked now (m\<lparr>total_marked_unhealthy := k\<rparr>) = checked now m" for k
    by (simp add: checked_def fun_eq_iff)
  with same Cons show ?case by (cases p) (simp add: mark_unhealthy_def checked_def)
qed simp

lemma check_all_map:
  "check_all now (m, r) =
    ((m\<lparr>total_checks := total_checks m + 1,
        total_marked_unhealthy := total_marked_unhealthy m + length (filter (\<lambda>(a, n). overdue now m n) r)\<rparr>,
      map (\<lambda>(a, n). (a, checked now m n)) r),
     map (\<lambda>(a, n). node_id n) (filter (\<lambda>(a, n). overdue now m n) r))"
  by (simp add: check_all_def check_nodes_map)

lemma checked_fields [simp]:
  "node_id (checked now m n) = node_id n" "load_score (checked now m n) = load_score n"
  "last_heartbeat (checked now m n) = last_heartbeat n"
  by (simp_all add: checked_def)

lemma fleet_wf_checked: "fleet_wf r \<Longrightarrow> fleet_wf (map (\<lambda>(a, n). (a, checked now m n)) r)"
  unfolding fleet_wf_def dict_keys_map by auto

lemma fleet_heartbeat_wf: "fleet_wf r \<Longrightarrow> fleet_wf (fst (fleet_heartbeat now a load s r))"
  using fleet_wf_get [of r a]
  by (auto simp: fleet_heartbeat_def get_or_raise_def Let_def intro!: fleet_wf_set split: option.splits)

lemma record_heartbeat_registry:
  "snd (fst (record_heartbeat now a load (m, r))) =
    (case dict_get r a of None \<Rightarrow> r
     | Some n \<Rightarrow> fst (fleet_heartbeat now a load
         (if restore_on_heartbeat m \<and> node_status n = UNHEALTHY then Some HEALTHY else None) r))"
  by (auto simp: record_heartbeat_def get_or_raise_def Let_def split: option.split prod.split sum.split)

interpretation fleet: inv_system fleet_step "\<lambda>s. fleet_wf (snd s)"
proof
  fix s :: fleet_state and e assume "fleet_wf (snd s)"
  then obtain m r where s: "s = (m, r)" and wf: "fleet_wf r" by (cases s) auto
  show "fleet_wf (snd (fleet_step s e))"
  proof (cases e)
    case (Register n)
    with s wf show ?thesis by (auto simp: fleet_register_def intro: fleet_wf_set)
  next
    case (MonitorHeartbeat now a load)
    with s wf show ?thesis
      by (auto simp: record_heartbeat_registry fleet_heartbeat_wf split: option.split)
  next
    case (Prune now t)
    have "dict_wf r" using wf by (simp add: fleet_wf_def)
    with s wf Prune show ?thesis by (simp add: prune_stale_filter fleet_wf_filter)
  next
    case (CheckNode now a)
    with s wf show ?thesis using fleet_wf_get [OF wf, of a]
      by (auto simp: check_node_def get_or_raise_def mark_unhealthy_def intro!: fleet_wf_set split: option.split)
  qed (use s wf in \<open>auto simp: fleet_deregister_def fleet_wf_del fleet_heartbeat_wf check_all_map fleet_wf_checked\<close>)
qed

section \<open>Lemmas: the load balancer\<close>

lemma eligible_nodes_set:
  "n \<in> set (eligible_nodes req r) \<longleftrightarrow> n \<in> set (dict_values r) \<and> is_healthy n \<and> (\<forall>c \<in> set_option req. has_capability c n)"
  by (auto simp: eligible_nodes_def list_nodes_def Let_def split: option.split)

lemma eligible_nodes_distinct: "fleet_wf r \<Longrightarrow> distinct (eligible_nodes req r)"
proof -
  assume wf: "fleet_wf r"
  have "map node_id (dict_values r) = map fst r"
    using wf unfolding fleet_wf_def by (induction r) auto
  then have "distinct (map node_id (dict_values r))" using wf by (simp only: fleet_wf_def)
  then have "distinct (dict_values r)" unfolding distinct_map [of node_id] by blast
  then show ?thesis by (simp add: eligible_nodes_def list_nodes_def Let_def split: option.split)
qed

text \<open>The round-robin balancer over an unchanged registry goes round the eligible nodes.\<close>

definition lb_pick :: "'g rng_ops \<Rightarrow> string option \<Rightarrow> fleet_registry \<times> 'g load_balancer
    \<Rightarrow> (fleet_registry \<times> 'g load_balancer) \<times> agent_node option" where
  "lb_pick R req = (\<lambda>(r, lb). case lb_select R req r lb of (lb', n) \<Rightarrow> ((r, lb'), n))"

definition lb_pool :: "string option \<Rightarrow> fleet_registry \<times> 'g load_balancer \<Rightarrow> agent_node option list" where
  "lb_pool req = (\<lambda>(r, lb). if lb_strategy lb = ROUND_ROBIN
     then map Some (sort_key node_id (eligible_nodes req r)) else [])"

interpretation lb_rotor: rotor "lb_pick R req" "lb_pool req" "\<lambda>(r, lb). rr_counter lb" for R req
proof (unfold_locales, goal_cases)
  case (1 s)
  then obtain n ns where el: "eligible_nodes req (fst s) = n # ns"
    by (cases "eligible_nodes req (fst s)") (auto simp: lb_pool_def split: prod.splits if_splits)
  moreover have "nat (rr_counter (snd s) mod int (Suc (length ns))) < Suc (length ns)" by (simp add: nat_less_iff)
  ultimately show ?case using 1
    by (cases s) (auto simp: lb_pick_def lb_pool_def lb_select_def lb_round_robin_def Let_def split: if_splits)
next
  case (2 s)
  then show ?case
    by (cases s) (auto simp: lb_pick_def lb_pool_def lb_select_def lb_round_robin_def Let_def
        split: if_splits list.split)
next
  case (3 s)
  then show ?case
    by (cases s) (auto simp: lb_pick_def lb_pool_def lb_select_def lb_round_robin_def Let_def
        split: if_splits list.split)
qed

lemma lb_rank_perm:
  assumes "rng_ok R"
  shows "mset (snd (lb_rank R ns lb)) = mset ns"
proof -
  have "mset (map ((!) ns) is) = mset ns" if "mset is = mset [0..<length ns]" for "is"
  proof -
    have "mset (map ((!) ns) is) = image_mset ((!) ns) (mset [0..<length ns])" using that by simp
    also have "\<dots> = mset (map ((!) ns) [0..<length ns])" by (rule mset_map [symmetric])
    finally show ?thesis by (simp only: map_nth)
  qed
  moreover have "mset (snd (draw_order R g n)) = mset [0..<n]" for g n using assms unfolding rng_ok_def by blast
  ultimately have "mset (map ((!) ns) (snd (draw_order R (lb_rng lb) (length ns)))) = mset ns" by blast
  then show ?thesis
    by (cases "lb_strategy lb") (simp_all only: lb_rank_def case_prod_beta strategy.case Let_def snd_conv mset_sort)
qed

lemma lb_select_eligible:
  assumes "rng_ok R" "lb_select R req r lb = (lb', Some n)"
  shows "n \<in> set (eligible_nodes req r)"
proof -
  obtain x xs where el: "eligible_nodes req r = x # xs"
    using assms(2) by (cases "eligible_nodes req r") (auto simp: lb_select_def)
  have idx: "snd (draw_index R (lb_rng lb) (Suc (length xs))) < Suc (length xs)"
    using assms(1) by (simp add: rng_ok_def)
  have rr: "nat (rr_counter lb mod int (Suc (length xs))) < Suc (length xs)" by (simp add: nat_less_iff)
  then have "sort_key node_id (x # xs) ! nat (rr_counter lb mod int (Suc (length xs))) \<in> set (sort_key node_id (x # xs))"
    by (intro nth_mem) simp
  then have mem: "sort_key node_id (x # xs) ! nat (rr_counter lb mod int (Suc (length xs))) \<in> set (x # xs)"
    by (simp only: set_sort)
  show ?thesis
  proof (cases "lb_strategy lb")
    case ROUND_ROBIN
    with assms(2) el mem show ?thesis
      by (auto simp: lb_select_def lb_round_robin_def Let_def)
  next
    case LEAST_LOADED
    with assms(2) el min_by_from_in [of load_score x xs] show ?thesis by (auto simp: lb_select_def)
  next
    case RANDOM
    have "(x # xs) ! snd (draw_index R (lb_rng lb) (Suc (length xs))) \<in> set (x # xs)"
      using idx by (intro nth_mem) simp
    with RANDOM assms(2) el show ?thesis by (auto simp: lb_select_def lb_random_def case_prod_beta)
  next
    case CAPABILITY_WEIGHTED
    with assms(2) el max_by_from_in [of capability_score x xs] show ?thesis by (auto simp: lb_select_def)
  qed
qed

section \<open>Properties\<close>

text \<open>
  C38: The registry is exact. After any registrations, heartbeats, checks, removals and prunings,
  every node is listed once under its own id with a load in the unit interval; \<open>get_available\<close>
  returns exactly the healthy nodes with the capability; and pruning removes exactly the nodes
  whose last heartbeat is older than the timeout, and returns their ids.
\<close>

theorem fleet_registry_exact:
  assumes "(m, r) = foldl fleet_step (m0, []) es"
  shows "distinct (map node_id (list_nodes False r)) \<and>
    (\<forall>a n. get_or_raise a r = Inr n \<longrightarrow> node_id n = a \<and> 0 \<le> load_score n \<and> load_score n \<le> 1) \<and>
    (\<forall>n. n \<in> set (get_available c r) \<longleftrightarrow>
      get_or_raise (node_id n) r = Inr n \<and> node_status n = HEALTHY \<and> c \<in> capabilities n) \<and>
    (\<forall>a n. get_or_raise a (fst (prune_stale now t r)) = Inr n \<longleftrightarrow>
      get_or_raise a r = Inr n \<and> now - last_heartbeat n \<le> t) \<and>
    (\<forall>a. a \<in> set (snd (prune_stale now t r)) \<longleftrightarrow>
      (\<exists>n. get_or_raise a r = Inr n \<and> now - last_heartbeat n > t))"
proof -
  have "fleet_wf []" by (simp add: fleet_wf_def)
  then have wf: "fleet_wf r" using fleet.run_inv [of "(m0, [])" es] assms by (metis snd_conv)
  then have d: "dict_wf r" by (simp add: fleet_wf_def)
  have get: "get_or_raise a r' = Inr n \<longleftrightarrow> dict_get r' a = Some n" for a n r'
    by (simp add: get_or_raise_def split: option.split)
  have ids: "map node_id (dict_values r) = map fst r"
    using wf unfolding fleet_wf_def by (induction r) auto
  have val: "n \<in> set (dict_values r) \<longleftrightarrow> dict_get r (node_id n) = Some n" for n
    using dict_values_mem [OF d, of n] fleet_wf_get [OF wf] by metis
  have kept: "dict_get (filter (\<lambda>(a, n). now - last_heartbeat n \<le> t) r) a = Some n \<longleftrightarrow>
      dict_get r a = Some n \<and> now - last_heartbeat n \<le> t" for a n
    using d by (auto simp: map_of_eq_Some_iff distinct_map_filter)
  have gone: "a \<in> set (map fst (filter (\<lambda>(a, n). now - last_heartbeat n > t) r)) \<longleftrightarrow>
      (\<exists>n. dict_get r a = Some n \<and> now - last_heartbeat n > t)" for a
    using d by (force simp: map_of_eq_Some_iff)
  have avail: "n \<in> set (get_available c r) \<longleftrightarrow>
      dict_get r (node_id n) = Some n \<and> node_status n = HEALTHY \<and> c \<in> capabilities n" for n
    using val [of n] by (auto simp: get_available_def is_healthy_def has_capability_def)
  have load: "dict_get r a = Some n \<Longrightarrow> node_id n = a \<and> 0 \<le> load_score n \<and> load_score n \<le> 1" for a n
    using fleet_wf_get [OF wf, of a n] by (simp add: unit_load_def)
  have "distinct (map node_id (list_nodes False r))"
    unfolding list_nodes_def Let_def if_False ids by (rule d)
  with load show ?thesis
    unfolding prune_stale_filter [OF d] fst_conv snd_conv get kept gone avail by simp
qed

definition example_node :: "string \<Rightarrow> rat \<Rightarrow> agent_node" where
  "example_node a t = \<lparr>node_id = a, capabilities = {''nlp''}, node_status = HEALTHY, load_score = 1/4,
     last_heartbeat = t, node_metadata = []\<rparr>"

definition example_monitor :: health_monitor where
  "example_monitor = \<lparr>heartbeat_timeout = 30, check_interval = 10, restore_on_heartbeat = True,
     hm_running = False, total_checks = 0, total_marked_unhealthy = 0, total_restored = 0\<rparr>"

theorem fleet_registry_exact_witness:
  "\<forall>n. n \<in> set (get_available ''nlp'' [(''a'', example_node ''a'' 0), (''b'', example_node ''b'' 40)]) \<longleftrightarrow>
     get_or_raise (node_id n) [(''a'', example_node ''a'' 0), (''b'', example_node ''b'' 40)] = Inr n \<and>
     node_status n = HEALTHY \<and> ''nlp'' \<in> capabilities n"
proof -
  have "(example_monitor, [(''a'', example_node ''a'' 0), (''b'', example_node ''b'' 40)]) =
      foldl fleet_step (example_monitor, []) [Register (example_node ''a'' 0), Register (example_node ''b'' 40)]"
    by (simp add: fleet_register_def example_node_def unit_load_def)
  from fleet_registry_exact [OF this, of "''nlp''"] show ?thesis by blast
qed

text \<open>
  A check of the fleet marks exactly the nodes whose heartbeat is overdue. Afterwards they are
  unhealthy, every other node is as before, the ids returned are those newly marked and are counted
  once; no available node is overdue any more, and checking again at the same time marks none.
\<close>

theorem check_marks_overdue:
  assumes "fleet_wf r" "check_all now (m, r) = ((m', r'), ids)"
  shows "(\<forall>a. dict_get r' a = map_option (\<lambda>n. if now - last_heartbeat n > heartbeat_timeout m
        then n\<lparr>node_status := UNHEALTHY\<rparr> else n) (dict_get r a)) \<and>
    distinct ids \<and>
    (\<forall>a. a \<in> set ids \<longleftrightarrow> (\<exists>n. dict_get r a = Some n \<and> now - last_heartbeat n > heartbeat_timeout m \<and>
        node_status n \<noteq> UNHEALTHY)) \<and>
    total_marked_unhealthy m' = total_marked_unhealthy m + length ids \<and> total_checks m' = total_checks m + 1 \<and>
    (\<forall>n \<in> set (get_available c r'). now - last_heartbeat n \<le> heartbeat_timeout m) \<and>
    snd (check_all now (m', r')) = []"
proof -
  have d: "dict_wf r" using assms(1) by (simp add: fleet_wf_def)
  have r': "r' = map (\<lambda>(a, n). (a, checked now m n)) r"
    and m': "m' = m\<lparr>total_checks := total_checks m + 1,
      total_marked_unhealthy := total_marked_unhealthy m + length (filter (\<lambda>(a, n). overdue now m n) r)\<rparr>"
    and ids: "ids = map (\<lambda>(a, n). node_id n) (filter (\<lambda>(a, n). overdue now m n) r)"
    using assms(2) unfolding check_all_map by simp_all
  have keys: "ids = map fst (filter (\<lambda>(a, n). overdue now m n) r)"
    unfolding ids using assms(1) by (intro map_cong) (auto simp: fleet_wf_def)
  have same: "overdue now m' = overdue now m" unfolding m' by (simp add: overdue_def fun_eq_iff)
  have get: "dict_get r' a = map_option (\<lambda>n. if now - last_heartbeat n > heartbeat_timeout m
      then n\<lparr>node_status := UNHEALTHY\<rparr> else n) (dict_get r a)" for a
    unfolding r' map_of_map_values
    by (rule option.map_cong) (auto simp: checked_def overdue_def)
  have none: "\<not> overdue now m (checked now m n)" for n by (simp add: checked_def overdue_def)
  have mem: "a \<in> set ids \<longleftrightarrow> (\<exists>n. dict_get r a = Some n \<and> now - last_heartbeat n > heartbeat_timeout m \<and>
      node_status n \<noteq> UNHEALTHY)" for a
    unfolding keys using d by (force simp: map_of_eq_Some_iff overdue_def)
  have fresh: "now - last_heartbeat n \<le> heartbeat_timeout m" if n: "n \<in> set (get_available c r')" for n
  proof -
    have "n \<in> snd ` set r'" "node_status n = HEALTHY" using n by (auto simp: get_available_def is_healthy_def)
    then obtain k where "n = checked now m k" unfolding r' by auto
    with none [of k] \<open>node_status n = HEALTHY\<close> show ?thesis by (simp add: overdue_def not_less)
  qed
  have again: "snd (check_all now (m', r')) = []"
    unfolding check_all_map snd_conv same r' using none by (simp add: filter_empty_conv case_prod_beta)
  show ?thesis
    using get mem fresh again d by (simp add: m' keys distinct_map_filter)
qed

theorem check_marks_overdue_witness:
  "snd (check_all 35 (example_monitor, [(''a'', example_node ''a'' 0), (''b'', example_node ''b'' 20)])) = [''a''] \<and>
   snd (check_all 35 (fst (check_all 35 (example_monitor,
     [(''a'', example_node ''a'' 0), (''b'', example_node ''b'' 20)])))) = []"
proof -
  let ?r = "[(''a'', example_node ''a'' 0), (''b'', example_node ''b'' 20)]"
  have wf: "fleet_wf ?r" by (simp add: fleet_wf_def example_node_def unit_load_def)
  obtain m' r' ids where c: "check_all 35 (example_monitor, ?r) = ((m', r'), ids)"
    by (cases "check_all 35 (example_monitor, ?r)") fastforce
  have "snd (check_all 35 (example_monitor, ?r)) = [''a'']"
    by (simp add: check_all_map overdue_def example_node_def example_monitor_def)
  with check_marks_overdue [OF wf c] c show ?thesis by simp
qed

text \<open>
  A heartbeat that goes through the monitor brings an unhealthy node back (when the monitor is told
  to), one that goes through the registry alone does not, and neither touches another node. A load
  outside the unit interval is refused and changes nothing.
\<close>

theorem heartbeat_restores:
  assumes "dict_get r a = Some n" "\<forall>x \<in> set_option load. unit_load x"
  shows "(\<exists>n'. snd (fst (record_heartbeat now a load (m, r))) = dict_set a n' r \<and>
      snd (record_heartbeat now a load (m, r)) = Inr () \<and> last_heartbeat n' = now \<and>
      node_status n' = (if restore_on_heartbeat m \<and> node_status n = UNHEALTHY then HEALTHY else node_status n)) \<and>
    (\<exists>n'. fleet_heartbeat now a load None r = (dict_set a n' r, Inr ()) \<and> last_heartbeat n' = now \<and>
      node_status n' = node_status n) \<and>
    (\<not> unit_load x \<longrightarrow> record_heartbeat now a (Some x) (m, r) = ((m, r), Inl (ValueError ''load_score'')))"
  using assms
  by (auto simp: record_heartbeat_def fleet_heartbeat_def get_or_raise_def Let_def split: option.splits)

text \<open>
  The fleet's load balancer chooses well. It returns a node exactly when some healthy node has
  the required capability, and then one of these; \<open>least_loaded\<close> returns one of least load,
  \<open>capability_weighted\<close> one of greatest score; round robin is fair: over \<open>k\<close> rounds on an unchanged
  registry it selects every eligible node exactly \<open>k\<close> times. \<open>select_many\<close> returns different
  eligible nodes, as many as asked for or as there are.
\<close>

theorem fleet_balancer_sound:
  assumes "rng_ok R" "fleet_wf r"
  shows "(snd (lb_select R req r lb) = None \<longleftrightarrow> eligible_nodes req r = []) \<and>
    (\<forall>n. snd (lb_select R req r lb) = Some n \<longrightarrow> n \<in> set (eligible_nodes req r) \<and>
      (lb_strategy lb = LEAST_LOADED \<longrightarrow> (\<forall>n' \<in> set (eligible_nodes req r). load_score n \<le> load_score n')) \<and>
      (lb_strategy lb = CAPABILITY_WEIGHTED \<longrightarrow>
        (\<forall>n' \<in> set (eligible_nodes req r). capability_score n' \<le> capability_score n))) \<and>
    (lb_strategy lb = ROUND_ROBIN \<longrightarrow> (\<forall>n \<in> set (eligible_nodes req r).
      count_list (picks (lb_pick R req) (k * length (eligible_nodes req r)) (r, lb)) (Some n) = k)) \<and>
    distinct (snd (select_many R c req r lb)) \<and> set (snd (select_many R c req r lb)) \<subseteq> set (eligible_nodes req r) \<and>
    length (snd (select_many R c req r lb)) = min (nat c) (length (eligible_nodes req r))"
proof (intro conjI allI impI ballI)
  let ?E = "eligible_nodes req r"
  have dE: "distinct ?E" using assms(2) by (rule eligible_nodes_distinct)
  show "snd (lb_select R req r lb) = None \<longleftrightarrow> ?E = []"
    by (auto simp: lb_select_def split: list.split strategy.split)
  show "n \<in> set ?E" if "snd (lb_select R req r lb) = Some n" for n
    using lb_select_eligible [OF assms(1), of req r lb _ n] that by (cases "lb_select R req r lb") auto
  show "load_score n \<le> load_score n'"
    if "snd (lb_select R req r lb) = Some n" "lb_strategy lb = LEAST_LOADED" "n' \<in> set ?E" for n n'
    using that min_by_from_min [of n' _ _ load_score] by (auto simp: lb_select_def split: list.splits)
  show "capability_score n' \<le> capability_score n"
    if "snd (lb_select R req r lb) = Some n" "lb_strategy lb = CAPABILITY_WEIGHTED" "n' \<in> set ?E" for n n'
    using that max_by_from_max [of n' _ _ capability_score] by (auto simp: lb_select_def split: list.splits)
  show "count_list (picks (lb_pick R req) (k * length ?E) (r, lb)) (Some n) = k"
    if "lb_strategy lb = ROUND_ROBIN" "n \<in> set ?E" for n
  proof -
    have pool: "lb_pool req (r, lb) = map Some (sort_key node_id ?E)" using that(1) by (simp add: lb_pool_def)
    have "lb_pool req (r, lb) \<noteq> []" unfolding pool using that(2) by (metis Nil_is_map_conv empty_iff empty_set set_sort)
    then have "mset (picks (lb_pick R req) (k * length (lb_pool req (r, lb))) (r, lb)) =
        repeat_mset k (mset (lb_pool req (r, lb)))" by (rule lb_rotor.picks_fair)
    then have "mset (picks (lb_pick R req) (k * length ?E) (r, lb)) = repeat_mset k (image_mset Some (mset ?E))"
      unfolding pool by simp
    moreover have "count (image_mset Some (mset ?E)) (Some n) = 1"
      using dE that(2) count_image_inj [of Some "mset ?E" n] by (simp add: distinct_count_atmost_1)
    ultimately show ?thesis by (simp add: count_mset [symmetric])
  qed
  have perm: "mset (snd (lb_rank R ?E lb)) = mset ?E" by (rule lb_rank_perm [OF assms(1)])
  then have rank: "distinct (snd (lb_rank R ?E lb))" "set (snd (lb_rank R ?E lb)) = set ?E"
    "length (snd (lb_rank R ?E lb)) = length ?E"
    using dE mset_eq_imp_distinct_iff [OF perm] mset_eq_setD [OF perm] mset_eq_length [OF perm] by simp_all
  have many: "snd (select_many R c req r lb) = take (nat c) (snd (lb_rank R ?E lb))"
    using rank(2) by (auto simp: select_many_def Let_def case_prod_beta)
  show "distinct (snd (select_many R c req r lb))" unfolding many using rank(1) by simp
  show "set (snd (select_many R c req r lb)) \<subseteq> set ?E" unfolding many using rank(2) set_take_subset by fast
  show "length (snd (select_many R c req r lb)) = min (nat c) (length ?E)" unfolding many using rank(3) by simp
qed

definition first_index :: "nat rng_ops" where
  "first_index = \<lparr>draw_index = (\<lambda>g n. (g, 0)), draw_order = (\<lambda>g n. (g, [0..<n]))\<rparr>"

theorem fleet_balancer_sound_witness:
  "length (snd (select_many first_index 1 None [(''a'', example_node ''a'' 0), (''b'', example_node ''b'' 20)]
     (LoadBalancer RANDOM 0))) = 1"
proof -
  let ?r = "[(''a'', example_node ''a'' 0), (''b'', example_node ''b'' 20)]"
  have "fleet_wf ?r" by (simp add: fleet_wf_def example_node_def unit_load_def)
  moreover have "rng_ok first_index" by (simp add: rng_ok_def first_index_def)
  moreover have "length (eligible_nodes None ?r) = 2"
    by (simp add: eligible_nodes_def list_nodes_def is_healthy_def example_node_def)
  ultimately show ?thesis
    using fleet_balancer_sound [of first_index ?r None "LoadBalancer RANDOM 0" 0 1] by simp
qed

end
