(* ===== verification/Fleet_Monitor.thy ===== *)
theory Fleet_Monitor
  imports Fleet
begin

text \<open>
  The background loop of \<open>fleet/health.py\<close> running beside the calls of the registry and the monitor.
  The state has the clock and the time at which the loop wakes up next; a step lets time pass, runs
  one round of the loop, starts or stops the monitor, or performs one operation at the present time.
  The event loop may resume the sleeping loop late, by at most a given lag.
\<close>

section \<open>The loop\<close>

record monitor_run =
  mr_fleet :: fleet_state
  mr_now :: timestamp
  mr_due :: "timestamp option"
  mr_checked :: bool

text \<open>
  \<open>mr_due\<close> is \<open>None\<close> when there is no loop; \<open>mr_checked\<close> says whether the loop has run a round since
  it was started. One round of the loop gives the fleet after \<open>check_all\<close> and the end of its sleep, or
  nothing when the loop ends.
\<close>

definition monitor_round :: "timestamp \<Rightarrow> fleet_state \<Rightarrow> (fleet_state \<times> timestamp) option" where
  "monitor_round now s =
     (if hm_running (fst s) then Some (fst (check_all now s), now + check_interval (fst s)) else None)"

text \<open>\<open>start\<close> makes the task of the loop, \<open>stop\<close> cancels it and waits for its end.\<close>

definition monitor_start :: "monitor_run \<Rightarrow> monitor_run" where
  "monitor_start s =
     (if hm_running (fst (mr_fleet s)) then s
      else s\<lparr>mr_fleet := (hm_start (fst (mr_fleet s)), snd (mr_fleet s)), mr_due := Some (mr_now s), mr_checked := False\<rparr>)"

definition monitor_stop :: "monitor_run \<Rightarrow> monitor_run" where
  "monitor_stop s =
     (if \<not> hm_running (fst (mr_fleet s)) then s
      else s\<lparr>mr_fleet := (hm_stop (fst (mr_fleet s)), snd (mr_fleet s)), mr_due := None\<rparr>)"

text \<open>An operation at the time \<open>now\<close>; a node registers with a heartbeat that is not overdue.\<close>

fun event_at :: "timestamp \<Rightarrow> rat \<Rightarrow> fleet_event \<Rightarrow> bool" where
  "event_at now timeout (Register n) \<longleftrightarrow> now - timeout \<le> last_heartbeat n"
| "event_at now timeout (Deregister a) \<longleftrightarrow> True"
| "event_at now timeout (Heartbeat t a load st) \<longleftrightarrow> t = now"
| "event_at now timeout (MonitorHeartbeat t a load) \<longleftrightarrow> t = now"
| "event_at now timeout (Prune t max_age) \<longleftrightarrow> t = now"
| "event_at now timeout (CheckAll t) \<longleftrightarrow> t = now"
| "event_at now timeout (CheckNode t a) \<longleftrightarrow> t = now"

inductive monitor_step :: "rat \<Rightarrow> monitor_run \<Rightarrow> monitor_run \<Rightarrow> bool" for lag :: rat where
  pass: "0 \<le> d \<Longrightarrow> (\<And>t. mr_due s = Some t \<Longrightarrow> mr_now s + d \<le> t + lag) \<Longrightarrow>
    monitor_step lag s (s\<lparr>mr_now := mr_now s + d\<rparr>)"
| round: "mr_due s = Some t \<Longrightarrow> t \<le> mr_now s \<Longrightarrow> monitor_round (mr_now s) (mr_fleet s) = Some (f, t') \<Longrightarrow>
    monitor_step lag s (s\<lparr>mr_fleet := f, mr_due := Some t', mr_checked := True\<rparr>)"
| leave: "mr_due s = Some t \<Longrightarrow> t \<le> mr_now s \<Longrightarrow> monitor_round (mr_now s) (mr_fleet s) = None \<Longrightarrow>
    monitor_step lag s (s\<lparr>mr_due := None\<rparr>)"
| begin_loop: "monitor_step lag s (monitor_start s)"
| end_loop: "monitor_step lag s (monitor_stop s)"
| operate: "event_at (mr_now s) (heartbeat_timeout (fst (mr_fleet s))) e \<Longrightarrow>
    monitor_step lag s (s\<lparr>mr_fleet := fleet_step (mr_fleet s) e\<rparr>)"

section \<open>Lemmas\<close>

text \<open>No node that counts as alive has a heartbeat before \<open>c\<close>.\<close>

definition alive_since :: "timestamp \<Rightarrow> fleet_registry \<Rightarrow> bool" where
  "alive_since c r \<longleftrightarrow> (\<forall>n \<in> set (dict_values r). node_status n \<noteq> UNHEALTHY \<longrightarrow> c \<le> last_heartbeat n)"

lemma alive_since_subset: "alive_since c r \<Longrightarrow> set (dict_values r') \<subseteq> set (dict_values r) \<Longrightarrow> alive_since c r'"
  unfolding alive_since_def by blast

lemma dict_values_set: "set (dict_values (dict_set a n r)) \<subseteq> insert n (set (dict_values r))"
  by (induction r) auto

lemma dict_values_filter: "set (dict_values (filter P r)) \<subseteq> set (dict_values r)"
  by (induction r) auto

lemma dict_values_del: "set (dict_values (dict_del a r)) \<subseteq> set (dict_values r)"
  unfolding dict_del_filter by (rule dict_values_filter)

lemma dict_get_value: "dict_get r a = Some n \<Longrightarrow> n \<in> set (dict_values r)"
  by (induction r) (auto split: if_splits)

lemma alive_since_set:
  "alive_since c r \<Longrightarrow> (node_status n \<noteq> UNHEALTHY \<Longrightarrow> c \<le> last_heartbeat n) \<Longrightarrow> alive_since c (dict_set a n r)"
  using dict_values_set [of a n r] unfolding alive_since_def by blast

lemma alive_since_checked: "alive_since c r \<Longrightarrow> alive_since c (map (\<lambda>(a, n). (a, checked now m n)) r)"
  by (fastforce simp: alive_since_def checked_def split: if_splits)

lemma check_alive: "alive_since (now - heartbeat_timeout m) (map (\<lambda>(a, n). (a, checked now m n)) r)"
  by (auto simp: alive_since_def checked_def overdue_def split: if_splits)

lemma alive_since_heartbeat:
  assumes "alive_since c r" "c \<le> now"
  shows "alive_since c (fst (fleet_heartbeat now a load st r))"
  using assms by (auto simp: fleet_heartbeat_def get_or_raise_def Let_def intro!: alive_since_set split: option.split)

lemma fleet_step_alive:
  assumes "alive_since c r" "event_at now (heartbeat_timeout m) e" "c \<le> now - heartbeat_timeout m" "0 < heartbeat_timeout m"
  shows "alive_since c (snd (fleet_step (m, r) e))"
proof -
  have now: "c \<le> now" using assms(3,4) by simp
  show ?thesis
  proof (cases e)
    case (Register n)
    then show ?thesis using assms by (auto simp: fleet_register_def intro!: alive_since_set)
  next
    case (Deregister a)
    then show ?thesis using assms(1) alive_since_subset [OF _ dict_values_del] by (simp add: fleet_deregister_def)
  next
    case (Prune t max_age)
    then show ?thesis
      using assms(1) alive_since_subset [OF _ dict_values_filter] by (simp add: prune_stale_def Let_def fold_dict_del)
  next
    case (CheckNode t a)
    then show ?thesis using assms(1)
      by (auto simp: check_node_def get_or_raise_def mark_unhealthy_def intro!: alive_since_set split: option.split)
  next
    case (MonitorHeartbeat t a load)
    then show ?thesis using assms(1,2) now
      by (auto simp: record_heartbeat_registry alive_since_heartbeat split: option.split)
  qed (use assms(1,2) now in \<open>auto simp: alive_since_heartbeat check_all_map alive_since_checked\<close>)
qed

lemma record_heartbeat_config:
  "heartbeat_timeout (fst (fst (record_heartbeat now a load (m, r)))) = heartbeat_timeout m"
  "check_interval (fst (fst (record_heartbeat now a load (m, r)))) = check_interval m"
  "hm_running (fst (fst (record_heartbeat now a load (m, r)))) = hm_running m"
  by (auto simp: record_heartbeat_def Let_def split: option.split prod.split sum.split)

lemma fleet_step_config [simp]:
  "heartbeat_timeout (fst (fleet_step s e)) = heartbeat_timeout (fst s)"
  "check_interval (fst (fleet_step s e)) = check_interval (fst s)"
  "hm_running (fst (fleet_step s e)) = hm_running (fst s)"
  by (cases s; cases e; auto simp: record_heartbeat_config check_all_map check_node_def mark_unhealthy_def split: sum.split)+

text \<open>The invariant of the running monitor, for its timeout and interval.\<close>

definition monitor_inv :: "rat \<Rightarrow> rat \<Rightarrow> rat \<Rightarrow> monitor_run \<Rightarrow> bool" where
  "monitor_inv lag timeout interval s \<longleftrightarrow>
     heartbeat_timeout (fst (mr_fleet s)) = timeout \<and> check_interval (fst (mr_fleet s)) = interval \<and>
     (if hm_running (fst (mr_fleet s))
      then \<exists>t. mr_due s = Some t \<and> mr_now s \<le> t + lag \<and>
        (mr_checked s \<longrightarrow> t - interval \<le> mr_now s \<and> alive_since (t - interval - timeout) (snd (mr_fleet s)))
      else mr_due s = None)"

lemma monitor_inv_step:
  assumes "monitor_step lag s s'" "monitor_inv lag timeout interval s" "0 < timeout" "0 < interval" "0 \<le> lag"
  shows "monitor_inv lag timeout interval s'"
  using assms
proof (induction rule: monitor_step.induct)
  case (pass d s)
  show ?case
  proof (cases "hm_running (fst (mr_fleet s))")
    case True
    then obtain t where t: "mr_due s = Some t" using pass by (auto simp: monitor_inv_def)
    with pass(2) [OF t] pass True show ?thesis by (auto simp: monitor_inv_def)
  qed (use pass in \<open>auto simp: monitor_inv_def\<close>)
next
  case (round s t f t')
  obtain m r where s: "mr_fleet s = (m, r)" by fastforce
  from round(3) have f: "hm_running m" "f = fst (check_all (mr_now s) (m, r))" "t' = mr_now s + check_interval m"
    by (auto simp: monitor_round_def s split: if_splits)
  with round(4-) check_alive [of "mr_now s" m r] show ?case by (auto simp: monitor_inv_def s check_all_map)
next
  case (leave s t)
  then show ?case by (auto simp: monitor_inv_def monitor_round_def split: if_splits)
next
  case (begin_loop s)
  then show ?case by (auto simp: monitor_inv_def monitor_start_def hm_start_def)
next
  case (end_loop s)
  then show ?case by (auto simp: monitor_inv_def monitor_stop_def hm_stop_def)
next
  case (operate s e)
  obtain m r where s: "mr_fleet s = (m, r)" by fastforce
  have "alive_since (t - interval - timeout) (snd (fleet_step (m, r) e))"
    if "alive_since (t - interval - timeout) r" "t - interval \<le> mr_now s" for t
    using that operate by (intro fleet_step_alive [where now = "mr_now s"]) (auto simp: monitor_inv_def s)
  with operate show ?case by (auto simp: monitor_inv_def s)
qed

lemma monitor_inv_run:
  assumes "(monitor_step lag)\<^sup>*\<^sup>* s s'" "monitor_inv lag timeout interval s" "0 < timeout" "0 < interval" "0 \<le> lag"
  shows "monitor_inv lag timeout interval s'"
  using assms by (induction rule: rtranclp_induct) (auto intro: monitor_inv_step)

section \<open>Properties\<close>


text \<open>An agent that has just registered, five seconds after the first round of the loop.\<close>

definition watched_node :: agent_node where
  "watched_node = \<lparr>node_id = ''a'', capabilities = {''c''}, node_status = HEALTHY, load_score = 0, last_heartbeat = 0,
     node_metadata = []\<rparr>"

definition watching_monitor :: "nat \<Rightarrow> bool \<Rightarrow> health_monitor" where
  "watching_monitor k running = \<lparr>heartbeat_timeout = 10, check_interval = 5, restore_on_heartbeat = True, hm_running = running,
     total_checks = k, total_marked_unhealthy = 0, total_restored = 0\<rparr>"


section \<open>The task of the loop\<close>

text \<open>
  \<open>stop\<close> waits for the end of the cancelled task and other coroutines run meanwhile. The state has the
  handle \<open>_monitor_task\<close> and the tasks that are alive; \<open>stop\<close> is the part before the wait, which gives
  whether there is a wait, and the part after it.
\<close>

record monitor_tasks =
  mt_running :: bool
  mt_handle :: "nat option"
  mt_alive :: "nat list"
  mt_made :: nat

definition task_start :: "monitor_tasks \<Rightarrow> monitor_tasks" where
  "task_start s =
     (if mt_running s then s
      else s\<lparr>mt_running := True, mt_handle := Some (mt_made s), mt_alive := mt_alive s @ [mt_made s],
             mt_made := Suc (mt_made s)\<rparr>)"

definition stop_before_wait :: "monitor_tasks \<Rightarrow> monitor_tasks \<times> bool" where
  "stop_before_wait s =
     (if \<not> mt_running s then (s, False)
      else case mt_handle s of
        None \<Rightarrow> (s\<lparr>mt_running := False\<rparr>, False)
      | Some k \<Rightarrow> (s\<lparr>mt_running := False, mt_alive := removeAll k (mt_alive s)\<rparr>, True))"

definition stop_after_wait :: "monitor_tasks \<Rightarrow> monitor_tasks" where
  "stop_after_wait s = s\<lparr>mt_handle := None\<rparr>"

definition task_stop :: "monitor_tasks \<Rightarrow> monitor_tasks" where
  "task_stop s = (case stop_before_wait s of (s', waits) \<Rightarrow> if waits then stop_after_wait s' else s')"

text \<open>A call of \<open>start\<close> or of \<open>stop\<close> that is not interrupted; the invariant of such calls.\<close>

datatype monitor_call = StartCall | StopCall

fun task_step :: "monitor_tasks \<Rightarrow> monitor_call \<Rightarrow> monitor_tasks" where
  "task_step s StartCall = task_start s"
| "task_step s StopCall = task_stop s"

definition one_loop :: "monitor_tasks \<Rightarrow> bool" where
  "one_loop s \<longleftrightarrow> (if mt_running s then \<exists>k. mt_handle s = Some k \<and> mt_alive s = [k] else mt_alive s = [])"

interpretation monitor_calls: inv_system task_step one_loop
proof
  fix s e assume "one_loop s"
  then show "one_loop (task_step s e)"
    by (cases e) (auto simp: one_loop_def task_start_def task_stop_def stop_before_wait_def stop_after_wait_def
        split: if_splits)
qed

definition no_task :: monitor_tasks where
  "no_task = \<lparr>mt_running = False, mt_handle = None, mt_alive = [], mt_made = 0\<rparr>"

text \<open>
  Calls of \<open>start\<close> and \<open>stop\<close> one after the other keep at most one loop, alive exactly while the monitor
  runs. A \<open>start\<close> during the wait of \<open>stop\<close> breaks this: its handle is lost, the next \<open>stop\<close> leaves its loop
  alive, and the \<open>start\<close> after that makes a second loop beside it.
\<close>

theorem stop_start_race:
  "length (mt_alive (foldl task_step no_task calls)) = (if mt_running (foldl task_step no_task calls) then 1 else 0) \<and>
   (let s = stop_after_wait (task_start (fst (stop_before_wait (task_start no_task))))
    in mt_running s \<and> mt_handle s = None \<and> mt_alive (task_stop s) = [1] \<and> mt_alive (task_start (task_stop s)) = [1, 2])"
proof
  have "one_loop (foldl task_step no_task calls)"
    by (rule monitor_calls.run_inv) (simp add: one_loop_def no_task_def)
  then show "length (mt_alive (foldl task_step no_task calls)) = (if mt_running (foldl task_step no_task calls) then 1 else 0)"
    by (auto simp: one_loop_def split: if_splits)
next
  show "let s = stop_after_wait (task_start (fst (stop_before_wait (task_start no_task))))
    in mt_running s \<and> mt_handle s = None \<and> mt_alive (task_stop s) = [1] \<and> mt_alive (task_start (task_stop s)) = [1, 2]"
    by (simp add: Let_def task_start_def task_stop_def stop_before_wait_def stop_after_wait_def no_task_def)
qed

end
