(* ===== verification/A2A.thy ===== *)
theory A2A
  imports Messages
begin

text \<open>
  The A2A protocol: \<open>a2a/models.py\<close> (the data), \<open>a2a/task_lifecycle.py\<close> (tasks and their state
  machine), \<open>a2a/acp_bridge.py\<close> (translation to and from envelopes) and \<open>a2a/discovery.py\<close> (the
  agent-card endpoint). Generated identifiers and clock readings are arguments; the JSON encoder and
  the serializer of the card are parameters.
\<close>

section \<open>Models\<close>

datatype task_state = SUBMITTED | WORKING | INPUT_REQUIRED | COMPLETED | FAILED | CANCELED

fun task_state_value :: "task_state \<Rightarrow> string" where
  "task_state_value SUBMITTED = ''submitted''"
| "task_state_value WORKING = ''working''"
| "task_state_value INPUT_REQUIRED = ''input-required''"
| "task_state_value COMPLETED = ''completed''"
| "task_state_value FAILED = ''failed''"
| "task_state_value CANCELED = ''canceled''"

record agent_skill =
  skill_id :: string
  skill_name :: string
  skill_description :: string
  skill_tags :: "string list"
  skill_examples :: "string list"

record agent_capabilities =
  streaming :: bool
  push_notifications :: bool
  state_transition_history :: bool

record agent_card =
  card_name :: string
  card_description :: string
  card_url :: string
  card_version :: string
  card_capabilities :: agent_capabilities
  card_skills :: "agent_skill list"
  default_input_modes :: "string list"
  default_output_modes :: "string list"

record message_part =
  part_type :: string
  part_text :: string

record a2a_message =
  role :: string
  msg_parts :: "message_part list"
  msg_metadata :: "(string, json) dict"

record artifact =
  artifact_name :: string
  artifact_description :: string
  artifact_parts :: "message_part list"
  artifact_index :: int

record task_status =
  ts_state :: task_state
  ts_message :: "a2a_message option"
  ts_timestamp :: timestamp

record a2a_task =
  task_id :: string
  status :: task_status
  artifacts :: "artifact list"
  task_history :: "task_status list"
  task_metadata :: "(string, json) dict"

section \<open>The task manager\<close>

fun valid_transitions :: "task_state \<Rightarrow> task_state list" where
  "valid_transitions SUBMITTED = [WORKING, CANCELED]"
| "valid_transitions WORKING = [COMPLETED, FAILED, INPUT_REQUIRED, CANCELED]"
| "valid_transitions INPUT_REQUIRED = [WORKING, CANCELED]"
| "valid_transitions COMPLETED = []"
| "valid_transitions FAILED = []"
| "valid_transitions CANCELED = []"

definition terminal_states :: "task_state list" where
  "terminal_states = [COMPLETED, FAILED, CANCELED]"

record task_manager =
  tasks :: "(string, a2a_task) dict"
  track_history :: bool

definition TaskManager :: "bool \<Rightarrow> task_manager" where
  "TaskManager track = \<lparr>tasks = [], track_history = track\<rparr>"

definition tm_get_or_raise :: "string \<Rightarrow> task_manager \<Rightarrow> exn + a2a_task" where
  "tm_get_or_raise i m = need (TaskNotFoundError i) (dict_get (tasks m) i)"

definition create_task :: "string \<Rightarrow> timestamp \<Rightarrow> a2a_message \<Rightarrow> task_manager \<Rightarrow> task_manager \<times> a2a_task" where
  "create_task new_id now msg m =
     (let task = \<lparr>task_id = new_id, status = \<lparr>ts_state = SUBMITTED, ts_message = Some msg, ts_timestamp = now\<rparr>,
                  artifacts = [], task_history = [], task_metadata = []\<rparr>
      in (m\<lparr>tasks := dict_set new_id task (tasks m)\<rparr>, task))"

definition transition ::
    "string \<Rightarrow> task_state \<Rightarrow> a2a_message option \<Rightarrow> timestamp \<Rightarrow> task_manager \<Rightarrow> (task_manager, a2a_task) outcome" where
  "transition i new_state msg now m =
     (case tm_get_or_raise i m of
        Inl x \<Rightarrow> (m, Inl x)
      | Inr task \<Rightarrow>
          if new_state \<notin> set (valid_transitions (ts_state (status task)))
          then (m, Inl (InvalidTaskTransitionError i))
          else (let task1 = (if track_history m then task\<lparr>task_history := task_history task @ [status task]\<rparr> else task);
                    task2 = task1\<lparr>status := \<lparr>ts_state = new_state, ts_message = msg, ts_timestamp = now\<rparr>\<rparr>
                in (m\<lparr>tasks := dict_set i task2 (tasks m)\<rparr>, Inr task2)))"

definition add_artifact :: "string \<Rightarrow> artifact \<Rightarrow> task_manager \<Rightarrow> (task_manager, a2a_task) outcome" where
  "add_artifact i a m =
     (case tm_get_or_raise i m of
        Inl x \<Rightarrow> (m, Inl x)
      | Inr task \<Rightarrow>
          (let task1 = task\<lparr>artifacts := artifacts task @ [a]\<rparr>
           in (m\<lparr>tasks := dict_set i task1 (tasks m)\<rparr>, Inr task1)))"

definition cancel_task :: "string \<Rightarrow> timestamp \<Rightarrow> task_manager \<Rightarrow> (task_manager, a2a_task) outcome" where
  "cancel_task i now m = transition i CANCELED None now m"

definition list_tasks :: "task_manager \<Rightarrow> a2a_task list" where
  "list_tasks m = dict_values (tasks m)"

definition is_terminal :: "string \<Rightarrow> task_manager \<Rightarrow> exn + bool" where
  "is_terminal i m = and_then (tm_get_or_raise i m) (\<lambda>task. Inr (ts_state (status task) \<in> set terminal_states))"

section \<open>The bridge to envelopes\<close>

text \<open>\<open>message_to_part\<close>; the encoder may refuse a payload with \<open>TypeError\<close> or \<open>ValueError\<close>.\<close>

definition message_to_part :: "(json \<Rightarrow> exn + string) \<Rightarrow> (string, json) dict \<Rightarrow> exn + a2a_message" where
  "message_to_part dumps pl =
     (let wrap = (\<lambda>ty tx. \<lparr>role = ''user'', msg_parts = [\<lparr>part_type = ty, part_text = tx\<rparr>], msg_metadata = []\<rparr>)
      in case dict_get pl ''text'' of
           Some (JStr t) \<Rightarrow> Inr (wrap ''text'' t)
         | _ \<Rightarrow> (case dumps (JObj pl) of
                   Inr t \<Rightarrow> Inr (wrap ''data'' t)
                 | Inl (TypeError _) \<Rightarrow> Inl (ValueError ''ACPBridgeError'')
                 | Inl (ValueError _) \<Rightarrow> Inl (ValueError ''ACPBridgeError'')
                 | Inl x \<Rightarrow> Inl x))"

definition envelope_to_task :: "(json \<Rightarrow> exn + string) \<Rightarrow> string \<Rightarrow> timestamp \<Rightarrow> message_envelope \<Rightarrow> exn + a2a_task" where
  "envelope_to_task dumps new_id now e =
     and_then (message_to_part dumps (payload e)) (\<lambda>msg.
       Inr \<lparr>task_id = new_id, status = \<lparr>ts_state = SUBMITTED, ts_message = Some msg, ts_timestamp = now\<rparr>,
            artifacts = [], task_history = [],
            task_metadata = [(''acp_sender'', JStr (sender e)), (''acp_receiver'', JStr (receiver e)),
              (''acp_trace_id'', JStr (trace_id e)), (''acp_message_id'', JStr (message_id e))]\<rparr>)"

text \<open>The defaults of an envelope's constructor: the generated ids and the clock are arguments.\<close>

definition new_envelope ::
    "string \<Rightarrow> string \<Rightarrow> timestamp \<Rightarrow> string \<Rightarrow> string \<Rightarrow> (string, json) dict \<Rightarrow> (string, json) dict \<Rightarrow> message_envelope" where
  "new_envelope new_id new_trace now snd_id rcv pl md =
     \<lparr>sender = snd_id, receiver = rcv, payload = pl, message_type = TASK, priority = NORMAL, topic = JNull,
      trace_id = new_trace, parent_message_id = None, message_id = new_id, created_at = now, ttl_seconds = None,
      cost_budget_usd = None, env_metadata = md\<rparr>"

definition task_to_envelope ::
    "string \<Rightarrow> string \<Rightarrow> timestamp \<Rightarrow> a2a_task \<Rightarrow> string \<Rightarrow> string \<Rightarrow> exn + message_envelope" where
  "task_to_envelope new_id new_trace now task snd_id rcv =
     (if blank snd_id then Inl (ValueError ''sender'')
      else if blank rcv then Inl (ValueError ''receiver'')
      else
        let ids = [(''a2a_task_id'', JStr (task_id task)), (''a2a_state'', JStr (task_state_value (ts_state (status task))))];
            pl = (case (case ts_message (status task) of None \<Rightarrow> [] | Some msg \<Rightarrow> msg_parts msg) of
                    [] \<Rightarrow> ids
                  | p # ps \<Rightarrow>
                      ids @ (''text'', JStr (part_text p)) #
                        (if ps = [] then []
                         else [(''additional_parts'',
                                JList (map (\<lambda>q. JObj [(''type'', JStr (part_type q)), (''text'', JStr (part_text q))]) ps))]));
            trace = (case dict_get (task_metadata task) ''acp_trace_id'' of Some (JStr t) \<Rightarrow> t | _ \<Rightarrow> new_trace)
        in Inr (new_envelope new_id trace now snd_id rcv pl ids))"

fun join_lines :: "string list \<Rightarrow> string" where
  "join_lines [] = []"
| "join_lines [s] = s"
| "join_lines (s # ss) = s @ ''\<newline>'' @ join_lines ss"

definition artifact_to_envelope ::
    "string \<Rightarrow> string \<Rightarrow> timestamp \<Rightarrow> artifact \<Rightarrow> a2a_task \<Rightarrow> string \<Rightarrow> string \<Rightarrow> message_envelope" where
  "artifact_to_envelope new_id new_trace now a task snd_id rcv =
     (let text_parts = filter (\<lambda>t. t \<noteq> []) (map part_text (artifact_parts a)) in
      new_envelope new_id new_trace now snd_id rcv
        [(''a2a_task_id'', JStr (task_id task)), (''a2a_artifact_name'', JStr (artifact_name a)),
         (''a2a_artifact_index'', JInt (artifact_index a)), (''text'', JStr (join_lines text_parts))]
        [(''a2a_task_id'', JStr (task_id task)), (''a2a_artifact_name'', JStr (artifact_name a))])"

section \<open>The discovery endpoint\<close>

record discovery_endpoint =
  ep_card :: agent_card
  cached_json :: "string option"

definition DiscoveryEndpoint :: "agent_card \<Rightarrow> discovery_endpoint" where
  "DiscoveryEndpoint c = \<lparr>ep_card = c, cached_json = None\<rparr>"

definition get_or_build_json :: "(agent_card \<Rightarrow> string) \<Rightarrow> discovery_endpoint \<Rightarrow> discovery_endpoint \<times> string" where
  "get_or_build_json dump d =
     (case cached_json d of
        Some j \<Rightarrow> (d, j)
      | None \<Rightarrow> (let j = dump (ep_card d) in (d\<lparr>cached_json := Some j\<rparr>, j)))"

definition handle_request ::
    "(agent_card \<Rightarrow> string) \<Rightarrow> string \<Rightarrow> discovery_endpoint
     \<Rightarrow> discovery_endpoint \<times> int \<times> (string, string) dict \<times> string" where
  "handle_request dump path d =
     (let normalized_path = takeWhile (\<lambda>c. c \<noteq> CHR ''?'') path in
      if normalized_path = ''/.well-known/agent.json''
      then (let (d', body) = get_or_build_json dump d in (d', 200, [(''Content-Type'', ''application/json'')], body))
      else (d, 404, [], []))"

definition invalidate_cache :: "discovery_endpoint \<Rightarrow> discovery_endpoint" where
  "invalidate_cache d = d\<lparr>cached_json := None\<rparr>"

section \<open>The life cycle as a relation\<close>

inductive task_step :: "task_state \<Rightarrow> task_state \<Rightarrow> bool" where
  begin_work: "task_step SUBMITTED WORKING"
| withdraw: "task_step SUBMITTED CANCELED"
| complete: "task_step WORKING COMPLETED"
| fail: "task_step WORKING FAILED"
| ask: "task_step WORKING INPUT_REQUIRED"
| abort: "task_step WORKING CANCELED"
| answer: "task_step INPUT_REQUIRED WORKING"
| give_up: "task_step INPUT_REQUIRED CANCELED"

inductive_cases task_stepE: "task_step s t"
inductive_simps task_step_completed [simp]: "task_step COMPLETED t"
inductive_simps task_step_failed [simp]: "task_step FAILED t"
inductive_simps task_step_canceled [simp]: "task_step CANCELED t"

lemma valid_transitions_step: "t \<in> set (valid_transitions s) \<longleftrightarrow> task_step s t"
proof
  show "t \<in> set (valid_transitions s) \<Longrightarrow> task_step s t"
    by (cases s) (auto intro: task_step.intros)
  show "task_step s t \<Longrightarrow> t \<in> set (valid_transitions s)" by (auto elim: task_stepE)
qed

lemma terminal_no_step: "s \<in> set terminal_states \<longleftrightarrow> (\<forall>t. \<not> task_step s t)"
proof (cases s)
  case SUBMITTED
  then show ?thesis using task_step.begin_work by (auto simp: terminal_states_def)
next
  case WORKING
  then show ?thesis using task_step.complete by (auto simp: terminal_states_def)
next
  case INPUT_REQUIRED
  then show ?thesis using task_step.answer by (auto simp: terminal_states_def)
qed (simp_all add: terminal_states_def)

lemma cancel_step: "task_step s CANCELED \<longleftrightarrow> s \<notin> set terminal_states"
  by (cases s) (auto simp: terminal_states_def intro: task_step.intros elim: task_stepE)

datatype task_event =
    CreateTask string timestamp a2a_message
  | Transition string task_state "a2a_message option" timestamp
  | AddArtifact string artifact
  | CancelTask string timestamp

fun task_event_step :: "task_manager \<Rightarrow> task_event \<Rightarrow> task_manager" where
  "task_event_step m (CreateTask i now msg) = fst (create_task i now msg m)"
| "task_event_step m (Transition i s msg now) = fst (transition i s msg now m)"
| "task_event_step m (AddArtifact i a) = fst (add_artifact i a m)"
| "task_event_step m (CancelTask i now) = fst (cancel_task i now m)"

definition task_path :: "a2a_task \<Rightarrow> task_state list" where
  "task_path t = map ts_state (task_history t @ [status t])"

text \<open>Every task is stored under its id; with the history kept, its states are a path of the relation.\<close>

definition task_ok :: "bool \<Rightarrow> string \<Rightarrow> a2a_task \<Rightarrow> bool" where
  "task_ok track i t \<longleftrightarrow> task_id t = i \<and>
     (track \<longrightarrow> hd (task_path t) = SUBMITTED \<and> successively task_step (task_path t))"

definition manager_ok :: "task_manager \<Rightarrow> bool" where
  "manager_ok m \<longleftrightarrow> (\<forall>i t. dict_get (tasks m) i = Some t \<longrightarrow> task_ok (track_history m) i t)"

text \<open>What a step does to the task with a given id.\<close>

lemma transition_get:
  "dict_get (tasks (fst (transition i s msg now m))) k =
    (case dict_get (tasks m) k of
       None \<Rightarrow> None
     | Some t \<Rightarrow> Some (if k = i \<and> task_step (ts_state (status t)) s
         then t\<lparr>task_history := task_history t @ (if track_history m then [status t] else []),
                status := \<lparr>ts_state = s, ts_message = msg, ts_timestamp = now\<rparr>\<rparr>
         else t))"
  by (cases "dict_get (tasks m) i")
    (auto simp: transition_def tm_get_or_raise_def Let_def valid_transitions_step split: option.split)

lemma transition_result:
  "snd (transition i s msg now m) = (case dict_get (tasks m) i of
      None \<Rightarrow> Inl (TaskNotFoundError i)
    | Some t \<Rightarrow> if task_step (ts_state (status t)) s then Inr (the (dict_get (tasks (fst (transition i s msg now m))) i))
        else Inl (InvalidTaskTransitionError i))"
  by (cases "dict_get (tasks m) i")
    (auto simp: transition_def tm_get_or_raise_def Let_def valid_transitions_step split: option.split)

lemma add_artifact_get:
  "dict_get (tasks (fst (add_artifact i a m))) k =
    map_option (\<lambda>t. if k = i then t\<lparr>artifacts := artifacts t @ [a]\<rparr> else t) (dict_get (tasks m) k)"
  by (cases "dict_get (tasks m) i"; cases "dict_get (tasks m) k")
    (auto simp: add_artifact_def tm_get_or_raise_def Let_def)

lemma task_event_step_track [simp]: "track_history (task_event_step m e) = track_history m"
proof -
  have "track_history (fst (transition i s msg now m)) = track_history m" for i s msg now
    by (cases "dict_get (tasks m) i") (auto simp: transition_def tm_get_or_raise_def Let_def)
  moreover have "track_history (fst (add_artifact i a m)) = track_history m" for i a
    by (cases "dict_get (tasks m) i") (auto simp: add_artifact_def tm_get_or_raise_def Let_def option.map_ident split: option.split)
  ultimately show ?thesis by (cases e) (simp_all add: create_task_def cancel_task_def Let_def)
qed

lemma task_ok_transition:
  assumes "task_ok track i t" "task_step (ts_state (status t)) s"
  shows "task_ok track i (t\<lparr>task_history := task_history t @ (if track then [status t] else []),
    status := \<lparr>ts_state = s, ts_message = msg, ts_timestamp = now\<rparr>\<rparr>)"
proof (cases track)
  case True
  have "task_path (t\<lparr>task_history := task_history t @ [status t],
      status := \<lparr>ts_state = s, ts_message = msg, ts_timestamp = now\<rparr>\<rparr>) = task_path t @ [s]"
    by (simp add: task_path_def)
  moreover have "task_path t \<noteq> []" "last (task_path t) = ts_state (status t)" by (simp_all add: task_path_def)
  ultimately show ?thesis using assms True by (simp add: task_ok_def successively_append_iff)
qed (use assms in \<open>simp add: task_ok_def\<close>)

lemma transition_ok:
  assumes "manager_ok m" "dict_get (tasks (fst (transition j s msg now m))) i = Some t"
  shows "task_ok (track_history m) i t"
proof -
  obtain u where u: "dict_get (tasks m) i = Some u"
    using assms(2) by (cases "dict_get (tasks m) i") (simp_all add: transition_get)
  then have ok: "task_ok (track_history m) i u" using assms(1) by (simp add: manager_ok_def)
  show ?thesis
  proof (cases "i = j \<and> task_step (ts_state (status u)) s")
    case True
    then have "t = u\<lparr>task_history := task_history u @ (if track_history m then [status u] else []),
        status := \<lparr>ts_state = s, ts_message = msg, ts_timestamp = now\<rparr>\<rparr>"
      using assms(2) u by (simp add: transition_get)
    with task_ok_transition [OF ok] True show ?thesis by simp
  next
    case False
    with assms(2) u ok show ?thesis by (simp add: transition_get split: if_splits)
  qed
qed

interpretation task_machine: inv_system task_event_step manager_ok
proof
  fix m e assume inv: "manager_ok m"
  show "manager_ok (task_event_step m e)"
    unfolding manager_ok_def task_event_step_track
  proof (intro allI impI)
    fix i t assume t: "dict_get (tasks (task_event_step m e)) i = Some t"
    show "task_ok (track_history m) i t"
    proof (cases e)
      case (CreateTask j now msg)
      with t inv show ?thesis
        by (auto simp: create_task_def Let_def manager_ok_def task_ok_def task_path_def split: if_splits)
    next
      case (Transition j s msg now)
      with t inv show ?thesis using transition_ok by simp
    next
      case (AddArtifact j a)
      with t inv show ?thesis
        by (auto simp: add_artifact_get manager_ok_def task_ok_def task_path_def split: if_splits)
    next
      case (CancelTask j now)
      with t inv show ?thesis using transition_ok by (simp add: cancel_task_def)
    qed
  qed
qed

lemma terminal_step_keeps:
  assumes "dict_get (tasks m) i = Some t" "ts_state (status t) \<in> set terminal_states"
    and "\<And>now msg. e \<noteq> CreateTask i now msg"
  shows "\<exists>t'. dict_get (tasks (task_event_step m e)) i = Some t' \<and> status t' = status t \<and>
    task_history t' = task_history t"
  using assms terminal_no_step [of "ts_state (status t)"]
  by (cases e) (auto simp: create_task_def Let_def transition_get add_artifact_get cancel_task_def)

section \<open>Properties\<close>

text \<open>
  C18: Tasks follow the A2A state machine: after any sequence of calls, the recorded history of every
  task followed by its current state is a path of permitted transitions that starts in the submitted
  state, and every task is found under its own id.
\<close>

theorem task_history_valid:
  assumes "m = foldl task_event_step (TaskManager True) es" "tm_get_or_raise i m = Inr t"
  shows "task_id t = i \<and> hd (task_path t) = SUBMITTED \<and> successively task_step (task_path t) \<and>
    (\<forall>s \<in> set (task_history t). ts_state s \<notin> set terminal_states)"
proof -
  have "manager_ok (TaskManager True)" by (simp add: manager_ok_def TaskManager_def)
  then have ok: "manager_ok m" unfolding assms(1) by (rule task_machine.run_inv)
  have "track_history (foldl task_event_step m0 es) = track_history m0" for m0
    by (induction es arbitrary: m0) simp_all
  then have "track_history m" unfolding assms(1) by (simp add: TaskManager_def)
  moreover have "dict_get (tasks m) i = Some t"
    using assms(2) by (cases "dict_get (tasks m) i") (simp_all add: tm_get_or_raise_def)
  ultimately have path: "task_id t = i" "hd (task_path t) = SUBMITTED" "successively task_step (task_path t)"
    using ok unfolding manager_ok_def task_ok_def by simp_all
  have "ts_state s \<notin> set terminal_states" if s: "s \<in> set (task_history t)" for s
  proof -
    obtain ys zs where h: "task_history t = ys @ s # zs" using s by (meson split_list)
    obtain z ws where zs: "zs @ [status t] = z # ws" by (cases "zs @ [status t]") simp_all
    have "task_path t = map ts_state ys @ ts_state s # map ts_state (zs @ [status t])"
      by (simp add: task_path_def h)
    then have "task_step (ts_state s) (ts_state z)"
      using path(3) unfolding zs by (simp add: successively_append_iff)
    then show ?thesis using terminal_no_step by blast
  qed
  with path show ?thesis by blast
qed

definition example_a2a_message :: a2a_message where
  "example_a2a_message = \<lparr>role = ''user'', msg_parts = [\<lparr>part_type = ''text'', part_text = ''hi''\<rparr>], msg_metadata = []\<rparr>"

theorem task_history_valid_witness:
  "\<exists>t. tm_get_or_raise ''t1'' (foldl task_event_step (TaskManager True)
       [CreateTask ''t1'' 0 example_a2a_message, Transition ''t1'' WORKING None 1, Transition ''t1'' COMPLETED None 2,
        CancelTask ''t1'' 3]) = Inr t \<and> successively task_step (task_path t) \<and> ts_state (status t) = COMPLETED"
proof -
  let ?es = "[CreateTask ''t1'' 0 example_a2a_message, Transition ''t1'' WORKING None 1,
    Transition ''t1'' COMPLETED None 2, CancelTask ''t1'' 3]"
  have "\<exists>t. tm_get_or_raise ''t1'' (foldl task_event_step (TaskManager True) ?es) = Inr t \<and> ts_state (status t) = COMPLETED"
    by (simp add: TaskManager_def create_task_def transition_def cancel_task_def tm_get_or_raise_def Let_def)
  then show ?thesis using task_history_valid [OF refl] by blast
qed

text \<open>
  Terminal states are final and cancelling is always possible before: a call of \<open>transition\<close>
  succeeds exactly when the task exists and the step is permitted, and changes no other task; a
  task in a terminal state keeps its status and history through any later calls (unless its id is
  reused); and \<open>cancel_task\<close> succeeds exactly on tasks that are not terminal.
\<close>

theorem terminal_tasks_final:
  assumes "dict_get (tasks m) i = Some t"
  shows "(\<exists>t'. snd (transition i s msg now m) = Inr t' \<and> ts_state (status t') = s) = task_step (ts_state (status t)) s \<and>
    (k \<noteq> i \<longrightarrow> dict_get (tasks (fst (transition i s msg now m))) k = dict_get (tasks m) k) \<and>
    (\<not> task_step (ts_state (status t)) s \<longrightarrow>
      snd (transition i s msg now m) = Inl (InvalidTaskTransitionError i) \<and>
      dict_get (tasks (fst (transition i s msg now m))) = dict_get (tasks m)) \<and>
    is_terminal i m = Inr (\<forall>s. \<not> task_step (ts_state (status t)) s) \<and>
    (is_terminal i m = Inr False \<longleftrightarrow> (\<exists>t'. snd (cancel_task i now m) = Inr t')) \<and>
    (is_terminal i m = Inr True \<and> (\<forall>now msg. CreateTask i now msg \<notin> set es) \<longrightarrow>
      (\<exists>t'. dict_get (tasks (foldl task_event_step m es)) i = Some t' \<and> status t' = status t \<and>
        task_history t' = task_history t))"
proof -
  have final: "is_terminal i m = Inr (ts_state (status t) \<in> set terminal_states)"
    using assms by (simp add: is_terminal_def tm_get_or_raise_def)
  have keep: "\<exists>t'. dict_get (tasks (foldl task_event_step m es)) i = Some t' \<and> status t' = status t \<and>
      task_history t' = task_history t"
    if "ts_state (status t) \<in> set terminal_states" "\<forall>now msg. CreateTask i now msg \<notin> set es"
    using that assms
  proof (induction es rule: rev_induct)
    case (snoc e es)
    then obtain t' where t': "dict_get (tasks (foldl task_event_step m es)) i = Some t'" "status t' = status t"
      "task_history t' = task_history t" by auto
    have "e \<noteq> CreateTask i now msg" for now msg using snoc.prems(2) by auto
    with terminal_step_keeps [OF t'(1)] t' snoc.prems(1) show ?case by fastforce
  qed simp
  have "is_terminal i m = Inr (\<forall>s. \<not> task_step (ts_state (status t)) s)" using final terminal_no_step by simp
  moreover have "is_terminal i m = Inr False \<longleftrightarrow> (\<exists>t'. snd (cancel_task i now m) = Inr t')"
    using final assms cancel_step [of "ts_state (status t)"] by (simp add: cancel_task_def transition_result)
  moreover have "k \<noteq> i \<longrightarrow> dict_get (tasks (fst (transition i s msg now m))) k = dict_get (tasks m) k"
    by (simp add: transition_get split: option.split)
  moreover have "(\<exists>t'. snd (transition i s msg now m) = Inr t' \<and> ts_state (status t') = s) =
      task_step (ts_state (status t)) s"
    using assms by (simp add: transition_result transition_get)
  moreover have "\<not> task_step (ts_state (status t)) s \<longrightarrow>
      snd (transition i s msg now m) = Inl (InvalidTaskTransitionError i) \<and>
      dict_get (tasks (fst (transition i s msg now m))) = dict_get (tasks m)"
    using assms by (auto simp: transition_result transition_get fun_eq_iff split: option.split)
  ultimately show ?thesis using keep final by auto
qed

theorem terminal_tasks_final_witness:
  "snd (transition ''t1'' WORKING None 5 \<lparr>tasks = [(''t1'', \<lparr>task_id = ''t1'', status = \<lparr>ts_state = FAILED,
     ts_message = None, ts_timestamp = 1\<rparr>, artifacts = [], task_history = [], task_metadata = []\<rparr>)],
     track_history = False\<rparr>) = Inl (InvalidTaskTransitionError ''t1'')"
proof -
  let ?t = "\<lparr>task_id = ''t1'', status = \<lparr>ts_state = FAILED, ts_message = None, ts_timestamp = 1\<rparr>, artifacts = [],
    task_history = [], task_metadata = []\<rparr>"
  have "dict_get (tasks \<lparr>tasks = [(''t1'', ?t)], track_history = False\<rparr>) ''t1'' = Some ?t" by simp
  from terminal_tasks_final [OF this, of WORKING None 5] show ?thesis by simp
qed

text \<open>
  The bridge carries a message through A2A and back. The task made from an envelope starts
  submitted, and the envelope made from that task is valid, keeps the trace, names task and state, and
  carries the content: the text of a text payload, or for any other payload the JSON text from which
  the decoder restores it. A blank sender or receiver is refused, as is a payload the encoder rejects.
\<close>

theorem acp_bridge_roundtrip:
  assumes "envelope_to_task dumps i now e = Inr task" "\<not> blank s" "\<not> blank r"
    and codec: "\<And>v t. dumps v = Inr t \<Longrightarrow> loads t = Inr v"
  shows "ts_state (status task) = SUBMITTED \<and>
    (\<exists>e'. task_to_envelope n tr now' task s r = Inr e' \<and> validate e' = Inr () \<and> sender e' = s \<and> receiver e' = r \<and>
      trace_id e' = trace_id e \<and> dict_get (payload e') ''a2a_task_id'' = Some (JStr i) \<and>
      dict_get (payload e') ''a2a_state'' = Some (JStr ''submitted'') \<and>
      (\<exists>t. dict_get (payload e') ''text'' = Some (JStr t) \<and>
        (dict_get (payload e) ''text'' = Some (JStr t) \<or> loads t = Inr (JObj (payload e))))) \<and>
    (blank x \<longrightarrow> task_to_envelope n tr now' task x r = Inl (ValueError ''sender'') \<and>
      task_to_envelope n tr now' task s x = Inl (ValueError ''receiver''))"
proof -
  obtain msg where msg: "message_to_part dumps (payload e) = Inr msg"
    using assms(1) by (cases "message_to_part dumps (payload e)") (simp_all add: envelope_to_task_def)
  have task: "task = \<lparr>task_id = i, status = \<lparr>ts_state = SUBMITTED, ts_message = Some msg, ts_timestamp = now\<rparr>,
      artifacts = [], task_history = [],
      task_metadata = [(''acp_sender'', JStr (sender e)), (''acp_receiver'', JStr (receiver e)),
        (''acp_trace_id'', JStr (trace_id e)), (''acp_message_id'', JStr (message_id e))]\<rparr>"
    using assms(1) by (simp add: envelope_to_task_def msg)
  have "\<exists>ty t. msg_parts msg = [\<lparr>part_type = ty, part_text = t\<rparr>] \<and>
      (dict_get (payload e) ''text'' = Some (JStr t) \<or> dumps (JObj (payload e)) = Inr t)"
    using msg by (auto simp: message_to_part_def Let_def split: option.splits json.splits sum.splits exn.splits)
  then obtain ty t where t: "msg_parts msg = [\<lparr>part_type = ty, part_text = t\<rparr>]"
    "dict_get (payload e) ''text'' = Some (JStr t) \<or> dumps (JObj (payload e)) = Inr t" by blast
  have "task_to_envelope n tr now' task s r = Inr (new_envelope n (trace_id e) now' s r
      [(''a2a_task_id'', JStr i), (''a2a_state'', JStr ''submitted''), (''text'', JStr t)]
      [(''a2a_task_id'', JStr i), (''a2a_state'', JStr ''submitted'')])"
    using assms(2,3) by (simp add: task_to_envelope_def task t Let_def)
  moreover have "blank x \<longrightarrow> task_to_envelope n tr now' task x r = Inl (ValueError ''sender'') \<and>
      task_to_envelope n tr now' task s x = Inl (ValueError ''receiver'')"
    using assms(2) by (simp add: task_to_envelope_def)
  ultimately show ?thesis
    using t(2) codec assms(2,3) by (auto simp: task new_envelope_def validate_def)
qed

theorem acp_bridge_roundtrip_witness:
  "\<exists>e'. task_to_envelope ''n'' ''z'' 2 \<lparr>task_id = ''t1'', status = \<lparr>ts_state = SUBMITTED,
       ts_message = Some example_a2a_message, ts_timestamp = 1\<rparr>, artifacts = [], task_history = [],
       task_metadata = [(''acp_sender'', JStr ''a''), (''acp_receiver'', JStr ''b''), (''acp_trace_id'', JStr ''x''),
         (''acp_message_id'', JStr ''m'')]\<rparr> ''b'' ''a'' = Inr e' \<and> trace_id e' = ''x''"
proof -
  let ?e = "new_envelope ''m'' ''x'' 0 ''a'' ''b'' [(''text'', JStr ''hi'')] []"
  let ?t = "\<lparr>task_id = ''t1'', status = \<lparr>ts_state = SUBMITTED,
       ts_message = Some example_a2a_message, ts_timestamp = 1\<rparr>, artifacts = [], task_history = [],
       task_metadata = [(''acp_sender'', JStr ''a''), (''acp_receiver'', JStr ''b''), (''acp_trace_id'', JStr ''x''),
         (''acp_message_id'', JStr ''m'')]\<rparr>"
  let ?dumps = "\<lambda>v. if v = JNull then Inr ''null'' else Inl (TypeError ''json'')"
  have "envelope_to_task ?dumps ''t1'' 1 ?e = Inr ?t"
    by (simp add: envelope_to_task_def message_to_part_def new_envelope_def example_a2a_message_def)
  moreover have "\<not> blank ''a''" "\<not> blank ''b''" by (simp_all add: blank_def py_isspace_def)
  moreover have "\<And>v t. ?dumps v = Inr t \<Longrightarrow> (\<lambda>_. Inr JNull) t = (Inr v :: exn + json)" by (simp split: if_splits)
  ultimately obtain e' where "task_to_envelope ''n'' ''z'' 2 ?t ''b'' ''a'' = Inr e'" "trace_id e' = trace_id ?e"
    using acp_bridge_roundtrip [of ?dumps "''t1''" 1 ?e ?t "''b''" "''a''" "\<lambda>_. Inr JNull" "''n''" "''z''" 2] by blast
  then show ?thesis by (simp add: new_envelope_def)
qed

text \<open>The endpoint answers exactly the well-known path, with or without a query, and its cache never
  changes the answer.\<close>

lemma discovery_answers:
  assumes "cached_json d \<in> {None, Some (dump (ep_card d))}"
  shows "handle_request dump path d =
    (if takeWhile (\<lambda>c. c \<noteq> CHR ''?'') path = ''/.well-known/agent.json''
     then (d\<lparr>cached_json := Some (dump (ep_card d))\<rparr>, 200, [(''Content-Type'', ''application/json'')], dump (ep_card d))
     else (d, 404, [], []))"
  using assms by (auto simp: handle_request_def get_or_build_json_def Let_def)

end
