(* ===== verification/Agent_Card.thy ===== *)
theory Agent_Card
  imports A2A
begin

text \<open>
  \<open>a2a/agent_card.py\<close>: agent cards from configurations. The models are built by the data-model library,
  whose check that a list holds strings only is a parameter, as is what reading a YAML file gives.
\<close>

section \<open>Parsing a configuration\<close>

fun nonempty_str :: "(string, json) dict \<Rightarrow> string \<Rightarrow> exn + string" where
  "nonempty_str config key =
     (case dict_get config key of
        None \<Rightarrow> Inl (AgentCardError ''missing required key'')
      | Some (JStr s) \<Rightarrow> if s = [] then Inl (AgentCardError ''must be a non-empty string'') else Inr s
      | Some _ \<Rightarrow> Inl (AgentCardError ''must be a non-empty string''))"

definition parse_capabilities :: "json \<Rightarrow> agent_capabilities" where
  "parse_capabilities raw =
     (case raw of
        JObj d \<Rightarrow> \<lparr>streaming = truthy (dict_get_or d ''streaming'' (JBool False)),
                   push_notifications = truthy (dict_get_or d ''push_notifications'' (JBool False)),
                   state_transition_history = truthy (dict_get_or d ''state_transition_history'' (JBool False))\<rparr>
      | _ \<Rightarrow> \<lparr>streaming = False, push_notifications = False, state_transition_history = False\<rparr>)"

fun list_or :: "json list \<Rightarrow> json \<Rightarrow> json list" where
  "list_or deflt (JList vs) = vs"
| "list_or deflt _ = deflt"

definition skill_required_keys :: "string list" where
  "skill_required_keys = [''id'', ''name'', ''description'']"

definition parse_skill :: "builtins \<Rightarrow> (json list \<Rightarrow> exn + string list) \<Rightarrow> json \<Rightarrow> exn + agent_skill" where
  "parse_skill B strs raw =
     (case raw of
        JObj d \<Rightarrow>
          if list_ex (\<lambda>k. \<not> dict_has d k) skill_required_keys then Inl (AgentCardError ''missing required keys'')
          else and_then (strs (list_or [] (dict_get_or d ''tags'' (JList [])))) (\<lambda>tags.
               and_then (strs (list_or [] (dict_get_or d ''examples'' (JList [])))) (\<lambda>examples.
               Inr \<lparr>skill_id = py_str B (dict_get_or d ''id'' JNull), skill_name = py_str B (dict_get_or d ''name'' JNull),
                    skill_description = py_str B (dict_get_or d ''description'' JNull), skill_tags = tags,
                    skill_examples = examples\<rparr>))
      | _ \<Rightarrow> Inl (AgentCardError ''must be a mapping''))"

fun parse_skills :: "builtins \<Rightarrow> (json list \<Rightarrow> exn + string list) \<Rightarrow> json \<Rightarrow> exn + agent_skill list" where
  "parse_skills B strs (JList vs) = traverse (parse_skill B strs) vs"
| "parse_skills B strs _ = Inr []"

definition from_config :: "builtins \<Rightarrow> (json list \<Rightarrow> exn + string list) \<Rightarrow> (string, json) dict \<Rightarrow> exn + agent_card" where
  "from_config B strs config =
     and_then (nonempty_str config ''name'') (\<lambda>name.
     and_then (nonempty_str config ''description'') (\<lambda>description.
     and_then (nonempty_str config ''url'') (\<lambda>url.
     let capabilities = parse_capabilities (dict_get_or config ''capabilities'' JNull) in
     and_then (parse_skills B strs (dict_get_or config ''skills'' (JList []))) (\<lambda>skills.
     let text_plain = [JStr ''text/plain''];
         input_modes = list_or text_plain (dict_get_or config ''default_input_modes'' (JList text_plain));
         output_modes = list_or text_plain (dict_get_or config ''default_output_modes'' (JList text_plain));
         version = py_str B (dict_get_or config ''version'' (JStr ''0.3'')) in
     and_then (strs input_modes) (\<lambda>ins.
     and_then (strs output_modes) (\<lambda>outs.
     Inr \<lparr>card_name = name, card_description = description, card_url = url, card_version = version,
          card_capabilities = capabilities, card_skills = skills, default_input_modes = ins,
          default_output_modes = outs\<rparr>))))))"

text \<open>
  \<open>from_yaml\<close>: whether the YAML library is installed, and what opening the file and loading it gives.
\<close>

fun load_error :: "exn \<Rightarrow> bool" where
  "load_error (OSError _) = True"
| "load_error (FileNotFoundError _) = True"
| "load_error (YAMLError _) = True"
| "load_error _ = False"

definition card_from_yaml ::
    "builtins \<Rightarrow> (json list \<Rightarrow> exn + string list) \<Rightarrow> bool \<Rightarrow> (string \<Rightarrow> exn + json) \<Rightarrow> string \<Rightarrow> exn + agent_card" where
  "card_from_yaml B strs available safe_load path =
     (if \<not> available then Inl (AgentCardError ''PyYAML is required'')
      else case safe_load path of
        Inl x \<Rightarrow> Inl (if load_error x then AgentCardError ''YAML file'' else x)
      | Inr (JObj d) \<Rightarrow> from_config B strs d
      | Inr _ \<Rightarrow> Inl (AgentCardError ''must be a mapping''))"

section \<open>Property\<close>

text \<open>The configuration that describes a card.\<close>

definition skill_config :: "agent_skill \<Rightarrow> json" where
  "skill_config s = JObj [(''id'', JStr (skill_id s)), (''name'', JStr (skill_name s)),
     (''description'', JStr (skill_description s)), (''tags'', JList (map JStr (skill_tags s))),
     (''examples'', JList (map JStr (skill_examples s)))]"

definition card_config :: "agent_card \<Rightarrow> (string, json) dict" where
  "card_config c = [(''name'', JStr (card_name c)), (''description'', JStr (card_description c)), (''url'', JStr (card_url c)),
     (''version'', JStr (card_version c)),
     (''capabilities'', JObj [(''streaming'', JBool (streaming (card_capabilities c))),
        (''push_notifications'', JBool (push_notifications (card_capabilities c))),
        (''state_transition_history'', JBool (state_transition_history (card_capabilities c)))]),
     (''skills'', JList (map skill_config (card_skills c))),
     (''default_input_modes'', JList (map JStr (default_input_modes c))),
     (''default_output_modes'', JList (map JStr (default_output_modes c)))]"

lemma traverse_map: "(\<And>x. f (g x) = Inr x) \<Longrightarrow> traverse f (map g xs) = Inr xs"
  by (induction xs) simp_all

lemma parse_skill_config:
  assumes "\<And>xs. strs (map JStr xs) = Inr xs"
  shows "parse_skill B strs (skill_config s) = Inr s"
  by (simp add: parse_skill_def skill_config_def skill_required_keys_def dict_has_def dict_get_or_def assms)

text \<open>
  Every agent card can be configured: for a card with non-empty name, description and url, reading
  the configuration that spells out its fields gives back the card, with all its skills in order,
  whatever else the model library refuses; and every card that is built has non-empty name,
  description and url, taken from the configuration.
\<close>

theorem card_config_roundtrip:
  assumes strs: "\<And>xs. strs (map JStr xs) = Inr xs"
    and "card_name c \<noteq> []" "card_description c \<noteq> []" "card_url c \<noteq> []"
  shows "from_config B strs (card_config c) = Inr c \<and>
    (\<forall>config c'. from_config B strs config = Inr c' \<longrightarrow>
       card_name c' \<noteq> [] \<and> dict_get config ''name'' = Some (JStr (card_name c')) \<and>
       card_description c' \<noteq> [] \<and> dict_get config ''description'' = Some (JStr (card_description c')) \<and>
       card_url c' \<noteq> [] \<and> dict_get config ''url'' = Some (JStr (card_url c')))"
proof -
  have nonempty: "s \<noteq> [] \<and> dict_get config k = Some (JStr s)" if "nonempty_str config k = Inr s" for config k s
    using that by (auto split: option.splits json.splits if_splits)
  have "traverse (parse_skill B strs) (map skill_config (card_skills c)) = Inr (card_skills c)"
    by (rule traverse_map) (rule parse_skill_config [OF strs])
  then have "from_config B strs (card_config c) = Inr c"
    using assms by (simp add: from_config_def card_config_def dict_get_or_def parse_capabilities_def Let_def)
  moreover have "card_name c' \<noteq> [] \<and> dict_get config ''name'' = Some (JStr (card_name c')) \<and>
       card_description c' \<noteq> [] \<and> dict_get config ''description'' = Some (JStr (card_description c')) \<and>
       card_url c' \<noteq> [] \<and> dict_get config ''url'' = Some (JStr (card_url c'))"
    if built: "from_config B strs config = Inr c'" for config c'
  proof -
    obtain n d u where f: "nonempty_str config ''name'' = Inr n" "nonempty_str config ''description'' = Inr d"
      "nonempty_str config ''url'' = Inr u" "card_name c' = n" "card_description c' = d" "card_url c' = u"
      using built by (auto simp: from_config_def and_then_Inr Let_def simp del: nonempty_str.simps)
    then show ?thesis using nonempty [OF f(1)] nonempty [OF f(2)] nonempty [OF f(3)] by simp
  qed
  ultimately show ?thesis by blast
qed

definition only_strings :: "json list \<Rightarrow> exn + string list" where
  "only_strings vs = traverse (\<lambda>v. case v of JStr s \<Rightarrow> Inr s | _ \<Rightarrow> Inl (ValueError ''Input should be a valid string'')) vs"

theorem card_config_roundtrip_witness:
  "from_config \<lparr>repr_of = (\<lambda>_. []), float_of_str = (\<lambda>_. None), int_of_str = (\<lambda>_. None), dict_of_iter = (\<lambda>_. Inr [])\<rparr>
     only_strings
     (card_config \<lparr>card_name = ''n'', card_description = ''d'', card_url = ''u'', card_version = ''0.3'',
        card_capabilities = \<lparr>streaming = True, push_notifications = False, state_transition_history = False\<rparr>,
        card_skills = [], default_input_modes = [''text/plain''], default_output_modes = []\<rparr>) =
   Inr \<lparr>card_name = ''n'', card_description = ''d'', card_url = ''u'', card_version = ''0.3'',
        card_capabilities = \<lparr>streaming = True, push_notifications = False, state_transition_history = False\<rparr>,
        card_skills = [], default_input_modes = [''text/plain''], default_output_modes = []\<rparr>"
proof -
  have strs: "only_strings (map JStr xs) = Inr xs" for xs
    unfolding only_strings_def by (rule traverse_map) simp
  show ?thesis by (rule card_config_roundtrip [OF strs, THEN conjunct1]) simp_all
qed

end
