(* ===== verification/Plugin_Registry.thy ===== *)
theory Plugin_Registry
  imports Mesh_Prelude
begin

text \<open>
  \<open>plugins/registry.py\<close>: the registry of plugin classes and the loading of entry points. Classes are
  values of any type; the test that one is a subclass of the registry's base class is a field of the
  registry. What the metadata of the installed packages lists, and what importing an entry point
  gives, are arguments.
\<close>

section \<open>The registry\<close>

record 'c plugin_registry =
  is_plugin_class :: "'c \<Rightarrow> bool"
  registry_name :: string
  plugins :: "(string, 'c) dict"

definition PluginRegistry :: "('c \<Rightarrow> bool) \<Rightarrow> string \<Rightarrow> 'c plugin_registry" where
  "PluginRegistry base name = \<lparr>is_plugin_class = base, registry_name = name, plugins = []\<rparr>"

definition register_class :: "string \<Rightarrow> 'c \<Rightarrow> 'c plugin_registry \<Rightarrow> ('c plugin_registry, unit) outcome" where
  "register_class name cls r =
     (if dict_has (plugins r) name then (r, Inl (PluginAlreadyRegisteredError name))
      else if \<not> is_plugin_class r cls then (r, Inl (TypeError ''must be a subclass''))
      else (r\<lparr>plugins := dict_set name cls (plugins r)\<rparr>, Inr ()))"

text \<open>The decorator: its checks run when it is applied to the class, which it returns.\<close>

definition plugin_register :: "string \<Rightarrow> 'c \<Rightarrow> 'c plugin_registry \<Rightarrow> ('c plugin_registry, 'c) outcome" where
  "plugin_register name cls r =
     (if dict_has (plugins r) name then (r, Inl (PluginAlreadyRegisteredError name))
      else if \<not> is_plugin_class r cls then (r, Inl (TypeError ''must be a subclass''))
      else (r\<lparr>plugins := dict_set name cls (plugins r)\<rparr>, Inr cls))"

definition plugin_deregister :: "string \<Rightarrow> 'c plugin_registry \<Rightarrow> ('c plugin_registry, unit) outcome" where
  "plugin_deregister name r =
     (if \<not> dict_has (plugins r) name then (r, Inl (PluginNotFoundError name))
      else (r\<lparr>plugins := dict_del name (plugins r)\<rparr>, Inr ()))"

definition plugin_get :: "string \<Rightarrow> 'c plugin_registry \<Rightarrow> exn + 'c" where
  "plugin_get name r = need (PluginNotFoundError name) (dict_get (plugins r) name)"

definition list_plugins :: "'c plugin_registry \<Rightarrow> string list" where
  "list_plugins r = sort (dict_keys (plugins r))"

definition plugin_contains :: "string \<Rightarrow> 'c plugin_registry \<Rightarrow> bool" where
  "plugin_contains name r = dict_has (plugins r) name"

definition plugin_len :: "'c plugin_registry \<Rightarrow> nat" where
  "plugin_len r = length (plugins r)"

record 'c entry_point =
  ep_name :: string
  ep_load :: "exn + 'c"

text \<open>One pass over the entry points; only an exception outside \<open>Exception\<close> ends it.\<close>

fun load_entrypoints :: "'c entry_point list \<Rightarrow> 'c plugin_registry \<Rightarrow> ('c plugin_registry, unit) outcome" where
  "load_entrypoints [] r = (r, Inr ())"
| "load_entrypoints (ep # eps) r =
     (if dict_has (plugins r) (ep_name ep) then load_entrypoints eps r
      else case ep_load ep of
        Inl x \<Rightarrow> if is_exception x then load_entrypoints eps r else (r, Inl x)
      | Inr cls \<Rightarrow> load_entrypoints eps (fst (register_class (ep_name ep) cls r)))"

section \<open>Properties\<close>

text \<open>The operations, as steps of a history.\<close>

datatype 'c plugin_op = Register string 'c | Deregister string | Load "'c entry_point list"

fun plugin_step :: "'c plugin_op \<Rightarrow> 'c plugin_registry \<Rightarrow> 'c plugin_registry" where
  "plugin_step (Register name cls) r = fst (register_class name cls r)"
| "plugin_step (Deregister name) r = fst (plugin_deregister name r)"
| "plugin_step (Load eps) r = fst (load_entrypoints eps r)"

definition usable :: "'c plugin_registry \<Rightarrow> string \<Rightarrow> 'c entry_point \<Rightarrow> bool" where
  "usable r name ep \<longleftrightarrow> ep_name ep = name \<and> (\<exists>cls. ep_load ep = Inr cls \<and> is_plugin_class r cls)"

lemma register_class_get:
  "is_plugin_class (fst (register_class n c r)) = is_plugin_class r"
  "dict_get (plugins (fst (register_class n c r))) k =
     (if k = n \<and> dict_get (plugins r) n = None \<and> is_plugin_class r c then Some c else dict_get (plugins r) k)"
  by (auto simp: register_class_def dict_has_def)

lemma load_entrypoints_get:
  assumes "\<forall>ep \<in> set eps. \<forall>x. ep_load ep = Inl x \<longrightarrow> is_exception x"
  shows "snd (load_entrypoints eps r) = Inr () \<and> is_plugin_class (fst (load_entrypoints eps r)) = is_plugin_class r \<and>
    dict_get (plugins (fst (load_entrypoints eps r))) name =
      (case dict_get (plugins r) name of
         Some c \<Rightarrow> Some c
       | None \<Rightarrow> (case List.find (usable r name) eps of None \<Rightarrow> None | Some ep \<Rightarrow> Some (projr (ep_load ep))))"
  using assms
proof (induction eps arbitrary: r)
  case Nil
  then show ?case by (simp split: option.split)
next
  case (Cons ep eps)
  have pre: "\<forall>ep \<in> set eps. \<forall>x. ep_load ep = Inl x \<longrightarrow> is_exception x" using Cons.prems by simp
  note IH = Cons.IH [OF pre]
  show ?case
  proof (cases "dict_has (plugins r) (ep_name ep)")
    case True
    then show ?thesis using IH [where r = r] by (auto simp: usable_def dict_has_def split: option.split)
  next
    case False
    show ?thesis
    proof (cases "ep_load ep")
      case (Inl x)
      then have "is_exception x" using Cons.prems by simp
      then show ?thesis using IH [where r = r] False Inl by (simp add: usable_def split: option.split)
    next
      case (Inr cls)
      let ?r = "fst (register_class (ep_name ep) cls r)"
      have same: "usable ?r name = usable r name" by (simp add: usable_def fun_eq_iff register_class_get)
      have "usable r name ep \<longleftrightarrow> name = ep_name ep \<and> is_plugin_class r cls" using Inr by (auto simp: usable_def)
      then show ?thesis using IH [where r = ?r] False Inr
        by (auto simp: register_class_get same dict_has_def split: option.split)
    qed
  qed
qed

text \<open>
  C29: Loading entry points never raises on failing imports or unsuitable classes, keeps every plugin
  that is already registered, and registers for each other name the first entry point that loads to
  a class of the right kind; loading a second time changes nothing.
\<close>

theorem load_entrypoints_exact:
  assumes "\<forall>ep \<in> set eps. \<forall>x. ep_load ep = Inl x \<longrightarrow> is_exception x"
  shows "snd (load_entrypoints eps r) = Inr () \<and>
    dict_get (plugins (fst (load_entrypoints eps r))) name =
      (case dict_get (plugins r) name of
         Some c \<Rightarrow> Some c
       | None \<Rightarrow> (case List.find (usable r name) eps of None \<Rightarrow> None | Some ep \<Rightarrow> Some (projr (ep_load ep)))) \<and>
    dict_get (plugins (fst (load_entrypoints eps (fst (load_entrypoints eps r))))) name =
      dict_get (plugins (fst (load_entrypoints eps r))) name"
proof -
  note one = load_entrypoints_get [OF assms, where r = r and name = name]
  let ?r = "fst (load_entrypoints eps r)"
  note two = load_entrypoints_get [OF assms, where r = ?r and name = name]
  have same: "usable ?r name = usable r name" using one by (simp add: usable_def fun_eq_iff)
  have "dict_get (plugins (fst (load_entrypoints eps ?r))) name = dict_get (plugins ?r) name"
    using one two same by (simp split: option.split)
  with one show ?thesis by simp
qed

theorem load_entrypoints_exact_witness:
  "dict_get (plugins (fst (load_entrypoints
      [\<lparr>ep_name = ''a'', ep_load = Inl (ValueError ''import'')\<rparr>, \<lparr>ep_name = ''a'', ep_load = Inr (4::nat)\<rparr>]
      (PluginRegistry even ''r'')))) ''a'' = Some 4"
proof -
  let ?eps = "[\<lparr>ep_name = ''a'', ep_load = Inl (ValueError ''import'')\<rparr>, \<lparr>ep_name = ''a'', ep_load = Inr (4::nat)\<rparr>]"
  have "\<forall>ep \<in> set ?eps. \<forall>x. ep_load ep = Inl x \<longrightarrow> is_exception x" by simp
  from load_entrypoints_exact [OF this, of "PluginRegistry even ''r''" "''a''"] show ?thesis
    by (simp add: PluginRegistry_def usable_def)
qed

text \<open>A registry that holds only classes of the right kind.\<close>

definition conforming :: "('c \<Rightarrow> bool) \<Rightarrow> 'c plugin_registry \<Rightarrow> bool" where
  "conforming base r \<longleftrightarrow> is_plugin_class r = base \<and> (\<forall>c \<in> ran (dict_get (plugins r)). base c)"

lemma register_class_conforming: "conforming base r \<Longrightarrow> conforming base (fst (register_class n c r))"
  by (auto simp: conforming_def register_class_get ran_def split: if_splits)

lemma load_entrypoints_conforming: "conforming base r \<Longrightarrow> conforming base (fst (load_entrypoints eps r))"
proof (induction eps arbitrary: r)
  case (Cons ep eps)
  show ?case
  proof (cases "ep_load ep")
    case (Inl x)
    then show ?thesis using Cons by simp
  next
    case (Inr c)
    then show ?thesis using Cons.IH [OF register_class_conforming [OF Cons.prems]] Cons by simp
  qed
qed simp

text \<open>Whatever the history, every class in the registry is of the right kind.\<close>

theorem registered_classes_conform: "conforming base (fold plugin_step ops (PluginRegistry base name))"
proof -
  have step: "conforming base (plugin_step op r)" if "conforming base r" for op r
  proof (cases op)
    case (Register n c)
    then show ?thesis using register_class_conforming [OF that] by simp
  next
    case (Deregister n)
    then show ?thesis using that by (auto simp: conforming_def plugin_deregister_def ran_def)
  next
    case (Load eps)
    then show ?thesis using load_entrypoints_conforming [OF that] by simp
  qed
  have all: "conforming base r \<Longrightarrow> conforming base (fold plugin_step ops r)" for r
    by (induction ops arbitrary: r) (simp_all add: step)
  show ?thesis by (rule all) (simp add: conforming_def PluginRegistry_def)
qed

end
