(* ===== verification/Tracing.thy ===== *)
theory Tracing
  imports Messages
begin

text \<open>
  \<open>middleware/tracing.py\<close>: the middleware that puts the trace context into an envelope before it is
  handed on. Identifiers, the random draw and the clock are arguments, read in the order of the
  source; the next handler is a function that may raise. The spans that the tracing library is asked
  for are listed in the order in which they are opened.
\<close>

section \<open>The middleware\<close>

record tracing_middleware =
  tr_service_name :: string
  sample_rate :: rat
  use_otel :: bool
  total_processed :: nat

definition TracingMiddleware :: "bool \<Rightarrow> string \<Rightarrow> rat \<Rightarrow> bool \<Rightarrow> exn + tracing_middleware" where
  "TracingMiddleware otel_available name rate otel =
     (if \<not> (0 \<le> rate \<and> rate \<le> 1) then Inl (ValueError ''sample_rate'')
      else Inr \<lparr>tr_service_name = name, sample_rate = rate, use_otel = (otel \<and> otel_available), total_processed = 0\<rparr>)"

text \<open>One reading of the sources of chance: a trace id, a span id, a draw in \<open>[0, 1)\<close> and \<open>str(time())\<close>.\<close>

record hop =
  new_trace_id :: string
  new_span_id :: string
  draw :: rat
  time_text :: string

definition inject_trace_context :: "tracing_middleware \<Rightarrow> hop \<Rightarrow> message_envelope \<Rightarrow> message_envelope" where
  "inject_trace_context m h env =
     (let env1 = (if trace_id env = [] then env\<lparr>trace_id := new_trace_id h\<rparr> else env);
          md = env_metadata env1;
          md1 = (case dict_get md ''span_id'' of
                   None \<Rightarrow> md
                 | Some v \<Rightarrow> if truthy v then dict_set ''parent_span_id'' v md else md);
          md2 = dict_set ''span_id'' (JStr (new_span_id h)) md1;
          md3 = dict_set ''service_name'' (JStr (tr_service_name m)) md2;
          md4 = dict_set ''sampled'' (JStr (if draw h < sample_rate m then ''1'' else ''0'')) md3
      in env1\<lparr>env_metadata := dict_set ''trace_ingested_at'' (JStr (time_text h)) md4\<rparr>)"

text \<open>A span of the tracing library: the name of the tracer, its own name and its attributes.\<close>

record otel_span =
  os_tracer :: string
  os_name :: string
  os_attributes :: "(string, string) dict"

definition otel_span_for :: "tracing_middleware \<Rightarrow> message_envelope \<Rightarrow> otel_span" where
  "otel_span_for m env =
     \<lparr>os_tracer = tr_service_name m, os_name = ''agent_mesh_router.'' @ message_type_value (message_type env),
      os_attributes = [(''messaging.system'', ''agent-mesh-router''), (''messaging.destination'', receiver env),
        (''messaging.message_id'', message_id env), (''net.app.protocol.name'', ''amr'')]\<rparr>"

definition call_next ::
    "(message_envelope \<Rightarrow> exn + unit) \<Rightarrow> message_envelope \<Rightarrow> otel_span list \<Rightarrow> (otel_span list, unit) outcome" where
  "call_next next_handler env spans = (spans, next_handler env)"

definition call_with_otel_span ::
    "(message_envelope \<Rightarrow> exn + unit) \<Rightarrow> tracing_middleware \<Rightarrow> message_envelope \<Rightarrow> otel_span list \<Rightarrow>
     (otel_span list, unit) outcome" where
  "call_with_otel_span next_handler m env spans = call_next next_handler env (spans @ [otel_span_for m env])"

definition trace_call ::
    "(message_envelope \<Rightarrow> exn + unit) \<Rightarrow> hop \<Rightarrow> message_envelope \<Rightarrow> tracing_middleware \<Rightarrow> otel_span list \<Rightarrow>
     (tracing_middleware \<times> message_envelope \<times> otel_span list, unit) outcome" where
  "trace_call next_handler h env m spans =
     (let env' = inject_trace_context m h env;
          m' = m\<lparr>total_processed := total_processed m + 1\<rparr>;
          (spans', r) = (if use_otel m then call_with_otel_span next_handler m' env' spans
                         else call_next next_handler env' spans)
      in ((m', env', spans'), r))"

section \<open>Properties\<close>

definition trace_keys :: "string set" where
  "trace_keys = {''span_id'', ''parent_span_id'', ''service_name'', ''sampled'', ''trace_ingested_at''}"

text \<open>The envelope after a chain of hops through middlewares.\<close>

definition hops :: "(tracing_middleware \<times> hop) list \<Rightarrow> message_envelope \<Rightarrow> message_envelope" where
  "hops hs env = foldl (\<lambda>e (m, h). inject_trace_context m h e) env hs"

lemma inject_frame:
  "k \<notin> trace_keys \<Longrightarrow> dict_get (env_metadata (inject_trace_context m h env)) k = dict_get (env_metadata env) k"
  "payload (inject_trace_context m h env) = payload env" "message_id (inject_trace_context m h env) = message_id env"
  "receiver (inject_trace_context m h env) = receiver env" "sender (inject_trace_context m h env) = sender env"
  "dict_get (env_metadata (inject_trace_context m h env)) ''span_id'' = Some (JStr (new_span_id h))"
  "trace_id (inject_trace_context m h env) = (if trace_id env = [] then new_trace_id h else trace_id env)"
  by (auto simp: inject_trace_context_def Let_def trace_keys_def split: option.split)

lemma inject_parent:
  "dict_get (env_metadata env) ''span_id'' = Some (JStr s) \<Longrightarrow> s \<noteq> [] \<Longrightarrow>
   dict_get (env_metadata (inject_trace_context m h env)) ''parent_span_id'' = Some (JStr s)"
  by (simp add: inject_trace_context_def Let_def)

lemma hops_frame:
  "k \<notin> trace_keys \<Longrightarrow> dict_get (env_metadata (hops hs env)) k = dict_get (env_metadata env) k"
  "payload (hops hs env) = payload env" "message_id (hops hs env) = message_id env" "receiver (hops hs env) = receiver env"
  "trace_id env \<noteq> [] \<Longrightarrow> trace_id (hops hs env) = trace_id env"
  by (induction hs arbitrary: env) (auto simp: hops_def inject_frame)

lemma hops_snoc:
  "j < length hs \<Longrightarrow> hops (take (Suc j) hs) env = inject_trace_context (fst (hs ! j)) (snd (hs ! j)) (hops (take j hs) env)"
  by (simp add: hops_def take_Suc_conv_app_nth case_prod_beta)

lemma hops_span:
  "j < length hs \<Longrightarrow>
   dict_get (env_metadata (hops (take (Suc j) hs) env)) ''span_id'' = Some (JStr (new_span_id (snd (hs ! j))))"
  by (simp add: hops_snoc inject_frame)

lemma hops_parent:
  assumes "0 < i" "i < length hs" "new_span_id (snd (hs ! (i - 1))) \<noteq> []"
  shows "dict_get (env_metadata (hops (take (Suc i) hs) env)) ''parent_span_id'' =
    Some (JStr (new_span_id (snd (hs ! (i - 1)))))"
proof -
  have "dict_get (env_metadata (hops (take i hs) env)) ''span_id'' = Some (JStr (new_span_id (snd (hs ! (i - 1)))))"
    using hops_span [of "i - 1" hs env] assms(1,2) by simp
  then show ?thesis unfolding hops_snoc [OF assms(2)] using assms(3) by (rule inject_parent)
qed

lemma trace_call_eq:
  "trace_call downstream h env m spans =
      ((m\<lparr>total_processed := total_processed m + 1\<rparr>, inject_trace_context m h env,
        spans @ (if use_otel m then [otel_span_for m (inject_trace_context m h env)] else [])),
       downstream (inject_trace_context m h env))"
  by (simp add: trace_call_def call_next_def call_with_otel_span_def otel_span_for_def Let_def)

text \<open>
  Trace context is propagated along any chain of hops: one trace id holds for the whole chain (the
  given one, or the one made at the first hop), each hop records its own span and as its parent the
  span of the hop before, and nothing else of the envelope changes. Every message is counted and the
  next handler gets the marked envelope, also when it raises, and a span is opened exactly when the
  tracing library is in use.
\<close>

theorem trace_context_propagates:
  assumes ids: "\<forall>(m, h) \<in> set hs. new_trace_id h \<noteq> [] \<and> new_span_id h \<noteq> []" and i: "i < length hs"
  shows "trace_id (hops (take (Suc i) hs) env) = (if trace_id env = [] then new_trace_id (snd (hs ! 0)) else trace_id env) \<and>
    dict_get (env_metadata (hops (take (Suc i) hs) env)) ''span_id'' = Some (JStr (new_span_id (snd (hs ! i)))) \<and>
    (0 < i \<longrightarrow> dict_get (env_metadata (hops (take (Suc i) hs) env)) ''parent_span_id'' =
       Some (JStr (new_span_id (snd (hs ! (i - 1)))))) \<and>
    (\<forall>k. k \<notin> trace_keys \<longrightarrow>
       dict_get (env_metadata (hops (take (Suc i) hs) env)) k = dict_get (env_metadata env) k) \<and>
    payload (hops (take (Suc i) hs) env) = payload env \<and>
    trace_call downstream h env m spans =
      ((m\<lparr>total_processed := total_processed m + 1\<rparr>, inject_trace_context m h env,
        spans @ (if use_otel m then [otel_span_for m (inject_trace_context m h env)] else [])),
       downstream (inject_trace_context m h env))"
proof -
  obtain m0 h0 rest where hs: "hs = (m0, h0) # rest" using i by (cases hs) auto
  have trace: "trace_id (hops (take (Suc i) hs) env) = (if trace_id env = [] then new_trace_id h0 else trace_id env)"
  proof -
    have "trace_id (inject_trace_context m0 h0 env) \<noteq> []" using ids hs by (simp add: inject_frame)
    then have "trace_id (hops (take i rest) (inject_trace_context m0 h0 env)) = trace_id (inject_trace_context m0 h0 env)"
      by (rule hops_frame(5))
    moreover have "hops (take (Suc i) hs) env = hops (take i rest) (inject_trace_context m0 h0 env)"
      by (simp add: hs hops_def)
    ultimately show ?thesis by (simp add: inject_frame)
  qed
  have parent: "dict_get (env_metadata (hops (take (Suc i) hs) env)) ''parent_span_id'' =
      Some (JStr (new_span_id (snd (hs ! (i - 1)))))" if "0 < i"
  proof -
    have "hs ! (i - 1) \<in> set hs" using that i by simp
    with ids have "case hs ! (i - 1) of (m, h) \<Rightarrow> new_trace_id h \<noteq> [] \<and> new_span_id h \<noteq> []" by (rule bspec)
    then show ?thesis using hops_parent [OF that i] by (simp add: case_prod_beta)
  qed
  show ?thesis using trace hops_span [OF i] parent hops_frame(1,2) trace_call_eq by (simp add: hs)
qed

text \<open>A message with a given trace id on its first hop.\<close>

definition traced_envelope :: message_envelope where
  "traced_envelope = \<lparr>sender = ''a'', receiver = ''b'', payload = [], message_type = TASK, priority = NORMAL, topic = JNull,
     trace_id = ''t'', parent_message_id = None, message_id = ''m'', created_at = 0, ttl_seconds = None,
     cost_budget_usd = None, env_metadata = []\<rparr>"

theorem trace_context_propagates_witness:
  "trace_id (hops [(\<lparr>tr_service_name = ''s'', sample_rate = 1, use_otel = False, total_processed = 0\<rparr>,
      \<lparr>new_trace_id = ''n'', new_span_id = ''x'', draw = 0, time_text = ''0''\<rparr>)] traced_envelope) = ''t''"
proof -
  let ?m = "\<lparr>tr_service_name = ''s'', sample_rate = 1, use_otel = False, total_processed = 0\<rparr> :: tracing_middleware"
    and ?h = "\<lparr>new_trace_id = ''n'', new_span_id = ''x'', draw = 0, time_text = ''0''\<rparr> :: hop"
  have "\<forall>(m, h) \<in> set [(?m, ?h)]. new_trace_id h \<noteq> [] \<and> new_span_id h \<noteq> []" "0 < length [(?m, ?h)]" by simp_all
  from trace_context_propagates [OF this, where env = traced_envelope and spans = "[]" and m = ?m and h = ?h and downstream = "\<lambda>_. Inr ()"] show ?thesis
    by (simp add: traced_envelope_def)
qed

end
