(* ===== verification/Traced_Delivery.thy ===== *)
theory Traced_Delivery
  imports Message_Broker Tracing
begin

text \<open>
  The broker and the tracing middleware together. The handlers that \<open>broker/message_broker.py\<close>
  calls are middlewares of \<open>middleware/tracing.py\<close> around the handlers of the agents; all attempts
  for all targets of a message are made with one envelope object, which each middleware changes, and
  the dead letters written on the way refer to that same object. The state therefore has one shared
  envelope, and the letters are notes that are filed with the envelope as it is in the end.
\<close>

section \<open>Delivery of one shared envelope\<close>

record letter_note =
  note_reason :: string
  note_detail :: string
  note_at :: timestamp
  note_attempt :: int

text \<open>A call of a handler: for whom, at which attempt, and the envelope that the inner handler got.\<close>

record 'h handler_call =
  hc_agent :: string
  hc_attempt :: int
  hc_handler :: 'h
  hc_envelope :: message_envelope

record 'h traced_state =
  shared_envelope :: message_envelope
  middlewares :: "'h \<Rightarrow> tracing_middleware"
  opened_spans :: "otel_span list"
  letter_notes :: "letter_note list"
  handler_calls :: "'h handler_call list"

abbreviation add_note :: "letter_note \<Rightarrow> 'h traced_state \<Rightarrow> 'h traced_state" where
  "add_note n s \<equiv> s\<lparr>letter_notes := letter_notes s @ [n]\<rparr>"

text \<open>The handler that \<open>wrap\<close> returns for the middleware \<open>k\<close>, around the inner handler \<open>inner\<close>.\<close>

definition wrapped_handler ::
    "(message_envelope \<Rightarrow> exn + unit) \<Rightarrow> hop \<Rightarrow> 'h \<Rightarrow> string \<Rightarrow> int \<Rightarrow> 'h traced_state \<Rightarrow> ('h traced_state, unit) outcome" where
  "wrapped_handler inner h k a attempt s =
     (case trace_call inner h (shared_envelope s) (middlewares s k) (opened_spans s) of
        ((m, env, spans), r) \<Rightarrow>
          (s\<lparr>shared_envelope := env, middlewares := (middlewares s)(k := m), opened_spans := spans,
             handler_calls := handler_calls s @
               [\<lparr>hc_agent = a, hc_attempt = attempt, hc_handler = k, hc_envelope = env\<rparr>]\<rparr>, r))"

abbreviation inner_handler :: "'h delivery_world \<Rightarrow> 'h \<Rightarrow> string \<Rightarrow> int \<Rightarrow> message_envelope \<Rightarrow> exn + unit" where
  "inner_handler W k a attempt env \<equiv> (case raises W k env a attempt of None \<Rightarrow> Inr () | Some x \<Rightarrow> Inl x)"

function deliver_traced ::
    "'h delivery_world \<Rightarrow> (string \<Rightarrow> int \<Rightarrow> hop) \<Rightarrow> int \<Rightarrow> string \<Rightarrow> int \<Rightarrow> 'h traced_state \<Rightarrow> ('h traced_state, bool) outcome" where
  "deliver_traced W H mx a attempt s =
     (case dict_get (handlers_at W a attempt) a of
        None \<Rightarrow> (add_note \<lparr>note_reason = ''handler_disappeared'', note_detail = '''',
                   note_at = clock_at W a attempt, note_attempt = attempt\<rparr> s, Inr False)
      | Some k \<Rightarrow>
          (case wrapped_handler (inner_handler W k a attempt) (H a attempt) k a attempt s of
             (s', Inr _) \<Rightarrow> (s', Inr True)
           | (s', Inl x) \<Rightarrow>
               if \<not> is_exception x then (s', Inl x)
               else if attempt < mx then deliver_traced W H mx a (attempt + 1) s'
               else (add_note \<lparr>note_reason = ''handler_error'', note_detail = exn_str W x,
                       note_at = clock_at W a attempt, note_attempt = attempt\<rparr> s', Inr False)))"
  by pat_completeness auto
termination
  by (relation "measure (\<lambda>(W, H, mx, a, attempt, s). nat (mx - attempt))") auto

declare deliver_traced.simps [simp del]

fun deliver_traced_all ::
    "'h delivery_world \<Rightarrow> (string \<Rightarrow> int \<Rightarrow> hop) \<Rightarrow> int \<Rightarrow> string list \<Rightarrow> 'h traced_state \<Rightarrow> ('h traced_state, string list) outcome" where
  "deliver_traced_all W H mx [] s = (s, Inr [])"
| "deliver_traced_all W H mx (a # as) s =
     (case deliver_traced W H mx a 1 s of
        (s1, Inl x) \<Rightarrow> (s1, Inl x)
      | (s1, Inr ok) \<Rightarrow>
          (case deliver_traced_all W H mx as s1 of
             (s2, Inl x) \<Rightarrow> (s2, Inl x)
           | (s2, Inr reached) \<Rightarrow> (s2, Inr (if ok then a # reached else reached))))"

definition fresh_state :: "('h \<Rightarrow> tracing_middleware) \<Rightarrow> message_envelope \<Rightarrow> 'h traced_state" where
  "fresh_state M env = \<lparr>shared_envelope = env, middlewares = M, opened_spans = [], letter_notes = [], handler_calls = []\<rparr>"

text \<open>\<open>_dispatch\<close> over the shared envelope.\<close>

definition dispatch_traced ::
    "(string set \<Rightarrow> string list) \<Rightarrow> 'h delivery_world \<Rightarrow> (string \<Rightarrow> int \<Rightarrow> hop) \<Rightarrow> timestamp \<Rightarrow> timestamp \<Rightarrow>
     message_envelope \<Rightarrow> 'h message_broker \<Rightarrow> ('h \<Rightarrow> tracing_middleware) \<Rightarrow> ('h traced_state, string list) outcome" where
  "dispatch_traced order W H now now' env b M =
     (let note = \<lambda>reason. \<lparr>note_reason = reason, note_detail = '''', note_at = now', note_attempt = 1\<rparr>;
          s = fresh_state M env
      in if is_expired now env then (add_note (note ''ttl_expired_at_dispatch'') s, Inr [])
         else case resolve_targets env b of
           Inl x \<Rightarrow> (s, Inl x)
         | Inr targets \<Rightarrow>
             if targets = {} then (add_note (note ''no_subscriber'') s, Inr [])
             else deliver_traced_all W H (max_delivery_attempts b) (order targets) s)"

text \<open>The dead letters as they stand when the dispatch is over: every one has the same envelope.\<close>

definition file_letters :: "message_envelope \<Rightarrow> letter_note list \<Rightarrow> dead_letter_queue \<Rightarrow> dead_letter_queue" where
  "file_letters env ns d =
     foldl (\<lambda>d n. dead_letter (note_at n) env (note_reason n) (note_detail n) (note_attempt n) d) d ns"

section \<open>Lemmas\<close>

text \<open>The hops of a list of calls, with the middlewares as they were configured.\<close>

definition hops_of_calls ::
    "('h \<Rightarrow> tracing_middleware) \<Rightarrow> (string \<Rightarrow> int \<Rightarrow> hop) \<Rightarrow> 'h handler_call list \<Rightarrow> (tracing_middleware \<times> hop) list" where
  "hops_of_calls M H cs = map (\<lambda>c. (M (hc_handler c), H (hc_agent c) (hc_attempt c))) cs"

definition calls_of :: "'h \<Rightarrow> 'h handler_call list \<Rightarrow> nat" where
  "calls_of k cs = length (filter (\<lambda>c. hc_handler c = k) cs)"

text \<open>What holds between two calls: the shared envelope is the one given, marked once for each call.\<close>

definition traced_inv ::
    "('h \<Rightarrow> tracing_middleware) \<Rightarrow> (string \<Rightarrow> int \<Rightarrow> hop) \<Rightarrow> message_envelope \<Rightarrow> 'h traced_state \<Rightarrow> bool" where
  "traced_inv M H env s \<longleftrightarrow>
     shared_envelope s = hops (hops_of_calls M H (handler_calls s)) env \<and>
     (\<forall>k. middlewares s k = M k\<lparr>total_processed := total_processed (M k) + calls_of k (handler_calls s)\<rparr>) \<and>
     (\<forall>i < length (handler_calls s).
        hc_envelope (handler_calls s ! i) = hops (take (Suc i) (hops_of_calls M H (handler_calls s))) env)"

lemma inject_count [simp]: "inject_trace_context (m\<lparr>total_processed := n\<rparr>) h env = inject_trace_context m h env"
  by (simp add: inject_trace_context_def)

lemma hops_append: "hops (hs @ [(m, h)]) env = inject_trace_context m h (hops hs env)"
  by (simp add: hops_def)

lemma hops_of_calls_snoc:
  "hops_of_calls M H (cs @ [c]) = hops_of_calls M H cs @ [(M (hc_handler c), H (hc_agent c) (hc_attempt c))]"
  by (simp add: hops_of_calls_def)

lemma length_hops_of_calls [simp]: "length (hops_of_calls M H cs) = length cs"
  by (simp add: hops_of_calls_def)

lemma traced_inv_note [simp]: "traced_inv M H env (add_note n s) = traced_inv M H env s"
  by (simp add: traced_inv_def)

lemma traced_inv_fresh: "traced_inv M H env (fresh_state M env)"
  by (simp add: traced_inv_def fresh_state_def hops_of_calls_def hops_def calls_of_def)

text \<open>Handlers that do not look at the trace context cannot tell a marked envelope from the given one.\<close>

definition ignores_trace :: "'h delivery_world \<Rightarrow> bool" where
  "ignores_trace W \<longleftrightarrow>
     (\<forall>k m h env a j. raises W k (inject_trace_context m h env) a j = raises W k env a j)"

lemma ignores_hops: "ignores_trace W \<Longrightarrow> raises W k (hops hs env) a j = raises W k env a j"
  by (induction hs arbitrary: env) (auto simp: hops_def ignores_trace_def)

lemma wrapped_handler_inv:
  assumes inv: "traced_inv M H env s" and ign: "ignores_trace W"
    and call: "wrapped_handler (inner_handler W k a j) (H a j) k a j s = (s', r)"
  shows "traced_inv M H env s'" "r = inner_handler W k a j env" "letter_notes s' = letter_notes s"
proof -
  let ?hs = "hops_of_calls M H (handler_calls s)" and ?m = "middlewares s k"
  let ?e = "inject_trace_context (M k) (H a j) (hops ?hs env)"
  have m: "?m = M k\<lparr>total_processed := total_processed (M k) + calls_of k (handler_calls s)\<rparr>"
    and e: "shared_envelope s = hops ?hs env" using inv by (simp_all add: traced_inv_def)
  let ?c = "\<lparr>hc_agent = a, hc_attempt = j, hc_handler = k, hc_envelope = ?e\<rparr>"
  have E: "?e = hops (?hs @ [(M k, H a j)]) env" by (simp add: hops_append)
  obtain spans where run: "trace_call (inner_handler W k a j) (H a j) (shared_envelope s) ?m (opened_spans s) =
      ((?m\<lparr>total_processed := total_processed ?m + 1\<rparr>, ?e, spans), inner_handler W k a j ?e)"
    using trace_call_eq [of "inner_handler W k a j" "H a j" "shared_envelope s" ?m "opened_spans s"]
    by (auto simp: e m)
  have s': "s' = s\<lparr>shared_envelope := ?e,
      middlewares := (middlewares s)(k := ?m\<lparr>total_processed := total_processed ?m + 1\<rparr>),
      opened_spans := spans, handler_calls := handler_calls s @ [?c]\<rparr>" and r: "r = inner_handler W k a j ?e"
    using call unfolding wrapped_handler_def run by simp_all
  have calls: "hops_of_calls M H (handler_calls s') = ?hs @ [(M k, H a j)]"
    by (simp add: s' hops_of_calls_snoc)
  have "hc_envelope (handler_calls s' ! i) = hops (take (Suc i) (?hs @ [(M k, H a j)])) env"
    if "i < length (handler_calls s')" for i
  proof (cases "i < length (handler_calls s)")
    case True
    then show ?thesis using inv by (simp add: s' nth_append traced_inv_def)
  next
    case False
    then have "i = length (handler_calls s)" using that by (simp add: s')
    then show ?thesis by (simp add: s' E)
  qed
  moreover have "middlewares s' i = M i\<lparr>total_processed := total_processed (M i) + calls_of i (handler_calls s')\<rparr>" for i
    using inv m by (simp add: s' traced_inv_def calls_of_def)
  moreover have "shared_envelope s' = hops (?hs @ [(M k, H a j)]) env" by (simp add: s' E)
  ultimately show "traced_inv M H env s'" unfolding traced_inv_def calls by blast
  show "r = inner_handler W k a j env" unfolding r E ignores_hops [OF ign] ..
  show "letter_notes s' = letter_notes s" by (simp add: s')
qed

lemma file_letters_snoc:
  "file_letters env (ns @ [n]) d =
     dead_letter (note_at n) env (note_reason n) (note_detail n) (note_attempt n) (file_letters env ns d)"
  by (simp add: file_letters_def)

text \<open>Every step over the shared envelope is a step of the delivery of the given one.\<close>

definition simulates ::
    "('h \<Rightarrow> tracing_middleware) \<Rightarrow> (string \<Rightarrow> int \<Rightarrow> hop) \<Rightarrow> message_envelope \<Rightarrow> dead_letter_queue \<Rightarrow>
     ('h traced_state, 'r) outcome \<Rightarrow> (dead_letter_queue, 'r) outcome \<Rightarrow> bool" where
  "simulates M H env d x y \<longleftrightarrow>
     traced_inv M H env (fst x) \<and> y = (file_letters env (letter_notes (fst x)) d, snd x)"

lemma simulates_note:
  "traced_inv M H env s \<Longrightarrow> simulates M H env d
     (add_note \<lparr>note_reason = r, note_detail = x, note_at = t, note_attempt = j\<rparr> s, v)
     (dead_letter t env r x j (file_letters env (letter_notes s) d), v)"
  by (simp add: simulates_def file_letters_snoc)

lemma deliver_traced_simulates:
  assumes "traced_inv M H env s" and ign: "ignores_trace W"
  shows "simulates M H env d (deliver_traced W H mx a j s) (deliver_to W mx env a j (file_letters env (letter_notes s) d))"
  using assms(1)
proof (induction "nat (mx - j)" arbitrary: j s rule: less_induct)
  case less
  show ?case
  proof (cases "dict_get (handlers_at W a j) a")
    case None
    with simulates_note [OF less.prems] show ?thesis
      by (subst deliver_traced.simps, subst deliver_to.simps) simp
  next
    case (Some k)
    obtain s' r where call: "wrapped_handler (inner_handler W k a j) (H a j) k a j s = (s', r)" by fastforce
    note inv = wrapped_handler_inv [OF less.prems ign call]
    show ?thesis
    proof (cases "raises W k env a j")
      case None
      with Some call inv show ?thesis
        by (subst deliver_traced.simps, subst deliver_to.simps) (simp add: simulates_def)
    next
      case raised: (Some x)
      then have r: "r = Inl x" using inv(2) by simp
      consider "\<not> is_exception x" | "is_exception x" "j < mx" | "is_exception x" "\<not> j < mx" by blast
      then show ?thesis
      proof cases
        case 1
        with Some call inv raised r show ?thesis
          by (subst deliver_traced.simps, subst deliver_to.simps) (simp add: simulates_def)
      next
        case 2
        then have "nat (mx - (j + 1)) < nat (mx - j)" by simp
        from less.hyps [OF this inv(1)] 2 Some call inv(3) raised r show ?thesis
          by (subst deliver_traced.simps, subst deliver_to.simps) simp
      next
        case 3
        with simulates_note [OF inv(1)] Some call inv(3) raised r show ?thesis
          by (subst deliver_traced.simps, subst deliver_to.simps) simp
      qed
    qed
  qed
qed

lemma deliver_traced_all_simulates:
  assumes "traced_inv M H env s" and ign: "ignores_trace W"
  shows "simulates M H env d (deliver_traced_all W H mx as s) (deliver_all W mx env as (file_letters env (letter_notes s) d))"
  using assms(1)
proof (induction as arbitrary: s)
  case (Cons a as)
  obtain s1 r where one: "deliver_traced W H mx a 1 s = (s1, r)" by fastforce
  have inv: "traced_inv M H env s1"
    and to: "deliver_to W mx env a 1 (file_letters env (letter_notes s) d) = (file_letters env (letter_notes s1) d, r)"
    using deliver_traced_simulates [OF Cons.prems ign, of d mx a 1] by (simp_all add: simulates_def one)
  obtain s2 q where rest: "deliver_traced_all W H mx as s1 = (s2, q)" by fastforce
  have "traced_inv M H env s2"
    and "deliver_all W mx env as (file_letters env (letter_notes s1) d) = (file_letters env (letter_notes s2) d, q)"
    using Cons.IH [OF inv] by (simp_all add: simulates_def rest)
  with inv to one rest show ?case by (cases r; cases q) (simp_all add: simulates_def)
qed (simp add: simulates_def)

lemma dispatch_traced_simulates:
  assumes "ignores_trace W"
  shows "simulates M H env (br_dlq b) (dispatch_traced order W H now now' env b M)
    (case dispatch order W now now' env b of (b', r) \<Rightarrow> (br_dlq b', r))"
proof -
  let ?s = "fresh_state M env"
  have inv: "traced_inv M H env ?s" by (rule traced_inv_fresh)
  have start: "file_letters env (letter_notes ?s) d = d" for d by (simp add: fresh_state_def file_letters_def)
  note note_at_once = simulates_note [OF inv, of "br_dlq b", unfolded start]
  show ?thesis
  proof (cases "is_expired now env")
    case True
    with note_at_once show ?thesis by (simp add: dispatch_traced_def dispatch_def Let_def)
  next
    case live: False
    show ?thesis
    proof (cases "resolve_targets env b")
      case (Inl x)
      with live inv start show ?thesis by (simp add: dispatch_traced_def dispatch_def simulates_def)
    next
      case (Inr T)
      show ?thesis
      proof (cases "T = {}")
        case True
        with live Inr note_at_once show ?thesis by (simp add: dispatch_traced_def dispatch_def Let_def)
      next
        case False
        with live Inr deliver_traced_all_simulates [OF inv assms, of "br_dlq b", unfolded start] show ?thesis
          by (simp add: dispatch_traced_def dispatch_def case_prod_beta)
      qed
    qed
  qed
qed

lemma dispatch_only_letters: "fst (dispatch order W now now' env b) = b\<lparr>br_dlq := br_dlq (fst (dispatch order W now now' env b))\<rparr>"
  by (simp add: dispatch_def case_prod_beta split: sum.split)

section \<open>Properties\<close>


text \<open>Two agents subscribed to everything; the handler of the first fails at its first attempt.\<close>

definition tracing_world :: "nat delivery_world" where
  "tracing_world = \<lparr>handlers_at = (\<lambda>_ _. [(''a'', 1), (''b'', 2)]),
     raises = (\<lambda>h env a k. if h = 1 \<and> k = 1 then Some (AppError ''busy'') else None),
     exn_str = (\<lambda>x. ''busy''), clock_at = (\<lambda>_ _. 0)\<rparr>"

definition tracing_hop :: "string \<Rightarrow> int \<Rightarrow> hop" where
  "tracing_hop a j = \<lparr>new_trace_id = ''n'', new_span_id = a @ (if j = 1 then ''1'' else ''2''), draw = 0, time_text = ''0''\<rparr>"

definition tracing_at :: "nat \<Rightarrow> tracing_middleware" where
  "tracing_at k = \<lparr>tr_service_name = ''s'', sample_rate = 1, use_otel = False, total_processed = 0\<rparr>"

lemma tracing_world_run:
  "map (\<lambda>c. (hc_agent c, hc_attempt c)) (handler_calls (fst (dispatch_traced (\<lambda>_. [''a'', ''b'']) tracing_world tracing_hop 0 0
      ((example_message ''m'' LOW)\<lparr>receiver := ''*''\<rparr>)
      (broker_subscribe ''b'' 2 (broker_subscribe ''a'' 1 example_broker)) tracing_at))) =
   [(''a'', 1), (''a'', 2), (''b'', 1)]"
  by (simp add: dispatch_traced_def Let_def is_expired_def example_message_def resolve_targets_def broker_subscribe_def
      example_broker_def dict_has_def deliver_traced.simps tracing_world_def wrapped_handler_def trace_call_eq fresh_state_def)


end
