(* ===== verification/Quickstart_Router.thy ===== *)
theory Quickstart_Router
  imports Routing_Strategy
begin

text \<open>
  \<open>convenience.py\<close>: the quickstart router, a routing table and a round-robin strategy behind two
  operations. It composes the models of the table and of the strategy; the identifiers and the time
  of the envelope it builds are arguments.
\<close>

section \<open>The router\<close>

record quick_router =
  q_table :: routing_table
  q_strategy :: strategy

definition Router :: quick_router where
  "Router = \<lparr>q_table = RoutingTable True, q_strategy = RoundRobinRouter 0\<rparr>"

definition q_register :: "timestamp \<Rightarrow> string \<Rightarrow> string list option \<Rightarrow> quick_router \<Rightarrow> (quick_router, unit) outcome" where
  "q_register now a caps q =
     (case register_agent now a (no_args\<lparr>arg_capabilities := Some (case caps of None \<Rightarrow> [] | Some cs \<Rightarrow> cs)\<rparr>) (q_table q) of
        (t, Inl x) \<Rightarrow> (q\<lparr>q_table := t\<rparr>, Inl x)
      | (t, Inr _) \<Rightarrow> (q\<lparr>q_table := t\<rparr>, Inr ()))"

text \<open>The two generated identifiers and the time of the envelope.\<close>

definition task_envelope :: "string \<times> string \<times> timestamp \<Rightarrow> (string, json) dict \<Rightarrow> message_envelope" where
  "task_envelope fresh task =
     (case fresh of (tid, mid, now) \<Rightarrow>
        \<lparr>sender = ''router-quickstart'', receiver = ''*'', payload = task, message_type = TASK, priority = NORMAL,
         topic = JNull, trace_id = tid, parent_message_id = None, message_id = mid, created_at = now,
         ttl_seconds = None, cost_budget_usd = None, env_metadata = []\<rparr>)"

definition q_route ::
    "builtins \<Rightarrow> string \<times> string \<times> timestamp \<Rightarrow> (string, json) dict \<Rightarrow> quick_router \<Rightarrow>
     (quick_router, (string, json) dict) outcome" where
  "q_route B fresh task q =
     (if list_agents None (q_table q) = []
      then (q, Inr [(''error'', JStr ''no_agents_available''), (''task'', JObj task)])
      else case select B (q_table q) (task_envelope fresh task) (q_strategy q) of
        (s, Inl x) \<Rightarrow> (q\<lparr>q_strategy := s\<rparr>, Inl x)
      | (s, Inr None) \<Rightarrow> (q\<lparr>q_strategy := s\<rparr>, Inr [(''error'', JStr ''no_matching_agent''), (''task'', JObj task)])
      | (s, Inr (Some r)) \<Rightarrow> (q\<lparr>q_strategy := s\<rparr>, Inr [(''agent_id'', JStr (agent_id r)), (''task'', JObj task)]))"

fun q_route_all ::
    "builtins \<Rightarrow> ((string \<times> string \<times> timestamp) \<times> (string, json) dict) list \<Rightarrow> quick_router \<Rightarrow>
     (exn + (string, json) dict) list" where
  "q_route_all B [] q = []"
| "q_route_all B ((fresh, task) # tasks) q =
     (case q_route B fresh task q of (q', res) \<Rightarrow> res # q_route_all B tasks q')"

section \<open>Properties\<close>

text \<open>The router after registrations, which may fail.\<close>

definition registered :: "(timestamp \<times> string \<times> string list option) list \<Rightarrow> quick_router \<Rightarrow> quick_router" where
  "registered regs q = fold (\<lambda>(now, a, caps) q. fst (q_register now a caps q)) regs q"

text \<open>A table into which agents were only registered.\<close>

definition fresh_table :: "string set \<Rightarrow> routing_table \<Rightarrow> bool" where
  "fresh_table ids t \<longleftrightarrow> table_wf t \<and> default_healthy_only t \<and> dom (dict_get (rt_agents t)) = ids \<and>
     (\<forall>k r. dict_get (rt_agents t) k = Some r \<longrightarrow> healthy r)"

lemma register_plain:
  assumes "arg_cost args = None" "arg_load args = None"
  obtains r where "healthy r" "register_agent now a args t =
    (if dict_has (rt_agents t) a then (t, Inl (AgentAlreadyRegisteredError a))
     else (t\<lparr>rt_agents := dict_set a r (rt_agents t)\<rparr>, Inr r))"
proof
  let ?r = "\<lparr>agent_id = a, capabilities = opt_set (arg_capabilities args), cost_per_token = 0, current_load = 0,
    healthy = True, registered_at = now, last_heartbeat_at = now, ar_tags = opt_dict (arg_tags args),
    ar_metadata = opt_dict (arg_metadata args)\<rparr>"
  show "healthy ?r" by simp
  show "register_agent now a args t =
    (if dict_has (rt_agents t) a then (t, Inl (AgentAlreadyRegisteredError a))
     else (t\<lparr>rt_agents := dict_set a ?r (rt_agents t)\<rparr>, Inr ?r))"
    using assms by (simp add: register_agent_def validate_load_def validate_cost_def or_zero_def Let_def)
qed

lemma q_register_table:
  assumes fresh: "fresh_table ids (q_table q)"
  shows "fresh_table (insert a ids) (q_table (fst (q_register now a caps q)))"
    "q_strategy (fst (q_register now a caps q)) = q_strategy q"
proof -
  let ?args = "no_args\<lparr>arg_capabilities := Some (case caps of None \<Rightarrow> [] | Some cs \<Rightarrow> cs)\<rparr>" and ?t = "q_table q"
  have none: "arg_cost ?args = None" "arg_load ?args = None" by (simp_all add: no_args_def)
  obtain r where r: "healthy r" and reg: "register_agent now a ?args ?t =
    (if dict_has (rt_agents ?t) a then (?t, Inl (AgentAlreadyRegisteredError a))
     else (?t\<lparr>rt_agents := dict_set a r (rt_agents ?t)\<rparr>, Inr r))"
    by (rule register_plain [OF none])
  show "q_strategy (fst (q_register now a caps q)) = q_strategy q"
    by (simp add: q_register_def reg)
  have wf: "table_wf (fst (register_agent now a ?args ?t))"
    using fresh register_agent_wf by (simp add: fresh_table_def)
  show "fresh_table (insert a ids) (q_table (fst (q_register now a caps q)))"
  proof (cases "dict_has (rt_agents ?t) a")
    case True
    then have "insert a ids = ids" using fresh by (auto simp: fresh_table_def dict_has_def)
    then show ?thesis using True fresh by (simp add: q_register_def reg)
  next
    case False
    then show ?thesis using wf r fresh by (auto simp: q_register_def reg fresh_table_def)
  qed
qed

lemma registered_table:
  "fresh_table ids (q_table q) \<Longrightarrow>
   fresh_table (ids \<union> (fst \<circ> snd) ` set regs) (q_table (registered regs q)) \<and> q_strategy (registered regs q) = q_strategy q"
proof (induction regs arbitrary: ids q)
  case (Cons reg regs)
  obtain now a caps where reg: "reg = (now, a, caps)" by (metis prod_cases3)
  note step = q_register_table [OF Cons.prems, where a = a and now = now and caps = caps]
  from Cons.IH [OF step(1)] step(2) show ?case by (simp add: registered_def reg)
qed (simp add: registered_def)

lemma fresh_list:
  assumes "fresh_table ids t"
  shows "list_agents None t = list_agents (Some True) t" "set (map agent_id (list_agents (Some True) t)) = ids"
    "distinct (map agent_id (list_agents (Some True) t))"
proof -
  have t: "table_wf t" "default_healthy_only t" "dom (dict_get (rt_agents t)) = ids"
    "\<And>k r. dict_get (rt_agents t) k = Some r \<Longrightarrow> healthy r" using assms by (simp_all add: fresh_table_def)
  show "list_agents None t = list_agents (Some True) t" using t(2) by (simp add: list_agents_def)
  show "distinct (map agent_id (list_agents (Some True) t))" by (rule list_agents_distinct [OF t(1)])
  have "agent_id r = k" if "dict_get (rt_agents t) k = Some r" for k r
    using that t(1) by (auto simp: table_wf_def dest: map_of_SomeD)
  then show "set (map agent_id (list_agents (Some True) t)) = ids"
    using list_healthy_iff [OF t(1)] t(3,4) by (force simp: dom_def)
qed

text \<open>The agent named in an answer.\<close>

definition answer :: "exn + (string, json) dict \<Rightarrow> json option" where
  "answer res = (case res of Inl _ \<Rightarrow> None | Inr d \<Rightarrow> dict_get d ''agent_id'')"

lemma q_route_all_round_robin:
  assumes "list_agents None (q_table q) \<noteq> []" "list_agents (Some True) (q_table q) \<noteq> []" "q_strategy q = RoundRobinRouter c"
  shows "map answer (q_route_all B tasks q) =
    map (\<lambda>i. Some (JStr (agent_id (rr_list (q_table q) ! nat ((c + int i) mod int (length (rr_list (q_table q)))))))) [0..<length tasks]"
  using assms(3) assms(1,2)
proof (induction tasks arbitrary: q c)
  case (Cons p tasks)
  obtain fresh task where p: "p = (fresh, task)" by fastforce
  let ?q = "q\<lparr>q_strategy := RoundRobinRouter (c + 1)\<rparr>"
  have route: "q_route B fresh task q = (?q, Inr [(''agent_id'',
      JStr (agent_id (rr_list (q_table q) ! nat (c mod int (length (rr_list (q_table q))))))), (''task'', JObj task)])"
    using Cons.prems select_round_robin [OF Cons.prems(3)] by (simp add: q_route_def)
  have IH: "map answer (q_route_all B tasks ?q) =
    map (\<lambda>i. Some (JStr (agent_id (rr_list (q_table q) ! nat ((c + 1 + int i) mod int (length (rr_list (q_table q)))))))) [0..<length tasks]"
    using Cons.IH [of ?q "c + 1"] Cons.prems by simp
  have "answer (Inr [(''agent_id'', JStr x), (''task'', JObj task)]) = Some (JStr x)" for x
    by (simp add: answer_def)
  then show ?case
    by (simp add: p route IH upt_conv_Cons map_Suc_upt [symmetric] add.assoc del: upt_Suc length_sort)
qed simp

text \<open>
  The quickstart router shares the work evenly and never raises: after any registrations (also
  repeated ones, which fail) and \<open>k * n\<close> tasks for the \<open>n\<close> different agents, every registered agent was
  chosen for exactly \<open>k\<close> tasks, whatever the tasks ask for.
\<close>

theorem quickstart_fair:
  assumes "length tasks = k * card ((fst \<circ> snd) ` set regs)" "(now, a, caps) \<in> set regs"
  shows "count_list (map answer (q_route_all B tasks (registered regs Router))) (Some (JStr a)) = k \<and>
    list_all (\<lambda>res. answer res \<noteq> None) (q_route_all B tasks (registered regs Router))"
proof -
  let ?ids = "(fst \<circ> snd) ` set regs" and ?q = "registered regs Router"
  have "fresh_table {} (q_table Router)"
    by (simp add: fresh_table_def Router_def RoutingTable_def table_wf_def)
  from registered_table [OF this, of regs] have
    fresh: "fresh_table ?ids (q_table ?q)" and strat: "q_strategy ?q = RoundRobinRouter 0"
    by (simp_all add: Router_def)
  note L = fresh_list [OF fresh]
  let ?L = "rr_list (q_table ?q)"
  have a: "a \<in> ?ids" using assms(2) by force
  then have ne: "list_agents (Some True) (q_table ?q) \<noteq> []" using L(2) by auto
  have "length ?L = card ?ids" using L(2,3) distinct_card [OF L(3)] by simp
  then have len: "length tasks = k * length ?L" using assms(1) by simp
  let ?ids_of = "map agent_id ?L" and ?g = "\<lambda>i. Some (JStr i)"
  have nonempty: "?ids_of \<noteq> []" using ne length_sort [of agent_id "list_agents (Some True) (q_table ?q)"] by (cases ?L) auto
  have idx: "agent_id (?L ! nat (int i mod int (length ?L))) = ?ids_of ! nat ((0 + int i) mod int (length ?ids_of))" for i
    using ne by (subst nth_map) (simp_all add: nat_less_iff)
  have picks: "map answer (q_route_all B tasks ?q) =
      map ?g (map (\<lambda>i. ?ids_of ! nat ((0 + int i) mod int (length ?ids_of))) [0..<k * length ?ids_of])"
    using q_route_all_round_robin [OF _ ne strat, of B tasks] ne L(1) len
    unfolding map_map comp_def idx [symmetric] by simp
  have "mset (map answer (q_route_all B tasks ?q)) = image_mset ?g (repeat_mset k (mset ?ids_of))"
    unfolding picks mset_map [of ?g] by (rule arg_cong [OF rotation_rounds [OF nonempty]])
  then have "count_list (map answer (q_route_all B tasks ?q)) (Some (JStr a)) =
      count (image_mset (\<lambda>i. Some (JStr i)) (repeat_mset k (mset (map agent_id ?L)))) (Some (JStr a))"
    by (simp only: count_mset [symmetric])
  also have "\<dots> = count (repeat_mset k (mset (map agent_id ?L))) a" by (rule count_image_inj) (simp add: inj_def)
  also have "count (mset (map agent_id ?L)) a = 1"
  proof -
    have "mset (map agent_id ?L) = mset (map agent_id (list_agents (Some True) (q_table ?q)))" by simp
    then show ?thesis using a L(2,3) unfolding distinct_count_atmost_1 by simp
  qed
  then have "count (repeat_mset k (mset (map agent_id ?L))) a = k" by simp
  finally have "count_list (map answer (q_route_all B tasks ?q)) (Some (JStr a)) = k" .
  moreover have "answer res \<noteq> None" if "res \<in> set (q_route_all B tasks ?q)" for res
  proof -
    have "answer res \<in> set (map answer (q_route_all B tasks ?q))" using that by simp
    then show ?thesis unfolding picks by auto
  qed
  ultimately show ?thesis by (simp add: list_all_iff)
qed

theorem quickstart_fair_witness:
  "count_list (map answer (q_route_all example_builtins
     (replicate 4 ((''t'', ''m'', 0), [(''capabilities'', JList [JStr ''vision''])]))
     (registered [(0, ''b'', None), (1, ''a'', Some [''nlp'']), (2, ''b'', None)] Router))) (Some (JStr ''a'')) = 2"
  by (rule quickstart_fair [of _ 2 "[(0, ''b'', None), (1, ''a'', Some [''nlp'']), (2, ''b'', None)]" 1 "''a''" "Some [''nlp'']",
      THEN conjunct1]) (simp_all add: card_insert_if)

end
