(* ===== verification/Transports.thy ===== *)
theory Transports
  imports Messages
begin

text \<open>
  \<open>adapters/http.py\<close>, \<open>adapters/kafka_adapter.py\<close> and \<open>adapters/redis_adapter.py\<close>: sending envelopes over
  HTTP with retries, to a Kafka topic and to a Redis channel. The client libraries are not part of
  the sources: what a request, a producer or a connection answers is an argument, an exception or a
  reply for every call. The JSON encoder is the parameter it is for the envelope.
\<close>

section \<open>The common contract\<close>

text \<open>
  A transport counts what it delivers: every delivery adds to the counter and nothing takes from it.
  An exact transport adds one per delivery and nothing else.
\<close>

primrec send_all :: "('e \<Rightarrow> 's \<Rightarrow> 's \<times> (exn + 'r)) \<Rightarrow> 'e list \<Rightarrow> 's \<Rightarrow> 's \<times> (exn + 'r) list" where
  "send_all send [] s = (s, [])"
| "send_all send (e # es) s =
     (case send e s of (s', r) \<Rightarrow> case send_all send es s' of (s'', rs) \<Rightarrow> (s'', r # rs))"

locale transport =
  fixes send :: "'e \<Rightarrow> 's \<Rightarrow> 's \<times> (exn + 'r)" and delivered :: "'s \<Rightarrow> nat"
  assumes counts: "delivered s + (if isl (snd (send e s)) then 0 else 1) \<le> delivered (fst (send e s))"
begin

lemma run_counts: "delivered s + length (filter (\<lambda>r. \<not> isl r) (snd (send_all send es s))) \<le> delivered (fst (send_all send es s))"
proof (induction es arbitrary: s)
  case (Cons e es)
  from Cons.IH [of "fst (send e s)"] counts [of s e] show ?case
    by (simp add: case_prod_beta split: if_splits)
qed simp

end

locale exact_transport = transport +
  assumes exact: "delivered (fst (send e s)) = delivered s + (if isl (snd (send e s)) then 0 else 1)"
begin

lemma run_exact: "delivered (fst (send_all send es s)) = delivered s + length (filter (\<lambda>r. \<not> isl r) (snd (send_all send es s)))"
proof (induction es arbitrary: s)
  case (Cons e es)
  from Cons.IH [of "fst (send e s)"] exact [of e s] show ?case
    by (simp add: case_prod_beta split: if_splits)
qed simp

end

section \<open>HTTP\<close>

record http_transport =
  base_url :: string
  ht_max_retries :: int
  ht_timeout :: rat
  backoff_base :: rat
  extra_headers :: "(string, string) dict"
  total_sent :: nat
  total_failed :: nat

definition rstrip_char :: "char \<Rightarrow> string \<Rightarrow> string" where
  "rstrip_char c s = rev (dropWhile (\<lambda>x. x = c) (rev s))"

definition HttpTransport ::
    "bool \<Rightarrow> string \<Rightarrow> int \<Rightarrow> rat \<Rightarrow> rat \<Rightarrow> (string, string) dict option \<Rightarrow> exn + http_transport" where
  "HttpTransport available url retries timeout backoff hdrs =
     (if \<not> available then Inl (ImportError ''httpx'')
      else if retries < 0 then Inl (ValueError ''max_retries'')
      else if timeout \<le> 0 then Inl (ValueError ''timeout_seconds'')
      else Inr \<lparr>base_url = rstrip_char (CHR ''/'') url, ht_max_retries = retries, ht_timeout = timeout,
                backoff_base = backoff, extra_headers = (case hdrs of None \<Rightarrow> [] | Some h \<Rightarrow> h), total_sent = 0,
                total_failed = 0\<rparr>)"

record 'raw http_request =
  req_url :: string
  req_content :: 'raw
  req_headers :: "(string, string) dict"

definition build_request :: "(json \<Rightarrow> 'raw) \<Rightarrow> message_envelope \<Rightarrow> http_transport \<Rightarrow> 'raw http_request" where
  "build_request dumps env h =
     \<lparr>req_url = base_url h @ ''/messages'', req_content = to_json dumps env,
      req_headers = dict_update [(''Content-Type'', ''application/json''), (''X-Trace-Id'', trace_id env),
                      (''X-Message-Id'', message_id env)] (extra_headers h)\<rparr>"

text \<open>A reply: a response with its status, what decoding its body gives and its text, or an exception.\<close>

datatype http_reply =
    Response int "exn + json" string
  | RequestFailed exn

definition http_success :: "int \<Rightarrow> bool" where
  "http_success st \<longleftrightarrow> 200 \<le> st \<and> st < 300"

definition http_backoff :: "http_transport \<Rightarrow> nat \<Rightarrow> rat" where
  "http_backoff h attempt = min (backoff_base h * 2 ^ (attempt - 1)) 30"

text \<open>What the handler around \<open>response.json()\<close> catches.\<close>

fun json_error :: "exn \<Rightarrow> bool" where
  "json_error (ValueError _) = True"
| "json_error (KeyError _) = True"
| "json_error _ = False"

text \<open>What the handlers around an attempt turn into a retry: every exception but the transport's own.\<close>

fun http_retried :: "exn \<Rightarrow> bool" where
  "http_retried (HttpTransportError _) = False"
| "http_retried x = is_exception x"

text \<open>
  The loop over the attempts: \<open>n\<close> are left, \<open>attempt\<close> is the next one. It also gives the sleeps. An
  exception that the inner handler does not catch counts as a failed attempt, although the message
  was delivered and counted.
\<close>

fun http_attempts ::
    "(nat \<Rightarrow> http_reply) \<Rightarrow> nat \<Rightarrow> nat \<Rightarrow> http_transport \<Rightarrow> rat list \<times> http_transport \<times> (exn + json)" where
  "http_attempts reply 0 attempt h =
     ([], h\<lparr>total_failed := total_failed h + 1\<rparr>, Inl (HttpTransportError ''Failed to deliver''))"
| "http_attempts reply (Suc n) attempt h =
     (let sleeps = (if attempt > 0 then [http_backoff h attempt] else []);
          again = (\<lambda>h'. case http_attempts reply n (Suc attempt) h' of (ss, res) \<Rightarrow> (sleeps @ ss, res))
      in case reply attempt of
           Response st body txt \<Rightarrow>
             if http_success st
             then (let h' = h\<lparr>total_sent := total_sent h + 1\<rparr>
                   in case body of
                        Inr v \<Rightarrow> (sleeps, h', Inr v)
                      | Inl x \<Rightarrow>
                          if json_error x
                          then (sleeps, h', Inr (JObj [(''status_code'', JInt st), (''raw_body'', JStr (take 500 txt))]))
                          else if http_retried x then again h' else (sleeps, h', Inl x))
             else if 400 \<le> st \<and> st < 500
             then (sleeps, h\<lparr>total_failed := total_failed h + 1\<rparr>, Inl (HttpTransportError ''Permanent''))
             else again h
         | RequestFailed x \<Rightarrow> if http_retried x then again h else (sleeps, h, Inl x))"

definition http_send ::
    "(json \<Rightarrow> 'raw) \<Rightarrow> ('raw http_request \<Rightarrow> nat \<Rightarrow> http_reply) \<Rightarrow> message_envelope \<Rightarrow> http_transport \<Rightarrow>
     rat list \<times> (http_transport, json) outcome" where
  "http_send dumps net env h = http_attempts (net (build_request dumps env h)) (nat (ht_max_retries h + 1)) 0 h"

text \<open>
  \<open>send_many\<close>: the sends run concurrently, but what they share are the two counters, to which each
  adds in single steps; so the totals and the list of results are those of any order. An exception that
  \<open>_safe_send\<close> does not catch is raised by \<open>gather\<close>, while the other sends run on.
\<close>

definition safe_send ::
    "(exn \<Rightarrow> string) \<Rightarrow> (json \<Rightarrow> 'raw) \<Rightarrow> ('raw http_request \<Rightarrow> nat \<Rightarrow> http_reply) \<Rightarrow> message_envelope \<Rightarrow> http_transport \<Rightarrow>
     (http_transport, json) outcome" where
  "safe_send str_of dumps net env h =
     (case snd (http_send dumps net env h) of
        (h', Inr v) \<Rightarrow> (h', Inr v)
      | (h', Inl x) \<Rightarrow>
          if is_exception x then (h', Inr (JObj [(''error'', JStr (str_of x)), (''message_id'', JStr (message_id env))]))
          else (h', Inl x))"

fun http_send_many ::
    "(exn \<Rightarrow> string) \<Rightarrow> (json \<Rightarrow> 'raw) \<Rightarrow> ('raw http_request \<Rightarrow> nat \<Rightarrow> http_reply) \<Rightarrow> message_envelope list \<Rightarrow> http_transport \<Rightarrow>
     (http_transport, json list) outcome" where
  "http_send_many str_of dumps net [] h = (h, Inr [])"
| "http_send_many str_of dumps net (e # es) h =
     (case safe_send str_of dumps net e h of
        (h', Inl x) \<Rightarrow> (fst (http_send_many str_of dumps net es h'), Inl x)
      | (h', Inr v) \<Rightarrow>
          (case http_send_many str_of dumps net es h' of
             (h'', Inl x) \<Rightarrow> (h'', Inl x) | (h'', Inr vs) \<Rightarrow> (h'', Inr (v # vs))))"

section \<open>Kafka\<close>

record kafka_transport =
  bootstrap_servers :: string
  default_topic :: string
  key_by_receiver :: bool
  producer :: bool
  total_produced :: nat

definition KafkaTransport :: "bool \<Rightarrow> string \<Rightarrow> string \<Rightarrow> bool \<Rightarrow> exn + kafka_transport" where
  "KafkaTransport available servers deflt key =
     (if \<not> available then Inl (ImportError ''aiokafka'')
      else Inr \<lparr>bootstrap_servers = servers, default_topic = deflt, key_by_receiver = key, producer = False, total_produced = 0\<rparr>)"

text \<open>
  The producer is created, stored, and then started; it is forgotten after it was stopped.
\<close>

definition kafka_connect :: "exn + unit \<Rightarrow> exn + unit \<Rightarrow> kafka_transport \<Rightarrow> (kafka_transport, unit) outcome" where
  "kafka_connect created started k =
     (case created of Inl x \<Rightarrow> (k, Inl x) | Inr _ \<Rightarrow> (k\<lparr>producer := True\<rparr>, started))"

definition kafka_close :: "exn + unit \<Rightarrow> exn + unit \<Rightarrow> kafka_transport \<Rightarrow> (kafka_transport, unit) outcome" where
  "kafka_close flushed stopped k =
     (if producer k
      then (case and_then flushed (\<lambda>_. stopped) of Inl x \<Rightarrow> (k, Inl x) | Inr _ \<Rightarrow> (k\<lparr>producer := False\<rparr>, Inr ()))
      else (k, Inr ()))"

record 'raw kafka_record =
  kr_topic :: json
  kr_value :: 'raw
  kr_key :: "string option"
  kr_headers :: "(string \<times> string) list"

definition kafka_topic :: "string option \<Rightarrow> message_envelope \<Rightarrow> kafka_transport \<Rightarrow> json" where
  "kafka_topic override env k =
     (case override of
        Some t \<Rightarrow> if t \<noteq> [] then JStr t else if truthy (topic env) then topic env else JStr (default_topic k)
      | None \<Rightarrow> if truthy (topic env) then topic env else JStr (default_topic k))"

definition kafka_key :: "message_envelope \<Rightarrow> kafka_transport \<Rightarrow> string option" where
  "kafka_key env k = (if key_by_receiver k then Some (receiver env) else None)"

definition kafka_send ::
    "(json \<Rightarrow> 'raw) \<Rightarrow> ('raw kafka_record \<Rightarrow> exn + unit) \<Rightarrow> string option \<Rightarrow> message_envelope \<Rightarrow> kafka_transport \<Rightarrow>
     (kafka_transport, unit) outcome" where
  "kafka_send dumps ack override env k =
     (if \<not> producer k then (k, Inl (KafkaTransportError ''not connected''))
      else case ack \<lparr>kr_topic = kafka_topic override env k, kr_value = to_json dumps env, kr_key = kafka_key env k,
                     kr_headers = [(''x-trace-id'', trace_id env), (''x-message-id'', message_id env),
                                   (''x-message-type'', message_type_value (message_type env))]\<rparr> of
        Inr _ \<Rightarrow> (k\<lparr>total_produced := total_produced k + 1\<rparr>, Inr ())
      | Inl x \<Rightarrow> (k, Inl (if is_exception x then KafkaTransportError ''Failed to produce'' else x)))"

text \<open>The batch: the exceptions of the producer pass unchanged, and there is a flush at the end.\<close>

definition kafka_enqueue ::
    "(json \<Rightarrow> 'raw) \<Rightarrow> ('raw kafka_record \<Rightarrow> exn + unit) \<Rightarrow> message_envelope \<Rightarrow> kafka_transport \<Rightarrow>
     (kafka_transport, unit) outcome" where
  "kafka_enqueue dumps ack env k =
     (case ack \<lparr>kr_topic = kafka_topic None env k, kr_value = to_json dumps env, kr_key = kafka_key env k, kr_headers = []\<rparr> of
        Inl x \<Rightarrow> (k, Inl x)
      | Inr _ \<Rightarrow> (k\<lparr>total_produced := total_produced k + 1\<rparr>, Inr ()))"

fun kafka_enqueue_all ::
    "(json \<Rightarrow> 'raw) \<Rightarrow> ('raw kafka_record \<Rightarrow> exn + unit) \<Rightarrow> exn + unit \<Rightarrow> message_envelope list \<Rightarrow> kafka_transport \<Rightarrow>
     (kafka_transport, unit) outcome" where
  "kafka_enqueue_all dumps ack flushed [] k = (k, flushed)"
| "kafka_enqueue_all dumps ack flushed (e # es) k =
     (case kafka_enqueue dumps ack e k of
        (k', Inl x) \<Rightarrow> (k', Inl x) | (k', Inr _) \<Rightarrow> kafka_enqueue_all dumps ack flushed es k')"

definition kafka_send_many ::
    "(json \<Rightarrow> 'raw) \<Rightarrow> ('raw kafka_record \<Rightarrow> exn + unit) \<Rightarrow> exn + unit \<Rightarrow> message_envelope list \<Rightarrow> kafka_transport \<Rightarrow>
     (kafka_transport, unit) outcome" where
  "kafka_send_many dumps ack flushed envs k =
     (if \<not> producer k then (k, Inl (KafkaTransportError ''not connected''))
      else kafka_enqueue_all dumps ack flushed envs k)"

section \<open>Redis\<close>

record redis_transport =
  redis_url :: string
  channel_prefix :: string
  client :: bool
  total_published :: nat

definition RedisTransport :: "bool \<Rightarrow> string \<Rightarrow> string \<Rightarrow> exn + redis_transport" where
  "RedisTransport available url pre =
     (if \<not> available then Inl (ImportError ''redis'')
      else Inr \<lparr>redis_url = url, channel_prefix = pre, client = False, total_published = 0\<rparr>)"

definition redis_connect :: "exn + unit \<Rightarrow> exn + unit \<Rightarrow> redis_transport \<Rightarrow> (redis_transport, unit) outcome" where
  "redis_connect created pong r =
     (case created of Inl x \<Rightarrow> (r, Inl x) | Inr _ \<Rightarrow> (r\<lparr>client := True\<rparr>, pong))"

definition redis_close :: "exn + unit \<Rightarrow> redis_transport \<Rightarrow> (redis_transport, unit) outcome" where
  "redis_close reply r =
     (if client r then (case reply of Inl x \<Rightarrow> (r, Inl x) | Inr _ \<Rightarrow> (r\<lparr>client := False\<rparr>, Inr ())) else (r, Inr ()))"

definition build_channel :: "builtins \<Rightarrow> message_envelope \<Rightarrow> redis_transport \<Rightarrow> string" where
  "build_channel B env r =
     (if truthy (topic env) then channel_prefix r @ '':topic:'' @ py_str B (topic env)
      else channel_prefix r @ '':'' @ receiver env)"

definition redis_send ::
    "builtins \<Rightarrow> (json \<Rightarrow> 'raw) \<Rightarrow> (string \<Rightarrow> 'raw \<Rightarrow> exn + nat) \<Rightarrow> message_envelope \<Rightarrow> redis_transport \<Rightarrow>
     (redis_transport, nat) outcome" where
  "redis_send B dumps publish env r =
     (if \<not> client r then (r, Inl (RedisTransportError ''not connected''))
      else case publish (build_channel B env r) (to_json dumps env) of
        Inr n \<Rightarrow> (r\<lparr>total_published := total_published r + 1\<rparr>, Inr n)
      | Inl x \<Rightarrow> (r, Inl (if is_exception x then RedisTransportError ''Failed to publish'' else x)))"

text \<open>The channel to which \<open>subscribe_channel\<close> subscribes.\<close>

definition subscribe_channel :: "string \<Rightarrow> (string \<Rightarrow> exn + unit) \<Rightarrow> redis_transport \<Rightarrow> exn + string" where
  "subscribe_channel agent subscribe r =
     (if \<not> client r then Inl (RedisTransportError ''not connected'')
      else and_then (subscribe (channel_prefix r @ '':'' @ agent)) (\<lambda>_. Inr (channel_prefix r @ '':'' @ agent)))"

section \<open>Lemmas: the attempts of an HTTP send\<close>

text \<open>A reply that ends the loop, what the call then gives, and what it adds to the counters.\<close>

fun conclusive :: "http_reply \<Rightarrow> bool" where
  "conclusive (Response st body txt) =
     (if http_success st then (case body of Inr _ \<Rightarrow> True | Inl x \<Rightarrow> json_error x \<or> \<not> http_retried x)
      else 400 \<le> st \<and> st < 500)"
| "conclusive (RequestFailed x) = (\<not> http_retried x)"

fun reply_result :: "http_reply \<Rightarrow> exn + json" where
  "reply_result (Response st body txt) =
     (if http_success st
      then (case body of
              Inr v \<Rightarrow> Inr v
            | Inl x \<Rightarrow> if json_error x then Inr (JObj [(''status_code'', JInt st), (''raw_body'', JStr (take 500 txt))]) else Inl x)
      else Inl (HttpTransportError ''Permanent''))"
| "reply_result (RequestFailed x) = Inl x"

fun sent_by :: "http_reply \<Rightarrow> nat" where
  "sent_by (Response st body txt) = (if http_success st then 1 else 0)"
| "sent_by (RequestFailed x) = 0"

fun failed_by :: "http_reply \<Rightarrow> nat" where
  "failed_by (Response st body txt) = (if http_success st then 0 else 1)"
| "failed_by (RequestFailed x) = 0"

text \<open>The attempts made: up to and including the first conclusive reply.\<close>

definition http_tries :: "(nat \<Rightarrow> http_reply) \<Rightarrow> nat \<Rightarrow> nat \<Rightarrow> nat" where
  "http_tries reply n a = length (takeWhile (\<lambda>k. \<not> conclusive (reply k)) [a..<a + n])"

lemma http_tries_simps:
  "http_tries reply 0 a = 0"
  "http_tries reply (Suc n) a = (if conclusive (reply a) then 0 else Suc (http_tries reply n (Suc a)))"
  by (simp_all add: http_tries_def upt_conv_Cons del: upt_Suc)

definition count_up :: "nat \<Rightarrow> http_transport \<Rightarrow> http_transport" where
  "count_up k h = h\<lparr>total_sent := total_sent h + k\<rparr>"

lemma http_attempts_stop:
  assumes "conclusive (reply a)"
  shows "http_attempts reply (Suc n) a h =
    (if a > 0 then [http_backoff h a] else [],
     (count_up (sent_by (reply a)) h)\<lparr>total_failed := total_failed h + failed_by (reply a)\<rparr>, reply_result (reply a))"
  using assms
  by (cases "reply a") (auto simp: Let_def count_up_def split: sum.splits if_splits)

lemma http_attempts_go:
  assumes "\<not> conclusive (reply a)"
  shows "http_attempts reply (Suc n) a h =
    (case http_attempts reply n (Suc a) (count_up (sent_by (reply a)) h) of
       (ss, res) \<Rightarrow> ((if a > 0 then [http_backoff h a] else []) @ ss, res))"
  using assms
  by (cases "reply a") (auto simp: Let_def count_up_def split: sum.splits if_splits)

lemma count_up_simps [simp]:
  "http_backoff (count_up k h) = http_backoff h" "count_up j (count_up k h) = count_up (k + j) h"
  "total_failed (count_up k h) = total_failed h" "total_sent (count_up k h) = total_sent h + k"
  "count_up 0 h = h"
  by (simp_all add: count_up_def http_backoff_def fun_eq_iff)

lemma http_attempts_spec:
  fixes reply n a
  defines "i \<equiv> http_tries reply n a"
  shows "http_attempts reply n a h =
    (map (http_backoff h) (filter (\<lambda>k. k > 0) [a..<min (a + n) (Suc (a + i))]),
     (count_up (sum_list (map (\<lambda>k. sent_by (reply k)) [a..<min (a + n) (Suc (a + i))])) h)
       \<lparr>total_failed := total_failed h + (if i < n then failed_by (reply (a + i)) else 1)\<rparr>,
     if i < n then reply_result (reply (a + i)) else Inl (HttpTransportError ''Failed to deliver''))"
  unfolding i_def
proof (induction n arbitrary: a h)
  case 0
  then show ?case by (simp add: http_tries_simps)
next
  case (Suc n)
  show ?case
  proof (cases "conclusive (reply a)")
    case True
    then show ?thesis unfolding http_attempts_stop [where reply = reply, OF True] by (simp add: http_tries_simps)
  next
    case False
    show ?thesis unfolding http_attempts_go [where reply = reply, OF False] Suc.IH
      by (simp add: http_tries_simps False upt_conv_Cons del: upt_Suc)
  qed
qed

text \<open>
  C21: Sending over HTTP ends after at most \<open>max_retries + 1\<close> requests, with the first conclusive reply:
  a 2xx response is returned (with a substitute when its body is not JSON), a 4xx response raises at
  once, and server errors, network errors and all other responses are retried; when no reply is
  conclusive the send raises HttpTransportError. The waits in between are the capped exponential
  back-off, at most 30 seconds each, and one failed or at least one sent message is counted.
\<close>

theorem http_send_first_conclusive:
  assumes "0 \<le> ht_max_retries h"
  shows "\<exists>i \<le> nat (ht_max_retries h) + 1. \<exists>sleeps h' res.
    http_send dumps net env h = (sleeps, h', res) \<and>
    (\<forall>k < i. \<not> conclusive (net (build_request dumps env h) k)) \<and>
    (if i \<le> nat (ht_max_retries h)
     then conclusive (net (build_request dumps env h) i) \<and> res = reply_result (net (build_request dumps env h) i)
     else res = Inl (HttpTransportError ''Failed to deliver'')) \<and>
    length sleeps = min i (nat (ht_max_retries h)) \<and>
    (\<forall>k < length sleeps. sleeps ! k = min (backoff_base h * 2 ^ k) 30) \<and>
    (isl res \<or> total_sent h < total_sent h' \<and> total_failed h' = total_failed h)"
proof -
  let ?reply = "net (build_request dumps env h)" and ?m = "nat (ht_max_retries h)"
  let ?i = "http_tries ?reply (Suc ?m) 0"
  have n: "nat (ht_max_retries h + 1) = Suc ?m" using assms by (simp add: nat_add_distrib)
  have before: "\<not> conclusive (?reply k)" if "k < ?i" for k
  proof -
    have "takeWhile (\<lambda>k. \<not> conclusive (?reply k)) [0..<0 + Suc ?m] ! k \<in>
        set (takeWhile (\<lambda>k. \<not> conclusive (?reply k)) [0..<0 + Suc ?m])" using that unfolding http_tries_def by (rule nth_mem)
    moreover have "takeWhile (\<lambda>k. \<not> conclusive (?reply k)) [0..<0 + Suc ?m] ! k = k"
      using that length_takeWhile_le [of "\<lambda>k. \<not> conclusive (?reply k)" "[0..<0 + Suc ?m]"]
      unfolding http_tries_def by (subst takeWhile_nth) (simp_all del: upt_Suc)
    ultimately show ?thesis by (auto dest: set_takeWhileD simp del: upt_Suc)
  qed
  have at: "conclusive (?reply ?i)" if "?i < Suc ?m"
    using nth_length_takeWhile [of "\<lambda>k. \<not> conclusive (?reply k)" "[0..<0 + Suc ?m]"] that
    unfolding http_tries_def by (simp del: upt_Suc)
  have le: "?i \<le> Suc ?m"
    using length_takeWhile_le [of "\<lambda>k. \<not> conclusive (?reply k)" "[0..<0 + Suc ?m]"] unfolding http_tries_def by simp
  define sleeps where "sleeps = map (http_backoff h) (filter (\<lambda>k. k > 0) [0..<min (Suc ?m) (Suc ?i)])"
  have pos: "filter (\<lambda>k. k > 0) [0..<Suc x] = [1..<Suc x]" for x
    by (simp add: upt_conv_Cons del: upt_Suc)
  have sl: "sleeps = map (http_backoff h) [1..<Suc (min ?i ?m)]"
    unfolding sleeps_def using pos [of "min ?i ?m"] by (simp add: min.commute del: upt_Suc)
  have lens: "length sleeps = min ?i ?m" by (simp add: sl del: upt_Suc)
  have vals: "sleeps ! k = min (backoff_base h * 2 ^ k) 30" if "k < length sleeps" for k
  proof -
    have "k < min ?i ?m" using that lens by simp
    then show ?thesis by (simp add: sl http_backoff_def del: upt_Suc)
  qed
  let ?sent = "sum_list (map (\<lambda>k. sent_by (?reply k)) [0..<min (Suc ?m) (Suc ?i)])"
  let ?h = "(count_up ?sent h)\<lparr>total_failed := total_failed h + (if ?i < Suc ?m then failed_by (?reply ?i) else 1)\<rparr>"
  let ?res = "if ?i < Suc ?m then reply_result (?reply ?i) else Inl (HttpTransportError ''Failed to deliver'')"
  have run: "http_send dumps net env h = (sleeps, ?h, ?res)"
    unfolding http_send_def n using http_attempts_spec [of ?reply "Suc ?m" 0 h] by (simp only: add_0 sleeps_def)
  have counted: "total_sent h < total_sent ?h \<and> total_failed ?h = total_failed h" if ok: "\<not> isl ?res"
  proof -
    have i: "?i < Suc ?m" and r: "\<not> isl (reply_result (?reply ?i))" using ok by (auto split: if_splits)
    have one: "sent_by (?reply ?i) = 1 \<and> failed_by (?reply ?i) = 0" using r by (cases "?reply ?i") (auto split: if_splits)
    have "min (Suc ?m) (Suc ?i) = Suc ?i" using i by simp
    then have "[0..<min (Suc ?m) (Suc ?i)] = [0..<?i] @ [?i]" by (simp only:) simp
    then have "?sent > 0" using one by simp
    then show ?thesis using i one by simp
  qed
  show ?thesis
    using le before at lens vals run counted
    by (intro exI [of _ ?i] conjI exI [of _ sleeps] exI [of _ ?h] exI [of _ ?res]) (auto simp: less_Suc_eq_le)
qed

section \<open>The transports as instances\<close>

lemma http_attempts_counts:
  "total_sent h + (if isl (snd (snd (http_attempts reply n a h))) then 0 else 1) \<le>
     total_sent (fst (snd (http_attempts reply n a h)))"
proof -
  let ?i = "http_tries reply n a"
  have "1 \<le> sum_list (map (\<lambda>k. sent_by (reply k)) [a..<min (a + n) (Suc (a + ?i))])"
    if "\<not> isl (if ?i < n then reply_result (reply (a + ?i)) else Inl (HttpTransportError ''Failed to deliver''))"
  proof -
    have i: "?i < n" and r: "\<not> isl (reply_result (reply (a + ?i)))" using that by (auto split: if_splits)
    have "sent_by (reply (a + ?i)) = 1" using r by (cases "reply (a + ?i)") (auto split: if_splits)
    moreover have "a + ?i \<in> set [a..<min (a + n) (Suc (a + ?i))]" using i by simp
    ultimately have "1 \<in> set (map (\<lambda>k. sent_by (reply k)) [a..<min (a + n) (Suc (a + ?i))])" by force
    then show ?thesis by (rule member_le_sum_list) simp
  qed
  then show ?thesis unfolding http_attempts_spec [of reply n a h] by simp
qed

interpretation http: transport "\<lambda>env h. snd (http_send dumps net env h)" total_sent for dumps net
  by unfold_locales (simp only: http_send_def http_attempts_counts)

interpretation kafka: exact_transport "kafka_send dumps ack override" total_produced for dumps ack override
  by unfold_locales (auto simp: kafka_send_def split: sum.split)

interpretation redis: exact_transport "redis_send B dumps publish" total_published for B dumps publish
  by unfold_locales (auto simp: redis_send_def split: sum.split)

text \<open>
  The counters of the transports are honest: over any sequence of sends, a Kafka and a Redis
  transport have counted exactly the sends that returned normally, connected or not, and an HTTP
  transport has counted at least those.
\<close>

theorem transport_counters:
  "total_produced (fst (send_all (kafka_send dumps ack override) envs k)) =
     total_produced k + length (filter (\<lambda>r. \<not> isl r) (snd (send_all (kafka_send dumps ack override) envs k))) \<and>
   total_published (fst (send_all (redis_send B dumps publish) envs r)) =
     total_published r + length (filter (\<lambda>x. \<not> isl x) (snd (send_all (redis_send B dumps publish) envs r))) \<and>
   total_sent h + length (filter (\<lambda>x. \<not> isl x) (snd (send_all (\<lambda>env h. snd (http_send dumps net env h)) envs h))) \<le> total_sent (fst (send_all (\<lambda>env h. snd (http_send dumps net env h)) envs h))"
  by (intro conjI kafka.run_exact redis.run_exact http.run_counts)

text \<open>
  On Redis an agent's channel carries its direct messages: once subscribed, an agent receives a
  published envelope exactly when the envelope has no topic and names the agent as receiver; only
  an agent whose own name has the form \<open>topic:t\<close> also receives the messages of topic \<open>t\<close>.
\<close>

theorem redis_direct_messages:
  assumes "subscribe_channel a subscribe r = Inr channel"
  shows "build_channel B env r = channel \<longleftrightarrow>
    (if truthy (topic env) then a = ''topic:'' @ py_str B (topic env) else receiver env = a)"
proof -
  have "channel = channel_prefix r @ '':'' @ a"
    using assms by (auto simp: subscribe_channel_def and_then_Inr split: if_splits)
  then show ?thesis by (auto simp: build_channel_def)
qed

definition plain_envelope :: message_envelope where
  "plain_envelope = \<lparr>sender = ''a'', receiver = ''b'', payload = [], message_type = TASK, priority = NORMAL, topic = JNull,
     trace_id = ''t'', parent_message_id = None, message_id = ''m'', created_at = 0, ttl_seconds = None,
     cost_budget_usd = None, env_metadata = []\<rparr>"

theorem redis_direct_messages_witness:
  "build_channel \<lparr>repr_of = (\<lambda>_. []), float_of_str = Map.empty, int_of_str = Map.empty, dict_of_iter = (\<lambda>_. Inr [])\<rparr>
     plain_envelope \<lparr>redis_url = ''u'', channel_prefix = ''amr'', client = True, total_published = 0\<rparr> = ''amr:b''"
proof -
  let ?r = "\<lparr>redis_url = ''u'', channel_prefix = ''amr'', client = True, total_published = 0\<rparr> :: redis_transport"
  have "subscribe_channel ''b'' (\<lambda>_. Inr ()) ?r = Inr ''amr:b''" by (simp add: subscribe_channel_def)
  from redis_direct_messages [OF this] show ?thesis by (simp add: plain_envelope_def)
qed

theorem http_send_first_conclusive_witness:
  "\<exists>sleeps h'. http_send id (\<lambda>_ k. if k = 0 then Response 503 (Inr JNull) '''' else Response 200 (Inr (JInt 1)) '''') plain_envelope
     \<lparr>base_url = ''u'', ht_max_retries = 3, ht_timeout = 1, backoff_base = 1, extra_headers = [], total_sent = 0, total_failed = 0\<rparr> =
     (sleeps, h', Inr (JInt 1))"
proof -
  let ?h = "\<lparr>base_url = ''u'', ht_max_retries = 3, ht_timeout = 1, backoff_base = 1, extra_headers = [], total_sent = 0,
    total_failed = 0\<rparr> :: http_transport"
  let ?net = "\<lambda>_ k. if k = 0 then Response 503 (Inr JNull) '''' else Response 200 (Inr (JInt 1)) ''''"
  have "0 \<le> ht_max_retries ?h" by simp
  from http_send_first_conclusive [OF this, of id ?net plain_envelope] obtain i sleeps h' res where
    run: "http_send id ?net plain_envelope ?h = (sleeps, h', res)"
    and before: "\<forall>k < i. \<not> conclusive (?net (build_request id plain_envelope ?h) k)"
    and at: "if i \<le> nat (ht_max_retries ?h) then conclusive (?net (build_request id plain_envelope ?h) i) \<and>
       res = reply_result (?net (build_request id plain_envelope ?h) i) else res = Inl (HttpTransportError ''Failed to deliver'')"
    by blast
  have "\<not> 1 < i" using before by (auto simp: http_success_def)
  moreover have "i \<noteq> 0"
  proof
    assume "i = 0"
    with at show False by (simp add: http_success_def)
  qed
  ultimately have "i = 1" by simp
  then have "res = Inr (JInt 1)" using at by (simp add: http_success_def)
  with run show ?thesis by blast
qed


text \<open>
  C28: Whatever the transport, what the other side decodes is the envelope that was sent, all its
  fields: the content of the HTTP request, and the record or the payload that Kafka or Redis
  acknowledged when the send returned normally, sent to the envelope's topic or receiver.
\<close>

theorem wire_roundtrip:
  assumes codec: "\<And>v. json_wf v \<Longrightarrow> loads (dumps v) = Inr v"
    and wf: "json_wf (JObj (payload e))" "json_wf (JObj (env_metadata e))" "json_wf (topic e)"
  shows "from_json B loads now (req_content (build_request dumps e h)) = Inr e \<and>
    (snd (kafka_send dumps ack override e k) = Inr () \<longrightarrow>
      (\<exists>q. ack q = Inr () \<and> from_json B loads now (kr_value q) = Inr e \<and>
         kr_topic q = kafka_topic override e k \<and> (key_by_receiver k \<longrightarrow> kr_key q = Some (receiver e)))) \<and>
    (snd (redis_send B dumps publish e r) = Inr n \<longrightarrow>
      (\<exists>raw. publish (build_channel B e r) raw = Inr n \<and> from_json B loads now raw = Inr e))"
proof (intro conjI impI)
  have restored: "from_json B loads now (to_json dumps e) = Inr e"
    using wf by (intro from_json_to_json loads_to_json codec)
  show "from_json B loads now (req_content (build_request dumps e h)) = Inr e"
    by (simp add: build_request_def restored)
  show "\<exists>q. ack q = Inr () \<and> from_json B loads now (kr_value q) = Inr e \<and>
      kr_topic q = kafka_topic override e k \<and> (key_by_receiver k \<longrightarrow> kr_key q = Some (receiver e))"
    if "snd (kafka_send dumps ack override e k) = Inr ()"
  proof (intro exI conjI impI)
    let ?q = "\<lparr>kr_topic = kafka_topic override e k, kr_value = to_json dumps e, kr_key = kafka_key e k,
      kr_headers = [(''x-trace-id'', trace_id e), (''x-message-id'', message_id e),
                    (''x-message-type'', message_type_value (message_type e))]\<rparr>"
    show "ack ?q = Inr ()" using that by (auto simp: kafka_send_def split: if_splits sum.splits)
    show "from_json B loads now (kr_value ?q) = Inr e" by (simp add: restored)
    show "kr_topic ?q = kafka_topic override e k" by simp
    show "kr_key ?q = Some (receiver e)" if "key_by_receiver k" using that by (simp add: kafka_key_def)
  qed
  show "\<exists>raw. publish (build_channel B e r) raw = Inr n \<and> from_json B loads now raw = Inr e"
    if "snd (redis_send B dumps publish e r) = Inr n"
    using that restored by (auto simp: redis_send_def split: if_splits sum.splits)
qed

theorem wire_roundtrip_witness:
  "\<exists>raw. (\<lambda>c (x :: json). if c = ''amr:b'' then Inr 1 else Inl (AppError c)) ''amr:b'' raw = Inr (1 :: nat) \<and>
     from_json \<lparr>repr_of = (\<lambda>_. []), float_of_str = Map.empty, int_of_str = Map.empty, dict_of_iter = (\<lambda>_. Inr [])\<rparr> Inr 9 raw =
       Inr plain_envelope"
proof -
  let ?B = "\<lparr>repr_of = (\<lambda>_. []), float_of_str = Map.empty, int_of_str = Map.empty, dict_of_iter = (\<lambda>_. Inr [])\<rparr>"
  let ?r = "\<lparr>redis_url = ''u'', channel_prefix = ''amr'', client = True, total_published = 0\<rparr> :: redis_transport"
  let ?p = "\<lambda>c (x :: json). if c = ''amr:b'' then Inr (1 :: nat) else Inl (AppError c)"
  have chan: "build_channel ?B plain_envelope ?r = ''amr:b''" by (simp add: build_channel_def plain_envelope_def)
  have "snd (redis_send ?B id ?p plain_envelope ?r) = Inr 1" by (simp add: redis_send_def chan)
  moreover have "json_wf (JObj (payload plain_envelope))" "json_wf (JObj (env_metadata plain_envelope))" "json_wf (topic plain_envelope)"
    by (simp_all add: plain_envelope_def)
  ultimately show ?thesis
    using wire_roundtrip [where loads = Inr and dumps = id and e = plain_envelope and B = ?B and publish = ?p and r = ?r
      and n = 1 and now = 9] by (simp only: chan id_apply simp_thms)
qed


section \<open>Batches and life cycle\<close>

text \<open>What two states of a transport with the same configuration have in common.\<close>

definition same_config :: "http_transport \<Rightarrow> http_transport \<Rightarrow> bool" where
  "same_config h h' \<longleftrightarrow> h'\<lparr>total_sent := total_sent h, total_failed := total_failed h\<rparr> = h"

lemma http_send_config:
  assumes "same_config h h'"
  shows "same_config h (fst (snd (http_send dumps net env h')))"
    "snd (snd (http_send dumps net env h')) = snd (snd (http_send dumps net env h))"
proof -
  have req: "build_request dumps env h' = build_request dumps env h" "ht_max_retries h' = ht_max_retries h"
    using assms by (cases h; cases h'; simp add: same_config_def build_request_def)+
  show "snd (snd (http_send dumps net env h')) = snd (snd (http_send dumps net env h))"
    unfolding http_send_def req http_attempts_spec by simp
  show "same_config h (fst (snd (http_send dumps net env h')))"
    using assms unfolding http_send_def req http_attempts_spec by (simp add: same_config_def count_up_def)
qed

text \<open>No reply is an exception outside \<open>Exception\<close>, such as a cancellation.\<close>

fun ordinary :: "http_reply \<Rightarrow> bool" where
  "ordinary (Response st body txt) = (case body of Inl x \<Rightarrow> is_exception x | Inr _ \<Rightarrow> True)"
| "ordinary (RequestFailed x) = is_exception x"

lemma http_send_ordinary:
  assumes "\<And>q k. ordinary (net q k)" "snd (snd (http_send dumps net env h)) = Inl x"
  shows "is_exception x"
proof -
  let ?reply = "net (build_request dumps env h)" and ?n = "nat (ht_max_retries h + 1)"
  let ?i = "http_tries ?reply ?n 0"
  have res: "(if ?i < ?n then reply_result (?reply (0 + ?i)) else Inl (HttpTransportError ''Failed to deliver'')) = Inl x"
    using assms(2) unfolding http_send_def http_attempts_spec by (simp only: snd_conv)
  show ?thesis
  proof (cases "?i < ?n")
    case True
    with res have "reply_result (?reply ?i) = Inl x" by simp
    moreover have "is_exception x" if "reply_result r = Inl x" "ordinary r" for r
      using that by (cases r) (auto split: if_splits sum.splits)
    ultimately show ?thesis using assms(1) by blast
  next
    case False
    with res have "HttpTransportError ''Failed to deliver'' = x" by simp
    then show ?thesis by (rule subst) simp
  qed
qed

text \<open>
  Sending many envelopes over HTTP returns one answer per envelope, in their order: the answer of a
  single send, or an object with the error and the identifier of the message; the failure of one does
  not keep the others from being sent.
\<close>

theorem http_send_many_answers:
  assumes ordinary: "\<And>q k. ordinary (net q k)"
  shows "snd (http_send_many str_of dumps net envs h) =
    Inr (map (\<lambda>env. case snd (snd (http_send dumps net env h)) of
        Inr v \<Rightarrow> v | Inl x \<Rightarrow> JObj [(''error'', JStr (str_of x)), (''message_id'', JStr (message_id env))]) envs)"
proof -
  have "snd (http_send_many str_of dumps net envs h') =
      Inr (map (\<lambda>env. case snd (snd (http_send dumps net env h)) of
        Inr v \<Rightarrow> v | Inl x \<Rightarrow> JObj [(''error'', JStr (str_of x)), (''message_id'', JStr (message_id env))]) envs)"
    if "same_config h h'" for h'
    using that
  proof (induction envs arbitrary: h')
    case (Cons e es)
    obtain h2 r where send: "snd (http_send dumps net e h') = (h2, r)" by fastforce
    with http_send_config [OF Cons.prems, of dumps net e] have r: "snd (snd (http_send dumps net e h)) = r" "same_config h h2"
      by simp_all
    from Cons.IH [OF r(2)] obtain h3 where rest: "http_send_many str_of dumps net es h2 = (h3, Inr (map (\<lambda>env.
        case snd (snd (http_send dumps net env h)) of
        Inr v \<Rightarrow> v | Inl x \<Rightarrow> JObj [(''error'', JStr (str_of x)), (''message_id'', JStr (message_id env))]) es))"
      by (cases "http_send_many str_of dumps net es h2") simp
    show ?case
    proof (cases r)
      case (Inl x)
      with http_send_ordinary [where net = net and dumps = dumps and env = e and h = h, OF ordinary] r(1) have "is_exception x" by simp
      with Inl send r(1) rest show ?thesis by (simp add: safe_send_def)
    next
      case (Inr v)
      with send r(1) rest show ?thesis by (simp add: safe_send_def)
    qed
  qed simp
  moreover have "same_config h h" by (simp add: same_config_def)
  ultimately show ?thesis by blast
qed

theorem http_send_many_answers_witness:
  "snd (http_send_many (\<lambda>_. ''down'') id (\<lambda>q k. RequestFailed (AppError ''refused'')) [plain_envelope]
     \<lparr>base_url = ''u'', ht_max_retries = 0, ht_timeout = 1, backoff_base = 1, extra_headers = [], total_sent = 0, total_failed = 0\<rparr>) =
   Inr [JObj [(''error'', JStr ''down''), (''message_id'', JStr ''m'')]]"
proof -
  have "ordinary (RequestFailed (AppError ''refused''))" by simp
  then show ?thesis by (subst http_send_many_answers) (simp_all add: http_send_def plain_envelope_def)
qed

text \<open>
  A Kafka batch is produced in order up to the first envelope that the producer refuses, counted one by
  one, and returns exactly when none was refused and the flush succeeded; a transport that is not
  connected produces nothing and raises, after a successful close as well.
\<close>

theorem kafka_batch_counts:
  "(let (k', res) = kafka_send_many dumps ack flushed envs k;
        accepted = takeWhile (\<lambda>e. \<not> isl (snd (kafka_enqueue dumps ack e k))) envs
    in total_produced k' = total_produced k + (if producer k then length accepted else 0) \<and>
       (isl res \<longleftrightarrow> \<not> producer k \<or> length accepted < length envs \<or> isl flushed)) \<and>
   (snd (kafka_close f s k) = Inr () \<longrightarrow>
      snd (kafka_send dumps ack override e (fst (kafka_close f s k))) = Inl (KafkaTransportError ''not connected''))"
proof (intro conjI impI)
  let ?acc = "\<lambda>es. takeWhile (\<lambda>e. \<not> isl (snd (kafka_enqueue dumps ack e k))) es"
  have enq: "snd (kafka_enqueue dumps ack e (k\<lparr>total_produced := n\<rparr>)) = snd (kafka_enqueue dumps ack e k)"
    "fst (kafka_enqueue dumps ack e (k\<lparr>total_produced := n\<rparr>)) =
       k\<lparr>total_produced := n + (if isl (snd (kafka_enqueue dumps ack e k)) then 0 else 1)\<rparr>" for e n
    by (auto simp: kafka_enqueue_def kafka_topic_def kafka_key_def split: sum.splits option.splits)
  have "kafka_enqueue_all dumps ack flushed es (k\<lparr>total_produced := n\<rparr>) = (k', res) \<Longrightarrow>
      total_produced k' = n + length (?acc es) \<and> (isl res \<longleftrightarrow> length (?acc es) < length es \<or> isl flushed)" for es n k' res
  proof (induction es arbitrary: n)
    case (Cons e es)
    obtain k2 r where q: "kafka_enqueue dumps ack e (k\<lparr>total_produced := n\<rparr>) = (k2, r)" by fastforce
    with enq [of e n] have r: "snd (kafka_enqueue dumps ack e k) = r" "k2 = k\<lparr>total_produced := n + (if isl r then 0 else 1)\<rparr>"
      by auto
    show ?case
    proof (cases r)
      case (Inl x)
      with Cons.prems q have "k' = k2" "res = Inl x" by simp_all
      with Inl r show ?thesis by simp
    next
      case (Inr u)
      with Cons.prems q have "kafka_enqueue_all dumps ack flushed es k2 = (k', res)" by simp
      with Cons.IH [of "n + 1"] Inr r show ?thesis by simp
    qed
  qed auto
  from this [of envs "total_produced k"] show "let (k', res) = kafka_send_many dumps ack flushed envs k;
        accepted = takeWhile (\<lambda>e. \<not> isl (snd (kafka_enqueue dumps ack e k))) envs
    in total_produced k' = total_produced k + (if producer k then length accepted else 0) \<and>
       (isl res \<longleftrightarrow> \<not> producer k \<or> length accepted < length envs \<or> isl flushed)"
    by (auto simp: kafka_send_many_def)
  show "snd (kafka_send dumps ack override e (fst (kafka_close f s k))) = Inl (KafkaTransportError ''not connected'')"
    if "snd (kafka_close f s k) = Inr ()"
    using that by (auto simp: kafka_close_def kafka_send_def split: if_splits sum.splits)
qed

end
