(* ===== verification/Health_Command.thy ===== *)
theory Health_Command
  imports Messages Health_Check Endpoint_Balancer
begin

text \<open>
  \<open>cli/resilience_commands.py\<close>: the command that checks the endpoints of a JSON file and ends with an exit
  code, over the models of the endpoint and of the health checker. What the file holds, what every
  probe meets and the clock readings are arguments; the table that is printed is not modelled. The
  names and the hosts in the file are strings: with other values the table cannot be printed.
\<close>

section \<open>The command\<close>

text \<open>An entry of the file: the fields of an object (\<open>None\<close>: the field is missing), or another value.\<close>

record endpoint_item =
  it_name :: "string option"
  it_host :: "string option"
  it_port :: "json option"
  it_weight :: "json option"
  it_healthy :: "json option"

datatype endpoints_file =
    NotJson
  | NotAList
  | Entries "endpoint_item option list"

definition item_endpoint :: "builtins \<Rightarrow> endpoint_item \<Rightarrow> exn + service_endpoint" where
  "item_endpoint B it =
     and_then (need (KeyError ''name'') (it_name it)) (\<lambda>name.
     and_then (need (KeyError ''host'') (it_host it)) (\<lambda>host.
     and_then (and_then (need (KeyError ''port'') (it_port it)) (py_int B)) (\<lambda>port.
     and_then (py_float B (case it_weight it of None \<Rightarrow> JFloat 1 | Some v \<Rightarrow> v)) (\<lambda>weight.
     ServiceEndpoint name host port weight (case it_healthy it of None \<Rightarrow> True | Some v \<Rightarrow> truthy v)))))"

text \<open>What is caught around the construction of an endpoint.\<close>

fun definition_error :: "exn \<Rightarrow> bool" where
  "definition_error (KeyError _) = True"
| "definition_error (ValueError _) = True"
| "definition_error (TypeError _) = True"
| "definition_error _ = False"

text \<open>The endpoints, or the end of the command: an exit code, or an exception that is not caught.\<close>

fun read_endpoints :: "builtins \<Rightarrow> endpoint_item option list \<Rightarrow> (exn + int) + service_endpoint list" where
  "read_endpoints B [] = Inr []"
| "read_endpoints B (None # its) = Inl (Inr 1)"
| "read_endpoints B (Some it # its) =
     (case item_endpoint B it of
        Inl x \<Rightarrow> if definition_error x then Inl (Inr 1) else Inl (Inl x)
      | Inr e \<Rightarrow> (case read_endpoints B its of Inl stop \<Rightarrow> Inl stop | Inr es \<Rightarrow> Inr (e # es)))"

text \<open>The exit code: what the last result that is not healthy sets.\<close>

fun exit_code :: "health_check_result list \<Rightarrow> int \<Rightarrow> int" where
  "exit_code [] code = code"
| "exit_code (r # rs) code =
     exit_code rs (if hr_status r = HEALTHY then code else if hr_status r = DEGRADED then 2 else 1)"

text \<open>What the probe of an endpoint meets: an exception or a connection, and the clock readings.\<close>

type_synonym probing = "service_endpoint \<Rightarrow> exn option \<times> timestamp \<times> timestamp \<times> timestamp"

definition health_command :: "builtins \<Rightarrow> probe_texts \<Rightarrow> probing \<Rightarrow> endpoints_file \<Rightarrow> rat \<Rightarrow> exn + int" where
  "health_command B T probe file timeout =
     (case file of
        NotJson \<Rightarrow> Inr 1
      | NotAList \<Rightarrow> Inr 1
      | Entries its \<Rightarrow>
          (case read_endpoints B its of
             Inl stop \<Rightarrow> stop
           | Inr es \<Rightarrow>
               if es = [] then Inr 0
               else and_then (HealthCheckConfig 60 timeout 1 1 100) (\<lambda>cfg.
                 case check_all_endpoints T (map (\<lambda>e. (ep_name e, probe e)) es) (HealthChecker cfg) of
                   (_, Inl x) \<Rightarrow> Inl x
                 | (_, Inr results) \<Rightarrow> Inr (exit_code results 0))))"

section \<open>Lemmas\<close>

definition tracked :: "health_checker \<Rightarrow> bool" where
  "tracked c \<longleftrightarrow> (\<forall>n. \<exists>os. represents c n os)"

lemma tracked_new: "tracked (HealthChecker cfg)"
  unfolding tracked_def
  by (intro allI exI [of _ "[]"])
    (simp add: represents_def HealthChecker_def last_status_def hc_history_def dict_get_or_def status_of_def)

lemma single_status:
  assumes "healthy_threshold cfg = 1" "unhealthy_threshold cfg = 1"
  shows "status_of cfg (os @ [b]) = (if b then HEALTHY else UNHEALTHY)"
  using assms by (auto simp: status_of_def down_def)

lemma check_all_single:
  assumes "tracked c" "healthy_threshold (hc_config c) = 1" "unhealthy_threshold (hc_config c) = 1" "1 \<le> max_history (hc_config c)"
    and "\<forall>(n, p, s, e, now) \<in> set ps. \<forall>x \<in> set_option p. is_exception x"
  shows "\<exists>c' rs. check_all_endpoints T ps c = (c', Inr rs) \<and>
    map hr_status rs = map (\<lambda>(n, p, s, e, now). if probe_ok (hc_config c) p s e then HEALTHY else UNHEALTHY) ps"
  using assms
proof (induction ps arbitrary: c)
  case (Cons q ps)
  obtain n p s e now where q: "q = (n, p, s, e, now)" by (cases q)
  let ?b = "probe_ok (hc_config c) p s e"
  obtain r where r: "hc_check T p s e now n c = (recorded n ?b r c, Inr r)" "hr_status r = snd (compute_status n ?b c)"
    using hc_check_recorded [of p T s e now n c] Cons.prems(5) q by auto
  obtain os where os: "represents c n os" using Cons.prems(1) by (auto simp: tracked_def)
  have ok: "config_ok (hc_config c)" using Cons.prems by (simp add: config_ok_def)
  have status: "hr_status r = (if ?b then HEALTHY else UNHEALTHY)"
    using compute_status_represents(1) [OF os, of ?b] Cons.prems single_status [of "hc_config c"] r(2) by simp
  have cfg: "hc_config (recorded n ?b r c) = hc_config c"
    by (simp add: recorded_def record_result_def compute_status_frame Let_def)
  have "tracked (recorded n ?b r c)"
    unfolding tracked_def
  proof
    fix n'
    show "\<exists>os. represents (recorded n ?b r c) n' os"
    proof (cases "n' = n")
      case True
      then show ?thesis using recorded_represents [OF os ok r(2)] by blast
    next
      case False
      then show ?thesis using Cons.prems(1) by (simp add: recorded_other tracked_def)
    qed
  qed
  from Cons.IH [OF this] Cons.prems obtain c' rs where
    "check_all_endpoints T ps (recorded n ?b r c) = (c', Inr rs)"
    "map hr_status rs = map (\<lambda>(n, p, s, e, now). if probe_ok (hc_config c) p s e then HEALTHY else UNHEALTHY) ps"
    by (auto simp: cfg)
  then show ?case by (simp add: q r(1) status)
qed simp

lemma exit_code_plain:
  assumes "set (map hr_status rs) \<subseteq> {HEALTHY, UNHEALTHY}"
  shows "exit_code rs code = (if list_all (\<lambda>s. s = HEALTHY) (map hr_status rs) then code else 1)"
  using assms by (induction rs arbitrary: code) auto

section \<open>Property\<close>

text \<open>
  The exit code of the health command tells whether the endpoints answered: for a file with at least
  one entry whose entries are all well-formed, it is 0 when every probe connected in time and 1
  otherwise, whatever names the entries share; it is never the code 2 of a degraded endpoint, since one
  failed probe makes an endpoint unhealthy.
\<close>

theorem health_command_exit_code:
  assumes "read_endpoints B its = Inr es" "es \<noteq> []" "0 < timeout"
    and "\<forall>e \<in> set es. \<forall>x \<in> set_option (fst (probe e)). is_exception x"
  shows "health_command B T probe (Entries its) timeout =
    Inr (if list_all (\<lambda>e. case probe e of (p, s, t, now) \<Rightarrow> p = None \<and> t - s \<le> timeout) es then 0 else 1)"
proof -
  let ?cfg = "\<lparr>interval_seconds = 60, timeout_seconds = timeout, healthy_threshold = 1, unhealthy_threshold = 1, max_history = 100\<rparr>"
  let ?ps = "map (\<lambda>e. (ep_name e, probe e)) es"
  have cfg: "HealthCheckConfig 60 timeout 1 1 100 = Inr ?cfg" using assms(3) by (simp add: HealthCheckConfig_def)
  have "\<forall>x \<in> set_option p. is_exception x" if "(n, p, s, e, now) \<in> set ?ps" for n p s e now
  proof -
    from that obtain d where "d \<in> set es" "probe d = (p, s, e, now)" by auto
    with assms(4) show ?thesis by (metis fst_conv)
  qed
  then have "\<forall>(n, p, s, e, now) \<in> set ?ps. \<forall>x \<in> set_option p. is_exception x" by blast
  with check_all_single [OF tracked_new [of ?cfg], of ?ps T] obtain c rs where
    run: "check_all_endpoints T ?ps (HealthChecker ?cfg) = (c, Inr rs)"
    and sts: "map hr_status rs = map (\<lambda>(n, p, s, e, now). if probe_ok ?cfg p s e then HEALTHY else UNHEALTHY) ?ps"
    by (auto simp: HealthChecker_def)
  have "exit_code rs 0 = (if list_all (\<lambda>s. s = HEALTHY) (map hr_status rs) then 0 else 1)"
    by (rule exit_code_plain) (auto simp: sts split: prod.splits)
  also have "list_all (\<lambda>s. s = HEALTHY) (map hr_status rs) \<longleftrightarrow>
      list_all (\<lambda>e. case probe e of (p, s, t, now) \<Rightarrow> p = None \<and> t - s \<le> timeout) es"
  proof -
    have "probe_ok ?cfg p s t \<longleftrightarrow> p = None \<and> t - s \<le> timeout" for p s t by (auto simp: probe_ok_def)
    then show ?thesis unfolding sts list.pred_map map_map by (simp add: comp_def case_prod_beta list_all_iff)
  qed
  finally show ?thesis using assms(1,2) by (simp add: health_command_def cfg run)
qed

theorem health_command_exit_code_witness:
  "health_command \<lparr>repr_of = (\<lambda>_. []), float_of_str = Map.empty, int_of_str = Map.empty, dict_of_iter = (\<lambda>_. Inr [])\<rparr>
     example_texts (\<lambda>e. (if ep_name e = ''a'' then None else Some (AppError ''refused''), 0, 1, 2))
     (Entries [Some \<lparr>it_name = Some ''a'', it_host = Some ''h'', it_port = Some (JInt 80), it_weight = None, it_healthy = None\<rparr>,
               Some \<lparr>it_name = Some ''b'', it_host = Some ''h'', it_port = Some (JInt 81), it_weight = None, it_healthy = None\<rparr>]) 5 = Inr 1"
proof -
  let ?B = "\<lparr>repr_of = (\<lambda>_. []), float_of_str = Map.empty, int_of_str = Map.empty, dict_of_iter = (\<lambda>_. Inr [])\<rparr>"
  let ?its = "[Some \<lparr>it_name = Some ''a'', it_host = Some ''h'', it_port = Some (JInt 80), it_weight = None, it_healthy = None\<rparr>,
    Some \<lparr>it_name = Some ''b'', it_host = Some ''h'', it_port = Some (JInt 81), it_weight = None, it_healthy = None\<rparr>]"
  let ?es = "[\<lparr>ep_name = ''a'', ep_host = ''h'', ep_port = 80, ep_weight = 1, ep_healthy = True\<rparr>,
    \<lparr>ep_name = ''b'', ep_host = ''h'', ep_port = 81, ep_weight = 1, ep_healthy = True\<rparr>] :: service_endpoint list"
  have "read_endpoints ?B ?its = Inr ?es" by (simp add: item_endpoint_def ServiceEndpoint_def)
  from health_command_exit_code [OF this, where timeout = 5 and T = example_texts
    and probe = "\<lambda>e. (if ep_name e = ''a'' then None else Some (AppError ''refused''), 0, 1, 2)"]
  show ?thesis by simp
qed

end
