(* ===== verification/Entry_Points.thy ===== *)
theory Entry_Points
  imports Messages
begin

text \<open>
  The outermost parts of the program: the start and the end of the operator process
  (\<open>k8s/operator/main.py\<close>), the commands of \<open>cli/main.py\<close> and \<open>cli/resilience_commands.py\<close> that print fixed
  text, and the base class of gRPC transports (\<open>adapters/grpc_adapter.py\<close>). The environment variables
  and what the logging, telemetry and gRPC packages do when they are called are arguments; the log
  entries written are part of the outcome.
\<close>

section \<open>The operator process\<close>

type_synonym environment = "string \<rightharpoonup> string"

definition getenv_or :: "environment \<Rightarrow> string \<Rightarrow> string \<Rightarrow> string" where
  "getenv_or env k dflt = (case env k of None \<Rightarrow> dflt | Some v \<Rightarrow> v)"

text \<open>
  \<open>str.upper\<close> on the letters that occur in the names below; no other letter has an upper case that
  occurs there.
\<close>

definition upper_char :: "char \<Rightarrow> char" where
  "upper_char c = (let n = (of_char c :: nat) in if 97 \<le> n \<and> n \<le> 122 then char_of (n - 32) else c)"

definition upper :: "string \<Rightarrow> string" where
  "upper s = map upper_char s"

text \<open>The attributes of the module \<open>logging\<close> whose names have no lower-case letter.\<close>

datatype logging_value = Level int | NotALevel

definition logging_attributes :: "(string, logging_value) dict" where
  "logging_attributes =
     [(''CRITICAL'', Level 50), (''FATAL'', Level 50), (''ERROR'', Level 40), (''WARNING'', Level 30), (''WARN'', Level 30),
      (''INFO'', Level 20), (''DEBUG'', Level 10), (''NOTSET'', Level 0), (''BASIC_FORMAT'', NotALevel), (''_STYLES'', NotALevel)]"

definition log_level :: "environment \<Rightarrow> logging_value" where
  "log_level env = dict_get_or logging_attributes (upper (getenv_or env ''LOG_LEVEL'' ''INFO'')) (Level 20)"

datatype log_entry =
    OtelConfigured string string
  | OtelUnavailable
  | OperatorStarted string
  | OperatorStopped

record operator_settings =
  persistence_finalizer :: string
  posting_level :: int
  server_timeout :: int

record operator_process =
  op_settings :: operator_settings
  op_log :: "log_entry list"
  op_level :: "logging_value option"

text \<open>
  The packages around the operator: what configuring the logging with a level, setting up the
  exporter for an endpoint and a service, and shutting the tracer down raise (\<open>None\<close>: nothing).
\<close>

record operator_packages =
  logging_setup :: "logging_value \<Rightarrow> exn option"
  exporter_setup :: "string \<Rightarrow> string \<Rightarrow> exn option"
  tracer_shutdown :: "exn option"

definition configure_logging :: "operator_packages \<Rightarrow> environment \<Rightarrow> operator_process \<Rightarrow> (operator_process, unit) outcome" where
  "configure_logging P env p =
     (case logging_setup P (log_level env) of
        Some x \<Rightarrow> (p, Inl x)
      | None \<Rightarrow> (p\<lparr>op_level := Some (log_level env)\<rparr>, Inr ()))"

definition configure_otel :: "operator_packages \<Rightarrow> environment \<Rightarrow> operator_process \<Rightarrow> (operator_process, unit) outcome" where
  "configure_otel P env p =
     (let endpoint = getenv_or env ''OTEL_EXPORTER_OTLP_ENDPOINT'' [];
          service = getenv_or env ''OTEL_SERVICE_NAME'' ''aumos-operator''
      in if endpoint = [] then (p, Inr ())
         else case exporter_setup P endpoint service of
           None \<Rightarrow> (p\<lparr>op_log := op_log p @ [OtelConfigured endpoint service]\<rparr>, Inr ())
         | Some x \<Rightarrow>
             (case x of
                ImportError _ \<Rightarrow> (p\<lparr>op_log := op_log p @ [OtelUnavailable]\<rparr>, Inr ())
              | _ \<Rightarrow> (p, Inl x)))"

definition tune_settings :: "builtins \<Rightarrow> environment \<Rightarrow> operator_process \<Rightarrow> (operator_process, unit) outcome" where
  "tune_settings B env p =
     (let s = (op_settings p)\<lparr>persistence_finalizer := ''aumos.ai/operator-finalizer'', posting_level := 30\<rparr>
      in case py_int B (JStr (getenv_or env ''WATCH_TIMEOUT'' ''300'')) of
           Inl x \<Rightarrow> (p\<lparr>op_settings := s\<rparr>, Inl x)
         | Inr n \<Rightarrow>
             (p\<lparr>op_settings := s\<lparr>server_timeout := n\<rparr>,
                op_log := op_log p @ [OperatorStarted (getenv_or env ''WATCH_NAMESPACE'' ''all'')]\<rparr>, Inr ()))"

definition on_startup ::
    "operator_packages \<Rightarrow> builtins \<Rightarrow> environment \<Rightarrow> operator_process \<Rightarrow> (operator_process, unit) outcome" where
  "on_startup P B env p =
     (case configure_logging P env p of
        (p1, Inl x) \<Rightarrow> (p1, Inl x)
      | (p1, Inr _) \<Rightarrow>
          (case configure_otel P env p1 of
             (p2, Inl x) \<Rightarrow> (p2, Inl x)
           | (p2, Inr _) \<Rightarrow> tune_settings B env p2))"

definition on_cleanup :: "operator_packages \<Rightarrow> operator_process \<Rightarrow> (operator_process, unit) outcome" where
  "on_cleanup P p =
     (case tracer_shutdown P of
        Some x \<Rightarrow> if is_exception x then (p\<lparr>op_log := op_log p @ [OperatorStopped]\<rparr>, Inr ()) else (p, Inl x)
      | None \<Rightarrow> (p\<lparr>op_log := op_log p @ [OperatorStopped]\<rparr>, Inr ()))"

section \<open>The commands that print fixed text\<close>

definition version_command :: "string \<Rightarrow> string list" where
  "version_command version = [''[bold]agent-mesh-router[/bold] v'' @ version]"

definition plugins_command :: "string list" where
  "plugins_command =
     [''[bold]Registered plugins:[/bold]'',
      ''  (No plugins registered. Install a plugin package to see entries here.)'']"

text \<open>\<open>None\<close> is the usage error that the argument's list of choices gives.\<close>

definition circuit_breaker_command :: "string \<Rightarrow> string list option" where
  "circuit_breaker_command subcommand =
     (if subcommand = ''status''
      then Some [''[bold]Circuit breaker status[/bold]\<newline>\<newline>No circuit breakers are registered in this process.\<newline>Instantiate a [cyan]CircuitBreaker[/cyan] in your service code and expose its [cyan].state[/cyan] property via your own status endpoint.'']
      else None)"

section \<open>The gRPC base class\<close>

record grpc_class =
  implements_send :: bool
  grpc_available :: bool

definition GrpcTransport :: "grpc_class \<Rightarrow> exn + unit" where
  \<comment> \<open>an abstract class without \<open>send\<close> cannot be instantiated\<close>
  "GrpcTransport k = (if implements_send k then Inr () else Inl (TypeError ''abstract method send''))"

definition grpc_connect :: "'t \<Rightarrow> ('t, unit) outcome" where
  "grpc_connect t = (t, Inr ())"

definition grpc_close :: "'t \<Rightarrow> ('t, unit) outcome" where
  "grpc_close t = (t, Inr ())"

definition assert_grpc_available :: "grpc_class \<Rightarrow> exn + unit" where
  "assert_grpc_available k = (if grpc_available k then Inr () else Inl (ImportError ''grpcio''))"

section \<open>Properties\<close>

text \<open>
  What can keep the operator from starting. The finalizer and the level of the posted events are
  set whatever the environment; a level name in any case is understood, and an unknown one means
  \<open>INFO\<close>. Missing telemetry packages are logged and never prevent the start; a \<open>WATCH_TIMEOUT\<close> that is
  not a number does, with the settings half done and no message that the operator has started. The
  end is always logged, whatever the tracer raises.
\<close>

theorem operator_start_and_stop:
  assumes "\<And>l. logging_setup P (Level l) = None" "log_level env = Level l"
    and "\<And>e s x. exporter_setup P e s = Some x \<Longrightarrow> \<exists>m. x = ImportError m"
  shows "(\<exists>p' r. on_startup P B env p = (p', r) \<and>
      persistence_finalizer (op_settings p') = ''aumos.ai/operator-finalizer'' \<and> posting_level (op_settings p') = 30 \<and>
      (case int_of_str B (getenv_or env ''WATCH_TIMEOUT'' ''300'') of
         Some n \<Rightarrow> r = Inr () \<and> server_timeout (op_settings p') = n \<and>
           op_log p' \<noteq> [] \<and> last (op_log p') = OperatorStarted (getenv_or env ''WATCH_NAMESPACE'' ''all'')
       | None \<Rightarrow> r = Inl (ValueError (getenv_or env ''WATCH_TIMEOUT'' ''300'')) \<and>
           server_timeout (op_settings p') = server_timeout (op_settings p))) \<and>
    ((\<forall>x. tracer_shutdown P = Some x \<longrightarrow> is_exception x) \<longrightarrow>
      on_cleanup P p = (p\<lparr>op_log := op_log p @ [OperatorStopped]\<rparr>, Inr ())) \<and>
    (upper (getenv_or env ''LOG_LEVEL'' ''INFO'') \<notin> set (dict_keys logging_attributes) \<longrightarrow> l = 20)"
proof -
  have log: "configure_logging P env p = (p\<lparr>op_level := Some (Level l)\<rparr>, Inr ())"
    using assms(1,2) by (simp add: configure_logging_def)
  obtain entries where otel: "configure_otel P env (p\<lparr>op_level := Some (Level l)\<rparr>) =
      (p\<lparr>op_level := Some (Level l), op_log := op_log p @ entries\<rparr>, Inr ())"
  proof (cases "getenv_or env ''OTEL_EXPORTER_OTLP_ENDPOINT'' [] = []")
    case True
    then show ?thesis using that [of "[]"] by (simp add: configure_otel_def)
  next
    case False
    let ?e = "getenv_or env ''OTEL_EXPORTER_OTLP_ENDPOINT'' []" and ?s = "getenv_or env ''OTEL_SERVICE_NAME'' ''aumos-operator''"
    show ?thesis
    proof (cases "exporter_setup P ?e ?s")
      case None
      then show ?thesis using False that [of "[OtelConfigured ?e ?s]"] by (simp add: configure_otel_def Let_def)
    next
      case (Some x)
      then obtain m where "exporter_setup P ?e ?s = Some (ImportError m)" using assms(3) by blast
      then show ?thesis using False that [of "[OtelUnavailable]"] by (simp add: configure_otel_def Let_def)
    qed
  qed
  have "l = 20" if "upper (getenv_or env ''LOG_LEVEL'' ''INFO'') \<notin> set (dict_keys logging_attributes)"
  proof -
    have "dict_get logging_attributes (upper (getenv_or env ''LOG_LEVEL'' ''INFO'')) = None"
      using that by (simp only: map_of_eq_None_iff set_map not_False_eq_True)
    then show ?thesis using assms(2) by (simp add: log_level_def dict_get_or_def)
  qed
  moreover have "on_cleanup P p = (p\<lparr>op_log := op_log p @ [OperatorStopped]\<rparr>, Inr ())"
    if "\<forall>x. tracer_shutdown P = Some x \<longrightarrow> is_exception x"
    using that by (simp add: on_cleanup_def split: option.split)
  ultimately show ?thesis
    by (simp add: on_startup_def log otel tune_settings_def Let_def split: option.split)
qed

theorem operator_start_and_stop_witness:
  "fst (on_cleanup \<lparr>logging_setup = (\<lambda>_. None), exporter_setup = (\<lambda>_ _. None), tracer_shutdown = Some (AppError ''x'')\<rparr>
      \<lparr>op_settings = \<lparr>persistence_finalizer = [], posting_level = 0, server_timeout = 0\<rparr>, op_log = [], op_level = None\<rparr>) =
    \<lparr>op_settings = \<lparr>persistence_finalizer = [], posting_level = 0, server_timeout = 0\<rparr>, op_log = [OperatorStopped], op_level = None\<rparr>"
proof -
  let ?P = "\<lparr>logging_setup = (\<lambda>_. None), exporter_setup = (\<lambda>_ _. None), tracer_shutdown = Some (AppError ''x'')\<rparr> :: operator_packages"
    and ?p = "\<lparr>op_settings = \<lparr>persistence_finalizer = [], posting_level = 0, server_timeout = 0\<rparr>, op_log = [], op_level = None\<rparr>"
    and ?B = "\<lparr>repr_of = (\<lambda>_. []), float_of_str = Map.empty, int_of_str = [''300'' \<mapsto> 300], dict_of_iter = (\<lambda>_. Inr [])\<rparr>"
  have "log_level Map.empty = Level 20"
    by (simp add: log_level_def getenv_or_def upper_def upper_char_def logging_attributes_def dict_get_or_def)
  moreover have "exporter_setup ?P e s \<noteq> Some x" for e s x by simp
  ultimately show ?thesis using operator_start_and_stop [of ?P Map.empty 20 ?B ?p] by simp
qed

end
