(* ===== verification/Workflow.thy ===== *)
theory Workflow
  imports Messages
begin

text \<open>
  \<open>workflows/base.py\<close> and \<open>workflows/sequential.py\<close>: steps, results, the running of one step and the
  sequential executor. What the agent does with a step is an argument: it returns an output, fails
  with an exception whose text is given, or is stopped by the step's timeout; so are the durations.
  Cancelling a workflow from outside is not modelled.
\<close>

section \<open>Data\<close>

datatype workflow_status = SUCCESS | PARTIAL | FAILED | CANCELLED

record workflow_step =
  step_id :: string
  step_agent :: string
  action :: string
  params :: "(string, json) dict"
  step_timeout :: "rat option"
  depends_on :: "string list"

record step_result =
  sr_step_id :: string
  success :: bool
  step_output :: "(string, json) dict option"
  duration_ms :: rat
  error :: "string option"

record workflow_result =
  step_results :: "step_result list"
  wf_status :: workflow_status
  workflow_id :: string
  wf_duration_ms :: rat

definition successful_steps :: "workflow_result \<Rightarrow> step_result list" where
  "successful_steps r = filter success (step_results r)"

definition failed_steps :: "workflow_result \<Rightarrow> step_result list" where
  "failed_steps r = filter (\<lambda>x. \<not> success x) (step_results r)"

definition is_success :: "workflow_result \<Rightarrow> bool" where
  "is_success r \<longleftrightarrow> wf_status r = SUCCESS"

text \<open>\<open>_make_result\<close>, and the same lines in the executors that do not call it.\<close>

definition overall_status :: "step_result list \<Rightarrow> workflow_status" where
  "overall_status rs =
     (if list_all success rs then SUCCESS else if list_ex success rs then PARTIAL else FAILED)"

definition make_result :: "string \<Rightarrow> rat \<Rightarrow> step_result list \<Rightarrow> workflow_result" where
  "make_result wid dur rs = \<lparr>step_results = rs, wf_status = overall_status rs, workflow_id = wid, wf_duration_ms = dur\<rparr>"

section \<open>Running a step\<close>

datatype call_outcome =
    Returned "(string, json) dict"
  | TimedOut
  | Raised string

record agent_world =
  agent_call :: "workflow_step \<Rightarrow> call_outcome"
  call_duration :: "workflow_step \<Rightarrow> rat"
  timeout_text :: "rat option \<Rightarrow> string"

definition run_step :: "agent_world \<Rightarrow> workflow_step \<Rightarrow> step_result" where
  "run_step A s =
     (case agent_call A s of
        Returned out \<Rightarrow> \<lparr>sr_step_id = step_id s, success = True, step_output = Some out,
                         duration_ms = call_duration A s, error = None\<rparr>
      | TimedOut \<Rightarrow> \<lparr>sr_step_id = step_id s, success = False, step_output = None, duration_ms = call_duration A s,
                     error = Some (timeout_text A (step_timeout s))\<rparr>
      | Raised x \<Rightarrow> \<lparr>sr_step_id = step_id s, success = False, step_output = None, duration_ms = call_duration A s,
                     error = Some x\<rparr>)"

definition skipped :: "string \<Rightarrow> workflow_step \<Rightarrow> step_result" where
  "skipped why s = \<lparr>sr_step_id = step_id s, success = False, step_output = None, duration_ms = 0, error = Some why\<rparr>"

section \<open>The sequential executor\<close>

fun run_in_order :: "agent_world \<Rightarrow> workflow_step list \<Rightarrow> step_result list" where
  "run_in_order A [] = []"
| "run_in_order A (s # ss) =
     (let r = run_step A s in if success r then r # run_in_order A ss else [r])"

definition sequential_execute :: "agent_world \<Rightarrow> string \<Rightarrow> rat \<Rightarrow> workflow_step list \<Rightarrow> workflow_result" where
  "sequential_execute A wid dur steps =
     (if steps = [] then \<lparr>step_results = [], wf_status = SUCCESS, workflow_id = wid, wf_duration_ms = 0\<rparr>
      else let completed = run_in_order A steps
           in \<lparr>step_results = completed, wf_status = (if list_all success completed then SUCCESS else FAILED),
               workflow_id = wid, wf_duration_ms = dur\<rparr>)"

section \<open>Lemmas\<close>

lemma run_step_fields [simp]:
  "sr_step_id (run_step A s) = step_id s" "success (run_step A s) \<longleftrightarrow> (\<exists>out. agent_call A s = Returned out)"
  by (simp_all add: run_step_def split: call_outcome.split)

lemma skipped_fields [simp]: "sr_step_id (skipped w s) = step_id s" "\<not> success (skipped w s)"
  by (simp_all add: skipped_def)

lemma run_in_order_prefix:
  "\<exists>k \<le> length ss. run_in_order A ss = map (run_step A) (take k ss) \<and>
     (\<forall>i. i + 1 < k \<longrightarrow> success (run_step A (ss ! i))) \<and>
     (k < length ss \<longrightarrow> 0 < k \<and> \<not> success (run_step A (ss ! (k - 1))))"
proof (induction ss)
  case (Cons s ss)
  show ?case
  proof (cases "success (run_step A s)")
    case True
    obtain k where k: "k \<le> length ss" "run_in_order A ss = map (run_step A) (take k ss)"
      "\<forall>i. i + 1 < k \<longrightarrow> success (run_step A (ss ! i))"
      "k < length ss \<longrightarrow> 0 < k \<and> \<not> success (run_step A (ss ! (k - 1)))"
      using Cons.IH by blast
    have "success (run_step A ((s # ss) ! i))" if "i + 1 < Suc k" for i
      using that k(3) True by (cases i) (auto simp del: run_step_fields)
    moreover have "Suc k < length (s # ss) \<longrightarrow> \<not> success (run_step A ((s # ss) ! (Suc k - 1)))"
      using k(4) by (cases k) (auto simp del: run_step_fields)
    ultimately show ?thesis
      using k(1,2) True by (intro exI [of _ "Suc k"]) (simp add: Let_def del: run_step_fields)
  next
    case False
    then show ?thesis by (intro exI [of _ 1]) (simp add: Let_def del: run_step_fields)
  qed
qed simp

section \<open>Property\<close>

text \<open>
  The sequential executor runs a prefix of the steps in order and stops at the first failure: all
  results but the last are successes, the last one is a failure unless every step was run, and the
  workflow succeeds exactly when every step succeeds.
\<close>

theorem sequential_stops_at_failure:
  "\<exists>k \<le> length steps. step_results (sequential_execute A wid dur steps) = map (run_step A) (take k steps) \<and>
    (\<forall>i. i + 1 < k \<longrightarrow> success (run_step A (steps ! i))) \<and>
    (if k < length steps then 0 < k \<and> \<not> success (run_step A (steps ! (k - 1))) else True) \<and>
    (wf_status (sequential_execute A wid dur steps) = SUCCESS \<longleftrightarrow> (\<forall>s \<in> set steps. success (run_step A s))) \<and>
    wf_status (sequential_execute A wid dur steps) \<in> {SUCCESS, FAILED}"
proof -
  obtain k where k: "k \<le> length steps" "run_in_order A steps = map (run_step A) (take k steps)"
    "\<forall>i. i + 1 < k \<longrightarrow> success (run_step A (steps ! i))"
    "k < length steps \<longrightarrow> 0 < k \<and> \<not> success (run_step A (steps ! (k - 1)))"
    using run_in_order_prefix by blast
  have all: "list_all success (map (run_step A) (take k steps)) \<longleftrightarrow> (\<forall>s \<in> set steps. success (run_step A s))"
  proof
    assume "list_all success (map (run_step A) (take k steps))"
    then have ok: "\<forall>i < k. success (run_step A (steps ! i))"
      using k(1) by (simp add: list_all_length del: run_step_fields)
    then have "k = length steps" using k(1,4) by (cases "k < length steps") (auto simp del: run_step_fields)
    with ok show "\<forall>s \<in> set steps. success (run_step A s)" by (simp add: all_set_conv_all_nth del: run_step_fields)
  next
    assume "\<forall>s \<in> set steps. success (run_step A s)"
    then show "list_all success (map (run_step A) (take k steps))"
      by (auto simp: list_all_iff dest: in_set_takeD)
  qed
  show ?thesis
  proof (cases "steps = []")
    case True
    then show ?thesis by (simp add: sequential_execute_def)
  next
    case False
    with k all show ?thesis
      by (intro exI [of _ k]) (simp add: sequential_execute_def Let_def del: run_step_fields)
  qed
qed

definition example_step :: "string \<Rightarrow> string list \<Rightarrow> workflow_step" where
  "example_step i ds = \<lparr>step_id = i, step_agent = ''a'', action = ''run'', params = [], step_timeout = None,
     depends_on = ds\<rparr>"

text \<open>Every step succeeds but the one named.\<close>

definition failing :: "string \<Rightarrow> agent_world" where
  "failing i = \<lparr>agent_call = (\<lambda>s. if step_id s = i then Raised ''boom'' else Returned []),
     call_duration = (\<lambda>_. 1), timeout_text = (\<lambda>_. ''timeout'')\<rparr>"

theorem sequential_stops_at_failure_witness:
  "wf_status (sequential_execute (failing ''s2'') ''w'' 3
     [example_step ''s1'' [], example_step ''s2'' [], example_step ''s3'' []]) = FAILED"
proof -
  let ?ss = "[example_step ''s1'' [], example_step ''s2'' [], example_step ''s3'' []]"
  have "\<not> (\<forall>s \<in> set ?ss. success (run_step (failing ''s2'') s))" by (simp add: failing_def example_step_def)
  then show ?thesis using sequential_stops_at_failure [of ?ss "failing ''s2''" "''w''" 3] by blast
qed

end
