(* ===== verification/Parallel_Workflow.thy ===== *)
theory Parallel_Workflow
  imports Workflow
begin

text \<open>
  \<open>workflows/parallel.py\<close>: the check of the dependencies (references and Kahn's algorithm) and the
  execution in waves. A wave runs concurrently, but each step's outcome is that of its own call, so
  a wave is a map over its steps.
\<close>

section \<open>Checking the dependencies\<close>

text \<open>The first reference to a step that does not exist.\<close>

definition unknown_dependency :: "workflow_step list \<Rightarrow> (string \<times> string) option" where
  "unknown_dependency steps =
     List.find (\<lambda>(s, d). d \<notin> step_id ` set steps)
       (concat (map (\<lambda>s. map (\<lambda>d. (step_id s, d)) (depends_on s)) steps))"

text \<open>\<open>in_degree\<close> and \<open>dependents\<close> are default dictionaries.\<close>

definition initial_degrees :: "workflow_step list \<Rightarrow> (string, int) dict" where
  "initial_degrees steps =
     foldl (\<lambda>deg s. dict_set (step_id s) (dict_get_or deg (step_id s) 0 + int (length (depends_on s))) deg) [] steps"

definition add_dependent :: "string \<Rightarrow> (string, string list) dict \<Rightarrow> string \<Rightarrow> (string, string list) dict" where
  "add_dependent s m d = dict_set d (dict_get_or m d [] @ [s]) m"

definition dependents_of :: "workflow_step list \<Rightarrow> (string, string list) dict" where
  "dependents_of steps = foldl (\<lambda>m s. foldl (add_dependent (step_id s)) m (depends_on s)) [] steps"

text \<open>The loop over the dependents of a node: the new degrees and what is appended to the queue.\<close>

fun release :: "string list \<Rightarrow> (string, int) dict \<Rightarrow> (string, int) dict \<times> string list" where
  "release [] deg = (deg, [])"
| "release (x # xs) deg =
     (let n = dict_get_or deg x 0 - 1; (deg', q) = release xs (dict_set x n deg)
      in (deg', if n = 0 then x # q else q))"

text \<open>Every release moves a node from a positive degree into the queue.\<close>

definition positive :: "(string, int) dict \<Rightarrow> nat" where
  "positive deg = length (filter (\<lambda>p. snd p > 0) deg)"

lemma positive_set:
  "positive (dict_set x (dict_get_or deg x 0 - 1) deg) + (if dict_get_or deg x 0 = 1 then 1 else 0) = positive deg"
proof (induction deg)
  case (Cons p deg)
  obtain k v where p: "p = (k, v)" by fastforce
  show ?case
  proof (cases "x = k")
    case True
    then show ?thesis by (simp add: p positive_def dict_get_or_def)
  next
    case False
    then have "dict_get_or (p # deg) x 0 = dict_get_or deg x 0" by (simp add: p dict_get_or_def)
    with Cons False show ?thesis by (simp add: p positive_def split: if_splits)
  qed
qed (simp add: positive_def dict_get_or_def)

lemma release_positive: "length (snd (release xs deg)) + positive (fst (release xs deg)) = positive deg"
proof (induction xs arbitrary: deg)
  case (Cons x xs)
  have "positive (dict_set x (dict_get_or deg x 0 - 1) deg) + (if dict_get_or deg x 0 = 1 then 1 else 0) = positive deg"
    by (rule positive_set)
  with Cons [of "dict_set x (dict_get_or deg x 0 - 1) deg"] show ?case
    by (simp add: Let_def case_prod_beta split: if_splits)
qed simp

text \<open>Kahn's loop: the nodes in the order in which they leave the queue.\<close>

function kahn :: "(string, string list) dict \<Rightarrow> string list \<Rightarrow> (string, int) dict \<Rightarrow> string list" where
  "kahn dependents [] deg = []"
| "kahn dependents (x # queue) deg =
     (let (deg', released) = release (dict_get_or dependents x []) deg
      in x # kahn dependents (queue @ released) deg')"
  by pat_completeness auto
termination
proof (relation "measure (\<lambda>(_, queue, deg). length queue + positive deg)", goal_cases)
  case (2 dependents x queue deg p deg' released)
  then have "fst (release (dict_get_or dependents x []) deg) = deg'"
    "snd (release (dict_get_or dependents x []) deg) = released" by (metis fst_conv, metis snd_conv)
  with release_positive [of "dict_get_or dependents x []" deg] show ?case by simp
qed simp

definition validate_dependencies :: "workflow_step list \<Rightarrow> exn + unit" where
  "validate_dependencies steps =
     (if unknown_dependency steps \<noteq> None then Inl (ValueError ''depends on unknown step'')
      else let deg = initial_degrees steps;
               queue = filter (\<lambda>i. dict_get_or deg i 0 = 0) (map step_id steps);
               visited_count = length (kahn (dependents_of steps) queue deg)
           in if visited_count \<noteq> length steps then Inl (ValueError ''Circular dependency'') else Inr ())"

section \<open>Executing in waves\<close>

type_synonym results = "(string, step_result) dict"

definition completed_deps :: "results \<Rightarrow> workflow_step \<Rightarrow> bool" where
  "completed_deps res s \<longleftrightarrow> list_all (dict_has res) (depends_on s)"

definition failed_dep :: "results \<Rightarrow> workflow_step \<Rightarrow> bool" where
  "failed_dep res s \<longleftrightarrow> list_ex (\<lambda>d. case dict_get res d of None \<Rightarrow> False | Some r \<Rightarrow> \<not> success r) (depends_on s)"

definition ready_steps :: "results \<Rightarrow> workflow_step list \<Rightarrow> workflow_step list" where
  "ready_steps res remaining = filter (\<lambda>s. completed_deps res s \<and> \<not> failed_dep res s) remaining"

definition skip_steps :: "results \<Rightarrow> workflow_step list \<Rightarrow> workflow_step list" where
  "skip_steps res remaining = filter (\<lambda>s. completed_deps res s \<and> failed_dep res s) remaining"

definition store :: "(workflow_step \<Rightarrow> step_result) \<Rightarrow> results \<Rightarrow> workflow_step list \<Rightarrow> results" where
  "store f = foldl (\<lambda>res s. dict_set (step_id s) (f s) res)"

text \<open>A wave that runs or skips a step leaves fewer steps.\<close>

abbreviation after_wave :: "results \<Rightarrow> workflow_step list \<Rightarrow> workflow_step list" where
  "after_wave res remaining \<equiv> fold remove1 (ready_steps res remaining) (fold remove1 (skip_steps res remaining) remaining)"

lemma fold_remove1_length: "length (fold remove1 ys xs) \<le> length xs"
proof (induction ys arbitrary: xs)
  case (Cons y ys)
  have "length (remove1 y xs) \<le> length xs" by (simp add: length_remove1)
  with Cons [of "remove1 y xs"] show ?case by simp
qed simp

lemma fold_remove1_shorter:
  assumes "ys \<noteq> []" "set ys \<subseteq> set xs"
  shows "length (fold remove1 ys xs) < length xs"
proof (cases ys)
  case (Cons y zs)
  with assms have y: "y \<in> set xs" by simp
  then have "length (remove1 y xs) < length xs" using length_pos_if_in_set [OF y] by (simp add: length_remove1)
  with Cons fold_remove1_length [of zs "remove1 y xs"] show ?thesis by simp
qed (use assms in simp)

lemma after_wave_shorter:
  assumes "\<not> (ready_steps res remaining = [] \<and> skip_steps res remaining = [])"
  shows "length (after_wave res remaining) < length remaining"
proof (cases "skip_steps res remaining = []")
  case True
  with assms fold_remove1_shorter [of "ready_steps res remaining" remaining] show ?thesis by (auto simp: ready_steps_def)
next
  case False
  then have "length (fold remove1 (skip_steps res remaining) remaining) < length remaining"
    by (rule fold_remove1_shorter) (auto simp: skip_steps_def)
  with fold_remove1_length [of "ready_steps res remaining" "fold remove1 (skip_steps res remaining) remaining"]
  show ?thesis by simp
qed

function waves :: "agent_world \<Rightarrow> workflow_step list \<Rightarrow> results \<Rightarrow> results" where
  "waves A remaining res =
     (if remaining = [] then res
      else let ready = ready_steps res remaining; skip_now = skip_steps res remaining in
        if ready = [] \<and> skip_now = [] then res
        else waves A (fold remove1 ready (fold remove1 skip_now remaining))
               (store (run_step A) (store (skipped ''dependency_failed'') res skip_now) ready))"
  by pat_completeness auto
termination
  by (relation "measure (\<lambda>(_, remaining, _). length remaining)") (simp_all add: after_wave_shorter)

declare waves.simps [simp del]

definition parallel_execute :: "agent_world \<Rightarrow> string \<Rightarrow> rat \<Rightarrow> workflow_step list \<Rightarrow> exn + workflow_result" where
  "parallel_execute A wid dur steps =
     (if steps = [] then Inr \<lparr>step_results = [], wf_status = SUCCESS, workflow_id = wid, wf_duration_ms = 0\<rparr>
      else case validate_dependencies steps of
        Inl x \<Rightarrow> Inl x
      | Inr _ \<Rightarrow>
          (let results = waves A steps [];
               ordered = List.map_filter (\<lambda>s. dict_get results (step_id s)) steps
           in Inr (make_result wid dur ordered)))"

section \<open>Lemmas: Kahn's algorithm\<close>

text \<open>The dependency relation of a workflow, and the dependencies of a step by its id.\<close>

definition depends :: "workflow_step list \<Rightarrow> (string \<times> string) set" where
  "depends steps = {(d, i). \<exists>s \<in> set steps. step_id s = i \<and> d \<in> set (depends_on s)}"

definition deps_of :: "workflow_step list \<Rightarrow> string \<Rightarrow> string list" where
  "deps_of steps i = concat (map depends_on (filter (\<lambda>s. step_id s = i) steps))"

lemma deps_of_set: "d \<in> set (deps_of steps i) \<longleftrightarrow> (d, i) \<in> depends steps"
  by (auto simp: deps_of_def depends_def)

lemma deps_of_step:
  assumes "distinct (map step_id steps)" "s \<in> set steps"
  shows "deps_of steps (step_id s) = depends_on s"
proof -
  have "filter (\<lambda>x. step_id x = step_id s) steps = [s]"
    using assms
  proof (induction steps)
    case (Cons x xs)
    show ?case
    proof (cases "x = s")
      case True
      with Cons.prems(1) have "step_id s \<notin> step_id ` set xs" by simp
      then have "filter (\<lambda>x. step_id x = step_id s) xs = []" by (metis (mono_tags, lifting) filter_False imageI)
      with True show ?thesis by simp
    next
      case False
      with Cons.prems have "s \<in> set xs" "distinct (map step_id xs)" "step_id x \<notin> step_id ` set xs" by auto
      with Cons.IH show ?thesis by force
    qed
  qed simp
  then show ?thesis by (simp add: deps_of_def)
qed

lemma depends_finite: "finite (depends steps)"
proof -
  have "depends steps = (\<Union>s \<in> set steps. set (depends_on s) \<times> {step_id s})" by (auto simp: depends_def)
  then show ?thesis by simp
qed

lemma initial_degrees_get: "dict_get_or (initial_degrees steps) i 0 = int (length (deps_of steps i))"
proof -
  have "dict_get_or (foldl (\<lambda>deg s. dict_set (step_id s) (dict_get_or deg (step_id s) 0 + int (length (depends_on s))) deg)
      deg steps) i 0 = dict_get_or deg i 0 + int (length (deps_of steps i))" for deg
    by (induction steps arbitrary: deg) (simp_all add: deps_of_def dict_get_or_set)
  then show ?thesis by (simp add: initial_degrees_def dict_get_or_def)
qed

lemma dependents_count: "count_list (dict_get_or (dependents_of steps) d []) i = count_list (deps_of steps i) d"
proof -
  have inner: "count_list (dict_get_or (foldl (add_dependent j) m ds) d []) i =
      count_list (dict_get_or m d []) i + (if j = i then count_list ds d else 0)" for j m ds
    by (induction ds arbitrary: m) (simp_all add: add_dependent_def dict_get_or_set)
  have "count_list (dict_get_or (foldl (\<lambda>m s. foldl (add_dependent (step_id s)) m (depends_on s)) m steps) d []) i =
      count_list (dict_get_or m d []) i + count_list (deps_of steps i) d" for m
    by (induction steps arbitrary: m) (simp_all add: inner deps_of_def)
  then show ?thesis by (simp add: dependents_of_def dict_get_or_def)
qed

lemma release_degrees: "dict_get_or (fst (release xs deg)) y 0 = dict_get_or deg y 0 - int (count_list xs y)"
  by (induction xs arbitrary: deg) (simp_all add: Let_def case_prod_beta dict_get_or_set)

lemma release_released:
  assumes "\<And>y. y \<in> set xs \<Longrightarrow> int (count_list xs y) \<le> dict_get_or deg y 0"
  shows "distinct (snd (release xs deg)) \<and>
    set (snd (release xs deg)) = {y \<in> set xs. dict_get_or deg y 0 = int (count_list xs y)}"
  using assms
proof (induction xs arbitrary: deg)
  case (Cons x xs)
  let ?n = "dict_get_or deg x 0 - 1" and ?deg = "dict_set x (dict_get_or deg x 0 - 1) deg"
  have IH: "distinct (snd (release xs ?deg)) \<and>
    set (snd (release xs ?deg)) = {y \<in> set xs. dict_get_or ?deg y 0 = int (count_list xs y)}"
  proof (rule Cons.IH)
    fix y assume "y \<in> set xs"
    then show "int (count_list xs y) \<le> dict_get_or ?deg y 0"
      using Cons.prems [of y] by (simp add: dict_get_or_set split: if_splits)
  qed
  have zero: "x \<notin> set xs" if "?n = 0"
    using that Cons.prems [of x] by (auto simp: count_list_0_iff)
  let ?R = "snd (release xs ?deg)"
  have set_R: "y \<in> set ?R \<longleftrightarrow> y \<in> set xs \<and> dict_get_or deg y 0 = int (count_list (x # xs) y)" for y
    using IH by (cases "y = x") (auto simp: dict_get_or_set)
  have unfold: "snd (release (x # xs) deg) = (if ?n = 0 then x # ?R else ?R)"
    by (simp add: Let_def case_prod_beta)
  show ?case
  proof (cases "?n = 0")
    case True
    with zero have x: "x \<notin> set xs" by simp
    then have "count_list xs x = 0" by (simp add: count_list_0_iff)
    with True have "y \<in> set (x # ?R) \<longleftrightarrow> y \<in> set (x # xs) \<and> dict_get_or deg y 0 = int (count_list (x # xs) y)" for y
      using set_R [of y] x by (cases "y = x") simp_all
    then have "set (x # ?R) = {y \<in> set (x # xs). dict_get_or deg y 0 = int (count_list (x # xs) y)}" by blast
    moreover have "distinct (x # ?R)" using IH set_R [of x] x by simp
    ultimately show ?thesis using True unfold by simp
  next
    case False
    have "x \<in> set xs" if "dict_get_or deg x 0 = int (count_list (x # xs) x)"
      using that False by (cases "x \<in> set xs") (simp_all add: count_list_0_iff)
    then have "y \<in> set ?R \<longleftrightarrow> y \<in> set (x # xs) \<and> dict_get_or deg y 0 = int (count_list (x # xs) y)" for y
      using set_R [of y] by (cases "y = x") auto
    then have "set ?R = {y \<in> set (x # xs). dict_get_or deg y 0 = int (count_list (x # xs) y)}" by blast
    then show ?thesis using False unfold IH by simp
  qed
qed simp

definition kahn_inv ::
    "workflow_step list \<Rightarrow> string list \<Rightarrow> string list \<Rightarrow> (string, int) dict \<Rightarrow> bool" where
  "kahn_inv steps V queue deg \<longleftrightarrow> distinct (V @ queue) \<and> set (V @ queue) \<subseteq> step_id ` set steps \<and>
     (\<forall>i. dict_get_or deg i 0 = int (length (filter (\<lambda>d. d \<notin> set V) (deps_of steps i)))) \<and>
     (\<forall>i \<in> step_id ` set steps. i \<in> set (V @ queue) \<longleftrightarrow> dict_get_or deg i 0 = 0) \<and>
     (\<forall>ys i zs. V = ys @ i # zs \<longrightarrow> set (deps_of steps i) \<subseteq> set ys)"

lemma kahn_invD:
  assumes "kahn_inv steps V queue deg"
  shows "distinct (V @ queue)" "set (V @ queue) \<subseteq> step_id ` set steps"
    "dict_get_or deg i 0 = int (length (filter (\<lambda>d. d \<notin> set V) (deps_of steps i)))"
    "i \<in> step_id ` set steps \<Longrightarrow> i \<in> set (V @ queue) \<longleftrightarrow> dict_get_or deg i 0 = 0"
    "V = ys @ i # zs \<Longrightarrow> set (deps_of steps i) \<subseteq> set ys"
  using assms [unfolded kahn_inv_def] by (elim conjE; simp only:; fail)+

lemma kahn_inv_step:
  assumes inv: "kahn_inv steps V (x # queue) deg"
    and rel: "release (dict_get_or (dependents_of steps) x []) deg = (deg', released)"
  shows "kahn_inv steps (V @ [x]) (queue @ released) deg'"
proof -
  let ?G = "dict_get_or (dependents_of steps) x []" and ?I = "step_id ` set steps"
  note fresh = kahn_invD(1) [OF inv] and sub = kahn_invD(2) [OF inv] and deg = kahn_invD(3) [OF inv]
    and member = kahn_invD(4) [OF inv] and topo = kahn_invD(5) [OF inv]
  have x: "x \<notin> set V" "x \<in> ?I" using fresh sub by simp_all
  then have x0: "dict_get_or deg x 0 = 0" using member [of x] by simp
  have split: "length (filter (\<lambda>d. d \<notin> set V) ds) = length (filter (\<lambda>d. d \<notin> set (V @ [x])) ds) + count_list ds x" for ds
    using x(1) by (induction ds) auto
  have new: "dict_get_or deg' i 0 = int (length (filter (\<lambda>d. d \<notin> set (V @ [x])) (deps_of steps i)))" for i
    using release_degrees [of ?G deg i] rel deg [of i] split [of "deps_of steps i"]
    by (simp add: dependents_count)
  have "int (count_list ?G y) \<le> dict_get_or deg y 0" for y
    using deg [of y] split [of "deps_of steps y"] by (simp add: dependents_count)
  then have released: "distinct released" "set released = {y \<in> set ?G. dict_get_or deg y 0 = int (count_list ?G y)}"
    using release_released [of ?G deg] rel by simp_all
  have pos: "y \<in> set ?G \<longleftrightarrow> 0 < count_list ?G y" for y using count_list_0_iff [of ?G y] by auto
  have in_I: "y \<in> ?I" if "y \<in> set ?G" for y
  proof -
    have "x \<in> set (deps_of steps y)" using that pos [of y] count_list_0_iff [of "deps_of steps y" x]
      by (auto simp: dependents_count)
    then show ?thesis by (auto simp: deps_of_set depends_def)
  qed
  have rel_pos: "0 < dict_get_or deg y 0" if "y \<in> set released" for y
    using that released(2) pos [of y] by simp
  have disj: "y \<notin> set (V @ x # queue)" if "y \<in> set released" for y
  proof -
    have "y \<in> ?I" using that in_I released(2) by simp
    then show ?thesis using member [of y] rel_pos [OF that] by simp
  qed
  have 1: "distinct ((V @ [x]) @ queue @ released)" using fresh released(1) disj by auto
  have 2: "set ((V @ [x]) @ queue @ released) \<subseteq> ?I"
  proof -
    have "set released \<subseteq> ?I" using in_I released(2) by blast
    with sub show ?thesis by simp
  qed
  have 3: "i \<in> set ((V @ [x]) @ queue @ released) \<longleftrightarrow> dict_get_or deg' i 0 = 0" if i: "i \<in> ?I" for i
  proof -
    have d': "dict_get_or deg' i 0 = dict_get_or deg i 0 - int (count_list ?G i)"
      using release_degrees [of ?G deg i] rel by simp
    have "i \<in> set released \<longleftrightarrow> 0 < count_list ?G i \<and> dict_get_or deg i 0 = int (count_list ?G i)"
      using released(2) pos [of i] by simp
    then have "i \<in> set released \<longleftrightarrow> 0 < dict_get_or deg i 0 \<and> dict_get_or deg' i 0 = 0"
      unfolding d' by presburger
    moreover have "0 \<le> dict_get_or deg' i 0" using new by simp
    moreover have "dict_get_or deg i 0 = 0 \<Longrightarrow> dict_get_or deg' i 0 = 0" using d' calculation(2) by simp
    ultimately show ?thesis using member [OF i] deg [of i] by (cases "dict_get_or deg i 0 = 0") simp_all
  qed
  have 4: "set (deps_of steps i) \<subseteq> set ys" if "V @ [x] = ys @ i # zs" for ys i zs
  proof (cases zs rule: rev_cases)
    case Nil
    then have "ys = V" "i = x" using that by simp_all
    moreover have "set (deps_of steps x) \<subseteq> set V" using deg [of x] x0 by (auto simp: filter_empty_conv)
    ultimately show ?thesis by simp
  next
    case (snoc us u)
    then have "V = ys @ i # us" using that by simp
    then show ?thesis by (rule topo)
  qed
  show ?thesis unfolding kahn_inv_def by (intro conjI allI ballI impI 1 2 3 4 new)
qed

lemma kahn_final:
  "kahn_inv steps V queue deg \<Longrightarrow> \<exists>deg'. kahn_inv steps (V @ kahn (dependents_of steps) queue deg) [] deg'"
proof (induction "dependents_of steps" queue deg arbitrary: V rule: kahn.induct)
  case (1 deg)
  then show ?case by auto
next
  case (2 x queue deg)
  obtain deg1 released where rel: "release (dict_get_or (dependents_of steps) x []) deg = (deg1, released)" by fastforce
  have "\<exists>deg'. kahn_inv steps ((V @ [x]) @ kahn (dependents_of steps) (queue @ released) deg1) [] deg'"
    by (rule 2(1) [OF rel [symmetric] refl kahn_inv_step [OF 2(2) rel]])
  moreover have "V @ kahn (dependents_of steps) (x # queue) deg =
      (V @ [x]) @ kahn (dependents_of steps) (queue @ released) deg1" by (simp add: rel)
  ultimately show ?case by (simp only:)
qed

lemma kahn_start:
  assumes "distinct (map step_id steps)"
  shows "kahn_inv steps [] (filter (\<lambda>i. dict_get_or (initial_degrees steps) i 0 = 0) (map step_id steps)) (initial_degrees steps)"
  unfolding kahn_inv_def
proof (intro conjI allI ballI impI)
  show "distinct ([] @ filter (\<lambda>i. dict_get_or (initial_degrees steps) i 0 = 0) (map step_id steps))"
    using distinct_filter [OF assms, of "\<lambda>i. dict_get_or (initial_degrees steps) i 0 = 0"] by (simp only: append_Nil)
qed (auto simp: initial_degrees_get)

lemma unknown_dependency_None: "unknown_dependency steps = None \<longleftrightarrow> (\<forall>(d, i) \<in> depends steps. d \<in> step_id ` set steps)"
  unfolding unknown_dependency_def find_None_iff depends_def by fastforce

text \<open>What Kahn's loop visits when it has gone through a workflow.\<close>

lemma kahn_order_acyclic:
  assumes inv: "kahn_inv steps V [] deg" and all: "set V = step_id ` set steps"
  shows "acyclic (depends steps)"
proof -
  define idx where "idx x = length (takeWhile (\<lambda>y. y \<noteq> x) V)" for x
  have "(d, i) \<in> measure idx" if "(d, i) \<in> depends steps" for d i
  proof -
    have "i \<in> set V" using that all by (auto simp: depends_def)
    then obtain ys zs where V: "V = ys @ i # zs" "i \<notin> set ys" by (meson split_list_first)
    have "d \<in> set ys" using kahn_invD(5) [OF inv V(1)] that deps_of_set by fastforce
    then have "idx d < length ys" unfolding idx_def V(1) by (induction ys) auto
    moreover have "idx i = length ys" unfolding idx_def V(1) using V(2)
      by (subst takeWhile_append2) auto
    ultimately show ?thesis by simp
  qed
  then have "depends steps \<subseteq> measure idx" by auto
  then show ?thesis using wf_acyclic wf_measure wf_subset by blast
qed

lemma kahn_visits_acyclic:
  assumes inv: "kahn_inv steps V [] deg" and acyclic: "acyclic (depends steps)"
    and known: "\<forall>(d, i) \<in> depends steps. d \<in> step_id ` set steps"
  shows "set V = step_id ` set steps"
proof (rule ccontr)
  assume "set V \<noteq> step_id ` set steps"
  then obtain q where "q \<in> step_id ` set steps - set V" using kahn_invD(2) [OF inv] by auto
  then obtain z where z: "z \<in> step_id ` set steps - set V"
    and least: "\<And>y. (y, z) \<in> depends steps \<Longrightarrow> y \<notin> step_id ` set steps - set V"
    using finite_acyclic_wf [OF depends_finite acyclic] by (metis wfE_min)
  have "d \<in> set V" if "d \<in> set (deps_of steps z)" for d
    using that least known by (auto simp: deps_of_set)
  then have "filter (\<lambda>d. d \<notin> set V) (deps_of steps z) = []" by (simp add: filter_empty_conv)
  then have "dict_get_or deg z 0 = 0" using kahn_invD(3) [OF inv, of z] by simp
  then show False using kahn_invD(4) [OF inv, of z] z by simp
qed

lemma validate_correct:
  assumes distinct: "distinct (map step_id steps)"
  shows "validate_dependencies steps =
    (if \<not> (\<forall>(d, i) \<in> depends steps. d \<in> step_id ` set steps) then Inl (ValueError ''depends on unknown step'')
     else if \<not> acyclic (depends steps) then Inl (ValueError ''Circular dependency'')
     else Inr ())"
proof (cases "\<forall>(d, i) \<in> depends steps. d \<in> step_id ` set steps")
  case known: True
  let ?q = "filter (\<lambda>i. dict_get_or (initial_degrees steps) i 0 = 0) (map step_id steps)"
  let ?V = "kahn (dependents_of steps) ?q (initial_degrees steps)"
  obtain deg where inv: "kahn_inv steps ([] @ ?V) [] deg" using kahn_final [OF kahn_start [OF distinct]] ..
  then have inv: "kahn_inv steps ?V [] deg" by simp
  have "card (set ?V) = length ?V" using kahn_invD(1) [OF inv] by (simp add: distinct_card)
  moreover have "card (step_id ` set steps) = length steps" using distinct_card [OF distinct] by simp
  moreover have "set ?V \<subseteq> step_id ` set steps" using kahn_invD(2) [OF inv] by simp
  ultimately have "length ?V = length steps \<longleftrightarrow> set ?V = step_id ` set steps"
    by (metis card_subset_eq finite_imageI finite_set)
  also have "\<dots> \<longleftrightarrow> acyclic (depends steps)"
    using kahn_order_acyclic [OF inv] kahn_visits_acyclic [OF inv _ known] by blast
  finally show ?thesis using known unknown_dependency_None [of steps]
    by (simp add: validate_dependencies_def Let_def)
next
  case False
  then show ?thesis using unknown_dependency_None [of steps] by (simp add: validate_dependencies_def)
qed

text \<open>
  C22: The dependency check of the parallel executor is exact: for steps with distinct ids, Kahn's
  algorithm accepts a workflow exactly when every dependency names a step of it and the dependency
  relation has no cycle; otherwise the workflow is rejected with a ValueError.
\<close>

theorem validate_exact:
  assumes distinct: "distinct (map step_id steps)"
  shows "validate_dependencies steps =
    (if \<not> (\<forall>(d, i) \<in> depends steps. d \<in> step_id ` set steps) then Inl (ValueError ''depends on unknown step'')
     else if \<not> acyclic (depends steps) then Inl (ValueError ''Circular dependency'')
     else Inr ())"
  by (rule validate_correct [OF distinct])

section \<open>Lemmas: the waves\<close>

text \<open>
  A step is settled when all its dependencies have a result and its own is the one they call for.
  The loop keeps: the remaining steps have no result, the others are settled.
\<close>

definition settled :: "string \<Rightarrow> agent_world \<Rightarrow> results \<Rightarrow> workflow_step \<Rightarrow> bool" where
  "settled why A res s \<longleftrightarrow> completed_deps res s \<and>
     dict_get res (step_id s) = Some (if failed_dep res s then skipped why s else run_step A s)"

definition progress :: "string \<Rightarrow> agent_world \<Rightarrow> workflow_step list \<Rightarrow> workflow_step set \<Rightarrow> results \<Rightarrow> bool" where
  "progress why A steps todo res \<longleftrightarrow>
     (\<forall>s \<in> set steps. if s \<in> todo then dict_get res (step_id s) = None else settled why A res s)"

definition waves_inv :: "agent_world \<Rightarrow> workflow_step list \<Rightarrow> workflow_step list \<Rightarrow> results \<Rightarrow> bool" where
  "waves_inv A steps remaining res \<longleftrightarrow> distinct remaining \<and> set remaining \<subseteq> set steps \<and>
     progress ''dependency_failed'' A steps (set remaining) res"

lemma fold_remove1:
  "distinct xs \<Longrightarrow> distinct (fold remove1 ys xs) \<and> set (fold remove1 ys xs) = set xs - set ys"
  by (induction ys arbitrary: xs) auto

lemma store_other: "k \<notin> step_id ` set ss \<Longrightarrow> dict_get (store f res ss) k = dict_get res k"
  by (induction ss arbitrary: res) (simp_all add: store_def)

lemma store_get: "distinct (map step_id ss) \<Longrightarrow> s \<in> set ss \<Longrightarrow> dict_get (store f res ss) (step_id s) = Some (f s)"
proof (induction ss arbitrary: res)
  case (Cons x ss)
  have unfold: "store f res (x # ss) = store f (dict_set (step_id x) (f x) res) ss" by (simp add: store_def)
  show ?case
  proof (cases "s = x")
    case True
    then show ?thesis using Cons.prems unfold by (simp add: store_other)
  next
    case False
    then show ?thesis using Cons unfold by simp
  qed
qed simp

text \<open>Results are only added, so what is known of completed dependencies stays.\<close>

lemma completed_deps_extend:
  assumes "completed_deps res s" and "\<And>d. dict_has res d \<Longrightarrow> dict_get res' d = dict_get res d"
  shows "completed_deps res' s \<and> failed_dep res' s = failed_dep res s"
proof -
  have same: "dict_get res' d = dict_get res d" "dict_get res d \<noteq> None" if "d \<in> set (depends_on s)" for d
    using that assms by (auto simp: completed_deps_def list_all_iff dict_has_def)
  then have "failed_dep res' s = failed_dep res s" by (simp add: failed_dep_def list_ex_iff)
  moreover have "completed_deps res' s" using same by (simp add: completed_deps_def list_all_iff dict_has_def)
  ultimately show ?thesis by simp
qed

text \<open>Running a batch of steps whose dependencies are completed settles them, in whichever executor.\<close>

lemma batch_progress:
  assumes inv: "progress why A steps todo res" and ids: "distinct (map step_id steps)"
    and todo: "todo \<subseteq> set steps" and batch: "distinct batch" "set batch \<subseteq> todo" "\<And>s. s \<in> set batch \<Longrightarrow> completed_deps res s"
  defines "ready \<equiv> filter (\<lambda>s. \<not> failed_dep res s) batch" and "skip \<equiv> filter (failed_dep res) batch"
  defines "res' \<equiv> store (run_step A) (store (skipped why) res skip) ready"
  shows "progress why A steps (todo - set batch) res'"
proof -
  have old: "\<And>s. s \<in> set steps \<Longrightarrow> if s \<in> todo then dict_get res (step_id s) = None else settled why A res s"
    using inv unfolding progress_def by blast
  have inj: "inj_on step_id (set steps)" using ids by (simp add: distinct_map)
  have part: "set ready \<union> set skip = set batch" "set ready \<inter> set skip = {}" by (auto simp: ready_def skip_def)
  have dist: "distinct (map step_id ready)" "distinct (map step_id skip)"
    using batch(1,2) todo inj unfolding ready_def skip_def by (auto simp: distinct_map intro: inj_on_subset)
  have id_in: "step_id s \<in> step_id ` X \<longleftrightarrow> s \<in> X" if "s \<in> set steps" "X \<subseteq> set batch" for s X
    using inj_on_image_mem_iff [OF inj, of s X] that todo batch(2) by blast
  have keep: "dict_get res' k = dict_get res k" if "k \<notin> step_id ` set batch" for k
    using that unfolding res'_def part(1) [symmetric] by (simp add: store_other image_Un)
  have has: "dict_get res' k = dict_get res k" if "dict_has res k" for k
  proof (rule keep, rule notI)
    assume "k \<in> step_id ` set batch"
    then obtain t where "t \<in> todo" "k = step_id t" using batch(2) by blast
    then show False using old [of t] todo that by (auto simp: dict_has_def)
  qed
  have ran: "dict_get res' (step_id s) = Some (run_step A s)" if "s \<in> set ready" for s
    unfolding res'_def by (rule store_get [OF dist(1) that])
  have skipped: "dict_get res' (step_id s) = Some (skipped why s)" if s: "s \<in> set skip" for s
  proof -
    have "step_id s \<notin> step_id ` set ready" using id_in [of s "set ready"] s part todo batch(2) by blast
    then show ?thesis unfolding res'_def by (simp add: store_other store_get [OF dist(2) s])
  qed
  have "settled why A res' s" if s: "s \<in> set steps" "s \<notin> todo - set batch" for s
  proof (cases "s \<in> set batch")
    case True
    then have "dict_get res' (step_id s) = Some (if failed_dep res s then skipped why s else run_step A s)"
      using ran [of s] skipped [of s] by (simp add: ready_def skip_def)
    then show ?thesis using completed_deps_extend [of res s res'] batch(3) [OF True] has by (simp add: settled_def)
  next
    case False
    then have st: "settled why A res s" using old [OF s(1)] s(2) by simp
    then have "dict_has res (step_id s)" by (simp add: settled_def dict_has_def)
    with st show ?thesis using completed_deps_extend [of res s res'] has by (simp add: settled_def)
  qed
  moreover have "dict_get res' (step_id s) = None" if s: "s \<in> set steps" "s \<in> todo - set batch" for s
    using keep [of "step_id s"] id_in [OF s(1), of "set batch"] s old [OF s(1)] by auto
  ultimately show ?thesis unfolding progress_def by simp
qed

lemma waves_inv_step:
  assumes inv: "waves_inv A steps remaining res" and ids: "distinct (map step_id steps)"
  defines "ready \<equiv> ready_steps res remaining" and "skip \<equiv> skip_steps res remaining"
  shows "waves_inv A steps (fold remove1 ready (fold remove1 skip remaining))
    (store (run_step A) (store (skipped ''dependency_failed'') res skip) ready)"
proof -
  let ?batch = "filter (completed_deps res) remaining"
  have d: "distinct remaining" and sub: "set remaining \<subseteq> set steps"
    and prog: "progress ''dependency_failed'' A steps (set remaining) res"
    using inv unfolding waves_inv_def by blast+
  have batch: "ready = filter (\<lambda>s. \<not> failed_dep res s) ?batch" "skip = filter (failed_dep res) ?batch"
    by (simp_all add: ready_def skip_def ready_steps_def skip_steps_def conj_commute)
  then have parts: "set skip \<union> set ready = set ?batch" by auto
  have rest: "distinct (fold remove1 ready (fold remove1 skip remaining))"
    "set (fold remove1 ready (fold remove1 skip remaining)) = set remaining - set ?batch"
    using fold_remove1 [OF d, of skip] fold_remove1 [of "fold remove1 skip remaining" ready] parts by auto
  have "progress ''dependency_failed'' A steps (set remaining - set ?batch)
      (store (run_step A) (store (skipped ''dependency_failed'') res skip) ready)"
    unfolding batch by (rule batch_progress [OF prog ids sub]) (simp_all add: d)
  then show ?thesis unfolding waves_inv_def rest(2) using rest(1) sub by blast
qed

lemma waves_no_stall:
  assumes inv: "waves_inv A steps remaining res" and acyclic: "acyclic (depends steps)"
    and known: "\<forall>(d, i) \<in> depends steps. d \<in> step_id ` set steps" and "remaining \<noteq> []"
  shows "ready_steps res remaining \<noteq> [] \<or> skip_steps res remaining \<noteq> []"
proof -
  have sub: "set remaining \<subseteq> set steps"
    and old: "\<And>s. s \<in> set steps \<Longrightarrow> s \<notin> set remaining \<Longrightarrow> dict_has res (step_id s)"
    using inv unfolding waves_inv_def progress_def by (auto simp: settled_def dict_has_def split: if_splits)
  obtain q where "q \<in> step_id ` set remaining" using assms(4) by (cases remaining) auto
  then obtain z where z: "z \<in> step_id ` set remaining"
    and least: "\<And>y. (y, z) \<in> depends steps \<Longrightarrow> y \<notin> step_id ` set remaining"
    using finite_acyclic_wf [OF depends_finite acyclic] by (metis wfE_min)
  then obtain s where s: "s \<in> set remaining" "z = step_id s" by blast
  have "dict_has res d" if "d \<in> set (depends_on s)" for d
  proof -
    have dep: "(d, z) \<in> depends steps" using that s sub by (auto simp: depends_def)
    then obtain t where t: "t \<in> set steps" "d = step_id t" using known by auto
    then have "t \<notin> set remaining" using least [OF dep] by auto
    with t old show ?thesis by simp
  qed
  then have "completed_deps res s" by (simp add: completed_deps_def list_all_iff)
  then have "s \<in> set (ready_steps res remaining) \<or> s \<in> set (skip_steps res remaining)"
    using s(1) by (simp add: ready_steps_def skip_steps_def)
  then show ?thesis by auto
qed

lemma waves_settle:
  assumes "waves_inv A steps remaining res" and "distinct (map step_id steps)" and "acyclic (depends steps)"
    and "\<forall>(d, i) \<in> depends steps. d \<in> step_id ` set steps"
  shows "waves_inv A steps [] (waves A remaining res)"
  using assms
proof (induction A remaining res rule: waves.induct)
  case (1 A remaining res)
  show ?case
  proof (cases "remaining = []")
    case True
    then show ?thesis using 1 by (simp add: waves.simps [of A "[]"])
  next
    case False
    have move: "\<not> (ready_steps res remaining = [] \<and> skip_steps res remaining = [])"
      using waves_no_stall [OF 1(2,4,5) False] by blast
    show ?thesis
      using 1(1) [OF False refl refl move waves_inv_step [OF 1(2,3)] 1(3,4,5)] False move
      unfolding waves.simps [of A remaining] Let_def by (simp only: if_False simp_thms)
  qed
qed

lemma map_filter_all: "(\<And>x. x \<in> set xs \<Longrightarrow> f x = Some (g x)) \<Longrightarrow> List.map_filter f xs = map g xs"
  by (induction xs) (simp_all add: List.map_filter_simps)

text \<open>The results of a workflow all of whose steps are settled.\<close>

definition outcome_spec :: "string \<Rightarrow> agent_world \<Rightarrow> workflow_step list \<Rightarrow> (workflow_step \<Rightarrow> step_result) \<Rightarrow> bool" where
  "outcome_spec why A steps r \<longleftrightarrow> (\<forall>s \<in> set steps. r s =
     (if \<forall>t \<in> set steps. step_id t \<in> set (depends_on s) \<longrightarrow> success (r t) then run_step A s else skipped why s))"

lemma settled_outcomes:
  assumes prog: "progress why A steps {} res" and known: "\<forall>(d, i) \<in> depends steps. d \<in> step_id ` set steps"
  defines "r \<equiv> \<lambda>s. the (dict_get res (step_id s))"
  shows "List.map_filter (\<lambda>s. dict_get res (step_id s)) steps = map r steps" "outcome_spec why A steps r"
proof -
  have settled: "settled why A res s" if "s \<in> set steps" for s using prog that by (simp add: progress_def)
  then have get: "dict_get res (step_id s) = Some (r s)" if "s \<in> set steps" for s
    using that by (simp add: r_def settled_def)
  show "List.map_filter (\<lambda>s. dict_get res (step_id s)) steps = map r steps"
    by (rule map_filter_all) (rule get)
  have failed: "failed_dep res s \<longleftrightarrow> \<not> (\<forall>t \<in> set steps. step_id t \<in> set (depends_on s) \<longrightarrow> success (r t))"
    if s: "s \<in> set steps" for s
  proof -
    have "\<exists>t \<in> set steps. step_id t = d" if "d \<in> set (depends_on s)" for d
      using that s known by (fastforce simp: depends_def)
    then show ?thesis using get unfolding failed_dep_def list_ex_iff by fastforce
  qed
  have "r s = (if \<forall>t \<in> set steps. step_id t \<in> set (depends_on s) \<longrightarrow> success (r t)
        then run_step A s else skipped why s)" if "s \<in> set steps" for s
    using settled [OF that] get [OF that] unfolding settled_def failed [OF that]
    by (simp only: if_not_P split: if_splits) simp_all
  then show "outcome_spec why A steps r" by (simp add: outcome_spec_def)
qed

lemma parallel_result:
  assumes ids: "distinct (map step_id steps)" and ok: "validate_dependencies steps = Inr ()"
  obtains w r where "parallel_execute A wid dur steps = Inr w" "step_results w = map r steps"
    "wf_status w = overall_status (map r steps)" "outcome_spec ''dependency_failed'' A steps r"
proof -
  have known: "\<forall>(d, i) \<in> depends steps. d \<in> step_id ` set steps" and acyclic: "acyclic (depends steps)"
    using validate_correct [OF ids] ok by (simp_all split: if_splits)
  have "waves_inv A steps steps []" using ids by (simp add: waves_inv_def progress_def distinct_map)
  then have "waves_inv A steps [] (waves A steps [])" using waves_settle ids acyclic known by blast
  then have prog: "progress ''dependency_failed'' A steps {} (waves A steps [])" by (simp add: waves_inv_def)
  note r = settled_outcomes [OF prog known]
  let ?r = "\<lambda>s. the (dict_get (waves A steps []) (step_id s))"
  let ?w = "make_result wid (if steps = [] then 0 else dur) (map ?r steps)"
  show thesis
  proof (rule that [of ?w ?r])
    show "parallel_execute A wid dur steps = Inr ?w"
      using r(1) ok by (cases "steps = []") (simp_all add: parallel_execute_def make_result_def overall_status_def)
  qed (simp_all add: make_result_def r(2))
qed

text \<open>
  C8: On a workflow with distinct step ids that passes the dependency check, the parallel executor
  always finishes without stalling and reports exactly one result per step, in the order of the
  steps: a step whose dependencies all succeeded was run, any other step is reported as skipped
  with \<open>dependency_failed\<close>; the status summarises these results.
\<close>

theorem parallel_outcomes:
  assumes ids: "distinct (map step_id steps)" and ok: "validate_dependencies steps = Inr ()"
  shows "\<exists>w r. parallel_execute A wid dur steps = Inr w \<and> step_results w = map r steps \<and>
    wf_status w = overall_status (map r steps) \<and>
    (\<forall>s \<in> set steps. r s =
       (if \<forall>t \<in> set steps. step_id t \<in> set (depends_on s) \<longrightarrow> success (r t)
        then run_step A s else skipped ''dependency_failed'' s))"
proof -
  obtain w r where *: "parallel_execute A wid dur steps = Inr w" "step_results w = map r steps"
    "wf_status w = overall_status (map r steps)" "outcome_spec ''dependency_failed'' A steps r"
    using parallel_result [OF ids ok] by metis
  show ?thesis using *(1,2,3) *(4) [unfolded outcome_spec_def] by (intro exI [of _ w] exI [of _ r] conjI)
qed

lemmas validate_example = validate_dependencies_def unknown_dependency_def initial_degrees_def dependents_of_def
  add_dependent_def example_step_def dict_get_or_def

theorem parallel_outcomes_witness:
  "\<exists>w. parallel_execute (failing ''a'') ''w'' 3 [example_step ''b'' [''a''], example_step ''a'' []] = Inr w \<and>
    length (step_results w) = 2"
proof -
  let ?ss = "[example_step ''b'' [''a''], example_step ''a'' []]"
  have "distinct (map step_id ?ss)" by (simp add: example_step_def)
  moreover have "validate_dependencies ?ss = Inr ()" by (simp add: validate_example)
  ultimately show ?thesis using parallel_outcomes [of ?ss "failing ''a''" "''w''" 3] by force
qed

theorem validate_exact_witness:
  "validate_dependencies [example_step ''b'' [''a''], example_step ''a'' [''b'']] = Inl (ValueError ''Circular dependency'') \<and>
   \<not> acyclic (depends [example_step ''b'' [''a''], example_step ''a'' [''b'']])"
proof -
  let ?ss = "[example_step ''b'' [''a''], example_step ''a'' [''b'']]"
  have run: "validate_dependencies ?ss = Inl (ValueError ''Circular dependency'')" by (simp add: validate_example)
  have "distinct (map step_id ?ss)" by (simp add: example_step_def)
  from validate_exact [OF this] run show ?thesis by (simp split: if_splits)
qed

end
