(* ===== verification/Hierarchical_Workflow.thy ===== *)
theory Hierarchical_Workflow
  imports Parallel_Workflow
begin

text \<open>
  \<open>workflows/hierarchical.py\<close>: the check of the dependencies by a depth-first search with colours, the
  memoised computation of the depth of every step, and the execution level by level. The two
  recursive functions of the source get the number of steps as fuel, which stands for the depth of
  the call stack; the lemmas show that it is enough, so that running out of it never happens.
\<close>

section \<open>Cycle detection\<close>

datatype colour = WHITE | GRAY | BLACK

type_synonym colours = "(string, colour) dict"

definition initial_colours :: "workflow_step list \<Rightarrow> colours" where
  "initial_colours steps = foldl (\<lambda>c s. dict_set (step_id s) WHITE c) [] steps"

primrec dfs :: "nat \<Rightarrow> (string, string list) dict \<Rightarrow> string \<Rightarrow> colours \<Rightarrow> exn + colours" where
  "dfs 0 dependents node color = Inl RecursionError"
| "dfs (Suc fuel) dependents node color =
     and_then
       (each (\<lambda>neighbor c.
          case dict_get c neighbor of
            None \<Rightarrow> Inl (KeyError neighbor)
          | Some GRAY \<Rightarrow> Inl (ValueError ''Circular dependency'')
          | Some WHITE \<Rightarrow> dfs fuel dependents neighbor c
          | Some BLACK \<Rightarrow> Inr c)
        (dict_get_or dependents node []) (dict_set node GRAY color))
       (\<lambda>c. Inr (dict_set node BLACK c))"

definition validate_hierarchy :: "workflow_step list \<Rightarrow> exn + colours" where
  "validate_hierarchy steps =
     (if unknown_dependency steps \<noteq> None then Inl (ValueError ''depends on unknown step'')
      else each (\<lambda>s c. if dict_get c (step_id s) = Some WHITE
                       then dfs (length steps) (dependents_of steps) (step_id s) c else Inr c)
             steps (initial_colours steps))"

section \<open>Levels\<close>

definition step_map :: "workflow_step list \<Rightarrow> (string, workflow_step) dict" where
  "step_map steps = foldl (\<lambda>m s. dict_set (step_id s) s m) [] steps"

type_synonym depths = "(string, nat) dict"

text \<open>\<open>max\<close> over the dependencies asks for each depth in turn, threading the memo.\<close>

primrec get_depth :: "nat \<Rightarrow> (string, workflow_step) dict \<Rightarrow> string \<Rightarrow> depths \<Rightarrow> exn + (nat \<times> depths)" where
  "get_depth 0 m i depth = Inl RecursionError"
| "get_depth (Suc fuel) m i depth =
     (case dict_get depth i of
        Some d \<Rightarrow> Inr (d, depth)
      | None \<Rightarrow>
          (case dict_get m i of
             None \<Rightarrow> Inl (KeyError i)
           | Some s \<Rightarrow>
               if depends_on s = [] then Inr (0, dict_set i 0 depth)
               else and_then
                 (each (\<lambda>d (hi, depth). and_then (get_depth fuel m d depth) (\<lambda>(k, depth'). Inr (max hi k, depth')))
                    (depends_on s) (0, depth))
                 (\<lambda>(hi, depth'). Inr (Suc hi, dict_set i (Suc hi) depth'))))"

definition compute_depths :: "workflow_step list \<Rightarrow> exn + depths" where
  "compute_depths steps =
     each (\<lambda>s depth. and_then (get_depth (length steps) (step_map steps) (step_id s) depth) (\<lambda>(_, depth'). Inr depth'))
       steps []"

text \<open>Every step has a depth when the levels are filled.\<close>

definition put_level :: "depths \<Rightarrow> workflow_step list list \<Rightarrow> workflow_step \<Rightarrow> workflow_step list list" where
  "put_level depth levels s =
     (let k = dict_get_or depth (step_id s) 0 in levels[k := levels ! k @ [s]])"

definition compute_levels :: "workflow_step list \<Rightarrow> exn + workflow_step list list" where
  "compute_levels steps =
     and_then (compute_depths steps) (\<lambda>depth.
       let max_depth = fold max (dict_values depth) 0
       in Inr (foldl (put_level depth) (replicate (max_depth + 1) []) steps))"

section \<open>Execution\<close>

definition run_level :: "agent_world \<Rightarrow> results \<Rightarrow> workflow_step list \<Rightarrow> results" where
  "run_level A res level_steps =
     (let to_run = filter (\<lambda>s. \<not> failed_dep res s) level_steps; to_skip = filter (failed_dep res) level_steps
      in store (run_step A) (store (skipped ''parent_step_failed'') res to_skip) to_run)"

definition hierarchical_execute :: "agent_world \<Rightarrow> string \<Rightarrow> rat \<Rightarrow> workflow_step list \<Rightarrow> exn + workflow_result" where
  "hierarchical_execute A wid dur steps =
     (if steps = [] then Inr \<lparr>step_results = [], wf_status = SUCCESS, workflow_id = wid, wf_duration_ms = 0\<rparr>
      else and_then (validate_hierarchy steps) (\<lambda>_.
           and_then (compute_levels steps) (\<lambda>levels.
             let results = foldl (run_level A) [] levels;
                 ordered = List.map_filter (\<lambda>s. dict_get results (step_id s)) steps
             in Inr (make_result wid dur ordered))))"

section \<open>Lemmas: the depth-first search\<close>

lemma dependents_set: "i \<in> set (dict_get_or (dependents_of steps) d []) \<longleftrightarrow> (d, i) \<in> depends steps"
  using dependents_count [of steps d i] count_list_0_iff [of "dict_get_or (dependents_of steps) d []" i]
    count_list_0_iff [of "deps_of steps i" d] deps_of_set [of d steps i] by metis

definition having :: "colour \<Rightarrow> colours \<Rightarrow> string set" where
  "having k c = {i. dict_get c i = Some k}"

lemma having_finite [simp]: "finite (having k c)"
  by (rule finite_subset [OF _ finite_dom_map_of [of c]]) (auto simp: having_def)

lemma having_set: "having k (dict_set i k' c) = (if k = k' then insert i (having k c) else having k c - {i})"
  by (auto simp: having_def)

text \<open>
  The contract of a visit. Before: the grey nodes lead to the node, the black ones reach no cycle.
  After: either a cycle was found, or the nodes asked for are black too and the grey ones are as
  before.
\<close>

definition visit_pre :: "(string \<times> string) set \<Rightarrow> nat \<Rightarrow> string \<Rightarrow> colours \<Rightarrow> bool" where
  "visit_pre E fuel n c \<longleftrightarrow> (\<forall>g \<in> having GRAY c. (g, n) \<in> E\<^sup>*) \<and> having BLACK c \<subseteq> Wellfounded.acc (E\<inverse>) \<and>
     card (having WHITE c) \<le> fuel \<and> Range E \<subseteq> dom (dict_get c)"

definition visit_post :: "(string \<times> string) set \<Rightarrow> string set \<Rightarrow> colours \<Rightarrow> exn + colours \<Rightarrow> bool" where
  "visit_post E N c res \<longleftrightarrow>
     (case res of
        Inl x \<Rightarrow> x = ValueError ''Circular dependency'' \<and> \<not> acyclic E
      | Inr c' \<Rightarrow> having GRAY c' = having GRAY c \<and> having BLACK c \<union> N \<subseteq> having BLACK c' \<and>
          having BLACK c' \<subseteq> Wellfounded.acc (E\<inverse>) \<and> dom (dict_get c') = dom (dict_get c))"

lemma visit_postD:
  assumes "visit_post E N c (Inr c')"
  shows "having GRAY c' = having GRAY c" "having BLACK c \<subseteq> having BLACK c'" "N \<subseteq> having BLACK c'"
    "having BLACK c' \<subseteq> Wellfounded.acc (E\<inverse>)" "dom (dict_get c') = dom (dict_get c)" "having WHITE c' \<subseteq> having WHITE c"
proof -
  show *: "having GRAY c' = having GRAY c" "having BLACK c \<subseteq> having BLACK c'" "N \<subseteq> having BLACK c'"
    "having BLACK c' \<subseteq> Wellfounded.acc (E\<inverse>)" "dom (dict_get c') = dom (dict_get c)"
    using assms by (simp_all add: visit_post_def)
  show "having WHITE c' \<subseteq> having WHITE c"
  proof
    fix i assume i: "i \<in> having WHITE c'"
    then have "i \<in> dom (dict_get c)" using *(5) by (auto simp: having_def)
    then obtain k where k: "dict_get c i = Some k" by blast
    have "i \<notin> having GRAY c'" "i \<notin> having BLACK c'" using i by (simp_all add: having_def)
    with *(1,2) have "i \<notin> having GRAY c" "i \<notin> having BLACK c" by blast+
    with k show "i \<in> having WHITE c" by (cases k) (simp_all add: having_def)
  qed
qed

lemma visit_pre_after:
  assumes "visit_pre E fuel n c" "visit_post E N c (Inr c')"
  shows "visit_pre E fuel n c'"
proof -
  have "card (having WHITE c') \<le> card (having WHITE c)" by (rule card_mono) (simp_all add: visit_postD [OF assms(2)])
  then show ?thesis using assms(1) visit_postD [OF assms(2)] unfolding visit_pre_def by auto
qed

lemma visit_post_trans:
  assumes "visit_post E N c (Inr c')" "visit_post E M c' res"
  shows "visit_post E (N \<union> M) c res"
  using assms by (cases res) (auto simp: visit_post_def)

text \<open>The loop over the neighbours of a grey node.\<close>

abbreviation look :: "(string \<Rightarrow> colours \<Rightarrow> exn + colours) \<Rightarrow> string \<Rightarrow> colours \<Rightarrow> exn + colours" where
  "look visit \<equiv> \<lambda>neighbor c.
     case dict_get c neighbor of
       None \<Rightarrow> Inl (KeyError neighbor)
     | Some GRAY \<Rightarrow> Inl (ValueError ''Circular dependency'')
     | Some WHITE \<Rightarrow> visit neighbor c
     | Some BLACK \<Rightarrow> Inr c"

lemma look_visit:
  assumes pre: "visit_pre E fuel n c" and edge: "(n, i) \<in> E"
    and visit: "\<And>i. dict_get c i = Some WHITE \<Longrightarrow> visit_pre E fuel i c \<Longrightarrow> visit_post E {i} c (visit i c)"
  shows "visit_post E {i} c (look visit i c)"
proof -
  have "i \<in> dom (dict_get c)" using pre edge unfolding visit_pre_def by blast
  then obtain k where k: "dict_get c i = Some k" by blast
  show ?thesis
  proof (cases k)
    case WHITE
    have "(g, i) \<in> E\<^sup>*" if "g \<in> having GRAY c" for g
    proof -
      have "(g, n) \<in> E\<^sup>*" using pre that unfolding visit_pre_def by blast
      then show ?thesis using edge by (rule rtrancl_into_rtrancl)
    qed
    then have "visit_pre E fuel i c" using pre unfolding visit_pre_def by blast
    then show ?thesis using visit [of i] k WHITE by simp
  next
    case GRAY
    then have "(i, n) \<in> E\<^sup>*" using pre k unfolding visit_pre_def by (auto simp: having_def)
    then have "(i, i) \<in> E\<^sup>+" using edge by (rule rtrancl_into_trancl1)
    then show ?thesis using k GRAY by (auto simp: visit_post_def acyclic_def)
  next
    case BLACK
    then show ?thesis using pre k unfolding visit_post_def visit_pre_def by (auto simp: having_def)
  qed
qed

lemma each_look:
  assumes "visit_pre E fuel n c" and "\<forall>i \<in> set ns. (n, i) \<in> E"
    and visit: "\<And>i c. dict_get c i = Some WHITE \<Longrightarrow> visit_pre E fuel i c \<Longrightarrow> visit_post E {i} c (visit i c)"
  shows "visit_post E (set ns) c (each (look visit) ns c)"
  using assms(1,2)
proof (induction ns arbitrary: c)
  case Nil
  then show ?case by (simp add: visit_post_def visit_pre_def)
next
  case (Cons i ns)
  have one: "visit_post E {i} c (look visit i c)"
    by (rule look_visit [OF Cons.prems(1)]) (use Cons.prems(2) visit in auto)
  show ?case
  proof (cases "look visit i c")
    case (Inl x)
    then show ?thesis using one by (simp add: visit_post_def)
  next
    case (Inr c')
    have one': "visit_post E {i} c (Inr c')" using one unfolding Inr .
    have "visit_post E (set ns) c' (each (look visit) ns c')"
      by (rule Cons.IH [OF visit_pre_after [OF Cons.prems(1) one']]) (use Cons.prems(2) in simp)
    then have "visit_post E ({i} \<union> set ns) c (each (look visit) ns c')" by (rule visit_post_trans [OF one'])
    then show ?thesis using Inr by simp
  qed
qed

lemma dfs_visit:
  assumes "visit_pre (depends steps) fuel n c" "dict_get c n = Some WHITE"
  shows "visit_post (depends steps) {n} c (dfs fuel (dependents_of steps) n c)"
  using assms
proof (induction fuel arbitrary: n c)
  case 0
  then have "card (having WHITE c) = 0" "n \<in> having WHITE c" by (simp_all add: visit_pre_def having_def)
  then show ?case by simp
next
  case (Suc fuel)
  let ?E = "depends steps" and ?c = "dict_set n GRAY c" and ?ns = "dict_get_or (dependents_of steps) n []"
  let ?r = "each (look (dfs fuel (dependents_of steps))) ?ns ?c"
  have n: "n \<in> having WHITE c" "n \<notin> having BLACK c" "n \<notin> having GRAY c" using Suc.prems(2) by (simp_all add: having_def)
  have card: "card (having WHITE ?c) \<le> fuel"
  proof -
    have "card (having WHITE c - {n}) < card (having WHITE c)" by (rule card_Diff1_less) (simp_all add: n)
    then show ?thesis using Suc.prems(1) unfolding visit_pre_def by (simp add: having_set)
  qed
  have "visit_pre ?E fuel n ?c"
    using Suc.prems(1) card unfolding visit_pre_def by (auto simp: having_set)
  then have post: "visit_post ?E (set ?ns) ?c ?r"
    by (rule each_look) (simp_all add: dependents_set Suc.IH)
  show ?case
  proof (cases ?r)
    case (Inl x)
    then show ?thesis using post by (simp add: visit_post_def)
  next
    case (Inr c')
    note p = visit_postD [OF post [unfolded Inr]]
    have "having GRAY (dict_set n BLACK c') = having GRAY c"
      using p(1) n by (simp add: having_set)
    moreover have "having BLACK c \<union> {n} \<subseteq> having BLACK (dict_set n BLACK c')"
      using p(2) n by (auto simp: having_set)
    moreover have "n \<in> Wellfounded.acc (?E\<inverse>)"
    proof (rule accI)
      fix y assume "(y, n) \<in> ?E\<inverse>"
      then have "y \<in> set ?ns" by (simp add: dependents_set)
      then show "y \<in> Wellfounded.acc (?E\<inverse>)" using p(3,4) by blast
    qed
    then have "having BLACK (dict_set n BLACK c') \<subseteq> Wellfounded.acc (?E\<inverse>)" using p(4) by (simp add: having_set)
    moreover have "dom (dict_get (dict_set n BLACK c')) = dom (dict_get c)"
      using p(5) Suc.prems(2) by auto
    ultimately show ?thesis using Inr by (simp add: visit_post_def)
  qed
qed

lemma initial_colours_get: "dict_get (initial_colours steps) i = (if i \<in> step_id ` set steps then Some WHITE else None)"
proof -
  have "dict_get (foldl (\<lambda>c s. dict_set (step_id s) WHITE c) c steps) i =
      (if i \<in> step_id ` set steps then Some WHITE else dict_get c i)" for c
    by (induction steps arbitrary: c) auto
  then show ?thesis by (simp add: initial_colours_def)
qed

text \<open>The outer loop starts a search at every step that is still white.\<close>

lemma search_all:
  assumes "visit_pre (depends steps) fuel n c" "having GRAY c = {}" "\<forall>s \<in> set ss. step_id s \<in> dom (dict_get c)"
  shows "visit_post (depends steps) (step_id ` set ss) c
    (each (\<lambda>s c. if dict_get c (step_id s) = Some WHITE then dfs fuel (dependents_of steps) (step_id s) c else Inr c) ss c)"
    (is "visit_post _ _ _ (each ?f ss c)")
  using assms
proof (induction ss arbitrary: c)
  case Nil
  then show ?case by (simp add: visit_post_def visit_pre_def)
next
  case (Cons s ss)
  have pre: "visit_pre (depends steps) fuel (step_id s) c"
    using Cons.prems(1,2) by (simp add: visit_pre_def)
  have one: "visit_post (depends steps) {step_id s} c (?f s c)"
  proof (cases "dict_get c (step_id s) = Some WHITE")
    case True
    then show ?thesis using dfs_visit [OF pre] by simp
  next
    case False
    obtain k where k: "dict_get c (step_id s) = Some k" using Cons.prems(3) by auto
    moreover have "k \<noteq> GRAY" using Cons.prems(2) k by (auto simp: having_def)
    ultimately have "step_id s \<in> having BLACK c" using False by (cases k) (simp_all add: having_def)
    then show ?thesis using False pre by (simp add: visit_post_def visit_pre_def)
  qed
  show ?case
  proof (cases "?f s c")
    case (Inl x)
    then show ?thesis using one by (simp add: visit_post_def)
  next
    case (Inr c')
    have one': "visit_post (depends steps) {step_id s} c (Inr c')" using one unfolding Inr .
    have "visit_post (depends steps) (step_id ` set ss) c' (each ?f ss c')"
      using Cons.IH [OF visit_pre_after [OF Cons.prems(1) one']] Cons.prems(2,3) visit_postD [OF one'] by simp
    then have "visit_post (depends steps) ({step_id s} \<union> step_id ` set ss) c (each ?f ss c')"
      by (rule visit_post_trans [OF one'])
    then show ?thesis using Inr by simp
  qed
qed

text \<open>
  The depth-first check of the hierarchical executor gives the verdict of Kahn's algorithm in the
  parallel one.
\<close>

lemma validate_hierarchy_correct:
  "case validate_hierarchy steps of
     Inl x \<Rightarrow> x = (if \<not> (\<forall>(d, i) \<in> depends steps. d \<in> step_id ` set steps) then ValueError ''depends on unknown step''
                 else ValueError ''Circular dependency'') \<and>
              \<not> ((\<forall>(d, i) \<in> depends steps. d \<in> step_id ` set steps) \<and> acyclic (depends steps))
   | Inr _ \<Rightarrow> (\<forall>(d, i) \<in> depends steps. d \<in> step_id ` set steps) \<and> acyclic (depends steps)"
proof (cases "\<forall>(d, i) \<in> depends steps. d \<in> step_id ` set steps")
  case known: True
  let ?E = "depends steps" and ?c = "initial_colours steps"
  let ?r = "each (\<lambda>s c. if dict_get c (step_id s) = Some WHITE then dfs (length steps) (dependents_of steps) (step_id s) c
     else Inr c) steps ?c"
  have white: "having WHITE ?c = step_id ` set steps" "having GRAY ?c = {}" "having BLACK ?c = {}"
    by (auto simp: having_def initial_colours_get)
  have "card (step_id ` set steps) \<le> length steps" using card_length [of "map step_id steps"] by simp
  moreover have "Range ?E \<subseteq> dom (dict_get ?c)" by (auto simp: initial_colours_get depends_def)
  ultimately have "visit_pre ?E (length steps) [] ?c" by (simp add: visit_pre_def white)
  then have post: "visit_post ?E (step_id ` set steps) ?c ?r"
    by (rule search_all) (auto simp: white initial_colours_get)
  have run: "validate_hierarchy steps = ?r" using known unknown_dependency_None [of steps]
    by (simp add: validate_hierarchy_def)
  show ?thesis
  proof (cases ?r)
    case (Inl x)
    then show ?thesis using post known unfolding run by (simp add: visit_post_def)
  next
    case (Inr c)
    note p = visit_postD [OF post [unfolded Inr]]
    have "x \<in> Wellfounded.acc (?E\<inverse>)" for x
    proof (cases "x \<in> step_id ` set steps")
      case True
      then show ?thesis using p(3,4) by blast
    next
      case False
      then show ?thesis using known by (intro accI [of x]) auto
    qed
    then have "wf (?E\<inverse>)" by (simp add: wf_iff_acc)
    then have "acyclic ?E" using wf_acyclic acyclic_converse by blast
    then show ?thesis using known Inr unfolding run by simp
  qed
next
  case False
  then show ?thesis using unknown_dependency_None [of steps] by (simp add: validate_hierarchy_def)
qed

section \<open>Lemmas: depths and levels\<close>

lemma step_map_get:
  assumes "distinct (map step_id steps)" "s \<in> set steps"
  shows "dict_get (step_map steps) (step_id s) = Some s"
proof -
  have other: "dict_get (foldl (\<lambda>m s. dict_set (step_id s) s m) m ss) i = dict_get m i" if "i \<notin> step_id ` set ss"
    for m :: "(string, workflow_step) dict" and ss i
    using that by (induction ss arbitrary: m) simp_all
  have "dict_get (foldl (\<lambda>m s. dict_set (step_id s) s m) m steps) (step_id s) = Some s" for m
    using assms
  proof (induction steps arbitrary: m)
    case (Cons x xs)
    then show ?case by (cases "s = x") (simp_all add: other)
  qed simp
  then show ?thesis by (simp add: step_map_def)
qed

text \<open>How many steps come before one: the recursion depth its computation needs.\<close>

definition rank :: "workflow_step list \<Rightarrow> string \<Rightarrow> nat" where
  "rank steps i = card {j. (j, i) \<in> (depends steps)\<^sup>+}"

lemma ancestors_finite: "finite {j. (j, i) \<in> (depends steps)\<^sup>+}"
proof (rule finite_subset)
  show "{j. (j, i) \<in> (depends steps)\<^sup>+} \<subseteq> Domain (depends steps)" by (auto dest: tranclD)
  show "finite (Domain (depends steps))" by (simp add: depends_finite finite_Domain)
qed

lemma rank_less:
  assumes "acyclic (depends steps)" "(d, i) \<in> depends steps"
  shows "rank steps d < rank steps i"
  unfolding rank_def
proof (rule psubset_card_mono [OF ancestors_finite])
  have "d \<in> {j. (j, i) \<in> (depends steps)\<^sup>+}" "d \<notin> {j. (j, d) \<in> (depends steps)\<^sup>+}"
    using assms by (auto simp: acyclic_def)
  moreover have "{j. (j, d) \<in> (depends steps)\<^sup>+} \<subseteq> {j. (j, i) \<in> (depends steps)\<^sup>+}"
    using assms(2) by (auto intro: trancl_into_trancl)
  ultimately show "{j. (j, d) \<in> (depends steps)\<^sup>+} \<subset> {j. (j, i) \<in> (depends steps)\<^sup>+}" by blast
qed

lemma rank_bound:
  assumes "acyclic (depends steps)" "\<forall>(d, i) \<in> depends steps. d \<in> step_id ` set steps" "i \<in> step_id ` set steps"
  shows "rank steps i < length steps"
proof -
  have "j \<in> step_id ` set steps - {i}" if j: "(j, i) \<in> (depends steps)\<^sup>+" for j
  proof -
    obtain k where "(j, k) \<in> depends steps" using tranclD [OF j] by blast
    then have "j \<in> step_id ` set steps" using assms(2) by auto
    moreover have "j \<noteq> i" using j assms(1) by (auto simp: acyclic_def)
    ultimately show ?thesis by simp
  qed
  then have "rank steps i \<le> card (step_id ` set steps - {i})"
    unfolding rank_def by (intro card_mono) auto
  also have "\<dots> < card (step_id ` set steps)" using assms(3) by (intro card_Diff1_less) simp_all
  also have "\<dots> \<le> length steps" using card_length [of "map step_id steps"] by simp
  finally show ?thesis .
qed

text \<open>
  The memo holds correct depths: a step without dependencies is at depth 0, any other one level
  below its deepest dependency.
\<close>

definition depths_ok :: "workflow_step list \<Rightarrow> depths \<Rightarrow> bool" where
  "depths_ok steps depth \<longleftrightarrow> (\<forall>s \<in> set steps. \<forall>k. dict_get depth (step_id s) = Some k \<longrightarrow>
     (\<forall>d \<in> set (depends_on s). \<exists>j < k. dict_get depth d = Some j) \<and>
     (k = 0 \<or> (\<exists>d \<in> set (depends_on s). dict_get depth d = Some (k - 1))))"

text \<open>What computing one depth, or those of a list of dependencies from a maximum so far, gives.\<close>

definition depth_post :: "workflow_step list \<Rightarrow> string \<Rightarrow> depths \<Rightarrow> exn + (nat \<times> depths) \<Rightarrow> bool" where
  "depth_post steps i depth res \<longleftrightarrow>
     (\<exists>k depth'. res = Inr (k, depth') \<and> dict_get depth \<subseteq>\<^sub>m dict_get depth' \<and> depths_ok steps depth' \<and>
        dict_get depth' i = Some k)"

definition deepest_post :: "workflow_step list \<Rightarrow> string list \<Rightarrow> nat \<Rightarrow> depths \<Rightarrow> exn + (nat \<times> depths) \<Rightarrow> bool" where
  "deepest_post steps ds hi depth res \<longleftrightarrow>
     (\<exists>k depth'. res = Inr (k, depth') \<and> dict_get depth \<subseteq>\<^sub>m dict_get depth' \<and> depths_ok steps depth' \<and> hi \<le> k \<and>
        (\<forall>d \<in> set ds. \<exists>j \<le> k. dict_get depth' d = Some j) \<and> (k = hi \<or> (\<exists>d \<in> set ds. dict_get depth' d = Some k)))"

lemma map_leD: "m \<subseteq>\<^sub>m m' \<Longrightarrow> m k = Some v \<Longrightarrow> m' k = Some v"
  unfolding map_le_def by (metis domI)

lemma depths_ok_set:
  assumes ok: "depths_ok steps depth" and "\<And>j. dict_get depth i = Some j \<Longrightarrow> j = k"
    and new: "\<And>s. s \<in> set steps \<Longrightarrow> step_id s = i \<Longrightarrow> (\<forall>d \<in> set (depends_on s). \<exists>j < k. dict_get depth d = Some j) \<and>
      (k = 0 \<or> (\<exists>d \<in> set (depends_on s). dict_get depth d = Some (k - 1)))"
  shows "depths_ok steps (dict_set i k depth)"
  unfolding depths_ok_def
proof (intro ballI allI impI)
  fix t m assume t: "t \<in> set steps" "dict_get (dict_set i k depth) (step_id t) = Some m"
  have keep: "dict_get depth \<subseteq>\<^sub>m dict_get (dict_set i k depth)"
    using assms(2) unfolding map_le_def by auto
  have "(\<forall>d \<in> set (depends_on t). \<exists>j < m. dict_get depth d = Some j) \<and>
      (m = 0 \<or> (\<exists>d \<in> set (depends_on t). dict_get depth d = Some (m - 1)))"
  proof (cases "step_id t = i")
    case True
    then have m: "m = k" using t(2) by simp
    show ?thesis unfolding m by (rule new [OF t(1) True])
  next
    case False
    then show ?thesis using t ok unfolding depths_ok_def by simp
  qed
  then show "(\<forall>d \<in> set (depends_on t). \<exists>j < m. dict_get (dict_set i k depth) d = Some j) \<and>
      (m = 0 \<or> (\<exists>d \<in> set (depends_on t). dict_get (dict_set i k depth) d = Some (m - 1)))"
    using map_leD [OF keep] by meson
qed

lemma deepest:
  assumes "\<And>d depth. d \<in> set ds \<Longrightarrow> depths_ok steps depth \<Longrightarrow> depth_post steps d depth (f d depth)"
    and "depths_ok steps depth"
  shows "deepest_post steps ds hi depth
    (each (\<lambda>d (hi, depth). and_then (f d depth) (\<lambda>(k, depth'). Inr (max hi k, depth'))) ds (hi, depth))"
    (is "deepest_post _ _ _ _ (each ?g ds (hi, depth))")
  using assms
proof (induction ds arbitrary: hi depth)
  case Nil
  then show ?case by (simp add: deepest_post_def)
next
  case (Cons d ds)
  have "depth_post steps d depth (f d depth)" by (rule Cons.prems(1)) (simp_all add: Cons.prems(2))
  then obtain k depth1 where one: "f d depth = Inr (k, depth1)" "dict_get depth \<subseteq>\<^sub>m dict_get depth1"
    "depths_ok steps depth1" "dict_get depth1 d = Some k"
    unfolding depth_post_def by blast
  have "deepest_post steps ds (max hi k) depth1 (each ?g ds (max hi k, depth1))"
    by (rule Cons.IH [OF Cons.prems(1) one(3)]) simp_all
  then obtain m depth2 where two: "each ?g ds (max hi k, depth1) = Inr (m, depth2)" "dict_get depth1 \<subseteq>\<^sub>m dict_get depth2"
    "depths_ok steps depth2" "max hi k \<le> m" "\<forall>d \<in> set ds. \<exists>j \<le> m. dict_get depth2 d = Some j"
    "m = max hi k \<or> (\<exists>d \<in> set ds. dict_get depth2 d = Some m)"
    unfolding deepest_post_def by blast
  have d: "dict_get depth2 d = Some k" by (rule map_leD [OF two(2) one(4)])
  have "each ?g (d # ds) (hi, depth) = Inr (m, depth2)" using one(1) two(1) by simp
  moreover have "dict_get depth \<subseteq>\<^sub>m dict_get depth2" using one(2) two(2) by (rule map_le_trans)
  moreover have "\<forall>x \<in> set (d # ds). \<exists>j \<le> m. dict_get depth2 x = Some j" using two(4,5) d by auto
  moreover have "m = hi \<or> (\<exists>x \<in> set (d # ds). dict_get depth2 x = Some m)" using two(6) d by (cases "hi \<le> k") auto
  ultimately show ?case using two(3,4) unfolding deepest_post_def by auto
qed

lemma get_depth_correct:
  assumes ids: "distinct (map step_id steps)" and acyclic: "acyclic (depends steps)"
    and known: "\<forall>(d, i) \<in> depends steps. d \<in> step_id ` set steps"
  shows "i \<in> step_id ` set steps \<Longrightarrow> rank steps i < fuel \<Longrightarrow> depths_ok steps depth \<Longrightarrow>
    depth_post steps i depth (get_depth fuel (step_map steps) i depth)"
proof (induction fuel arbitrary: i depth)
  case (Suc fuel)
  show ?case
  proof (cases "dict_get depth i")
    case (Some k)
    then show ?thesis using Suc.prems(3) by (simp add: depth_post_def)
  next
    case None
    obtain s where s: "s \<in> set steps" "i = step_id s" using Suc.prems(1) by blast
    have get: "dict_get (step_map steps) i = Some s" using step_map_get [OF ids s(1)] s(2) by simp
    have same: "t = s" if "t \<in> set steps" "step_id t = i" for t
      using ids that s by (auto simp: distinct_map inj_on_def)
    show ?thesis
    proof (cases "depends_on s = []")
      case True
      have "depths_ok steps (dict_set i 0 depth)"
        by (rule depths_ok_set [OF Suc.prems(3)]) (use same True None in simp_all)
      moreover have "dict_get depth \<subseteq>\<^sub>m dict_get (dict_set i 0 depth)" using None by (auto simp: map_le_def)
      ultimately show ?thesis using None get True by (simp add: depth_post_def)
    next
      case False
      let ?f = "get_depth fuel (step_map steps)"
      have sub: "depth_post steps d depth (?f d depth)"
        if d: "d \<in> set (depends_on s)" "depths_ok steps depth" for d depth
      proof (rule Suc.IH [OF _ _ d(2)])
        have dep: "(d, i) \<in> depends steps" using d(1) s by (auto simp: depends_def)
        then show "d \<in> step_id ` set steps" using known by auto
        show "rank steps d < fuel" using rank_less [OF acyclic dep] Suc.prems(2) by simp
      qed
      obtain k depth' where deps:
        "each (\<lambda>d (hi, depth). and_then (?f d depth) (\<lambda>(k, depth'). Inr (max hi k, depth'))) (depends_on s) (0, depth) =
           Inr (k, depth')"
        "dict_get depth \<subseteq>\<^sub>m dict_get depth'" "depths_ok steps depth'"
        "\<forall>d \<in> set (depends_on s). \<exists>j \<le> k. dict_get depth' d = Some j"
        "k = 0 \<or> (\<exists>d \<in> set (depends_on s). dict_get depth' d = Some k)"
        using deepest [of "depends_on s" steps ?f depth 0, OF sub Suc.prems(3)] unfolding deepest_post_def by blast
      have attained: "\<exists>d \<in> set (depends_on s). dict_get depth' d = Some k"
        using deps(4,5) False by (metis le_zero_eq list.set_intros(1) neq_Nil_conv)
      have again: "j = Suc k" if j: "dict_get depth' i = Some j" for j
      proof -
        have "\<forall>d \<in> set (depends_on s). \<exists>m < j. dict_get depth' d = Some m"
          and "j = 0 \<or> (\<exists>d \<in> set (depends_on s). dict_get depth' d = Some (j - 1))"
          using deps(3) s j unfolding depths_ok_def by blast+
        then have "k < j" "j - 1 \<le> k" using attained deps(4) by fastforce+
        then show ?thesis by simp
      qed
      have keep: "dict_get depth' \<subseteq>\<^sub>m dict_get (dict_set i (Suc k) depth')"
        using again unfolding map_le_def by auto
      have ok: "depths_ok steps (dict_set i (Suc k) depth')"
        by (rule depths_ok_set [OF deps(3)]) (use again same deps(4) attained in \<open>auto simp: less_Suc_eq_le\<close>)
      have "get_depth (Suc fuel) (step_map steps) i depth = Inr (Suc k, dict_set i (Suc k) depth')"
        using None get False deps(1) by simp
      moreover have "dict_get depth \<subseteq>\<^sub>m dict_get (dict_set i (Suc k) depth')"
        using deps(2) keep by (rule map_le_trans)
      ultimately show ?thesis using ok unfolding depth_post_def by simp
    qed
  qed
qed simp

lemma compute_depths_correct:
  assumes "distinct (map step_id steps)" and "acyclic (depends steps)"
    and "\<forall>(d, i) \<in> depends steps. d \<in> step_id ` set steps"
  obtains depth where "compute_depths steps = Inr depth" "depths_ok steps depth"
    "\<And>s. s \<in> set steps \<Longrightarrow> dict_has depth (step_id s)"
proof -
  let ?f = "\<lambda>s depth. and_then (get_depth (length steps) (step_map steps) (step_id s) depth) (\<lambda>(_, depth'). Inr depth')"
  have "\<exists>depth'. each ?f ss depth = Inr depth' \<and> dict_get depth \<subseteq>\<^sub>m dict_get depth' \<and> depths_ok steps depth' \<and>
      (\<forall>s \<in> set ss. dict_has depth' (step_id s))"
    if "set ss \<subseteq> set steps" "depths_ok steps depth" for ss depth
    using that
  proof (induction ss arbitrary: depth)
    case (Cons s ss)
    have i: "step_id s \<in> step_id ` set steps" using Cons.prems(1) by simp
    obtain k depth1 where one: "get_depth (length steps) (step_map steps) (step_id s) depth = Inr (k, depth1)"
      "dict_get depth \<subseteq>\<^sub>m dict_get depth1" "depths_ok steps depth1" "dict_get depth1 (step_id s) = Some k"
      using get_depth_correct [OF assms i rank_bound [OF assms(2,3) i] Cons.prems(2)] unfolding depth_post_def by blast
    obtain depth2 where two: "each ?f ss depth1 = Inr depth2" "dict_get depth1 \<subseteq>\<^sub>m dict_get depth2" "depths_ok steps depth2"
      "\<forall>s \<in> set ss. dict_has depth2 (step_id s)"
      using Cons.IH [OF _ one(3)] Cons.prems(1) by auto
    have "dict_has depth2 (step_id s)" using map_leD [OF two(2) one(4)] by (simp add: dict_has_def)
    then show ?case using one(1) two map_le_trans [OF one(2) two(2)] by simp
  qed simp
  from this [of steps "[]"] show ?thesis using that by (auto simp: compute_depths_def depths_ok_def)
qed

lemma put_levels:
  assumes "\<forall>s \<in> set ss. dict_get_or depth (step_id s) 0 < length L"
  shows "length (foldl (put_level depth) L ss) = length L \<and>
    (\<forall>k < length L. foldl (put_level depth) L ss ! k = L ! k @ filter (\<lambda>s. dict_get_or depth (step_id s) 0 = k) ss)"
  using assms
proof (induction ss arbitrary: L)
  case (Cons s ss)
  let ?L = "put_level depth L s"
  have len: "length ?L = length L" by (simp add: put_level_def Let_def)
  have at: "?L ! k = (if dict_get_or depth (step_id s) 0 = k then L ! k @ [s] else L ! k)" if "k < length L" for k
    using that by (simp add: put_level_def Let_def nth_list_update)
  have "\<forall>s \<in> set ss. dict_get_or depth (step_id s) 0 < length ?L" using Cons.prems len by simp
  from Cons.IH [OF this] show ?case using len at by simp
qed simp

lemma compute_levels_correct:
  assumes "distinct (map step_id steps)" and "acyclic (depends steps)"
    and "\<forall>(d, i) \<in> depends steps. d \<in> step_id ` set steps"
  obtains level n where "compute_levels steps = Inr (map (\<lambda>k. filter (\<lambda>s. level (step_id s) = k) steps) [0..<n])"
    "\<And>s. s \<in> set steps \<Longrightarrow> level (step_id s) < n"
    "\<And>s d. s \<in> set steps \<Longrightarrow> d \<in> set (depends_on s) \<Longrightarrow> level d < level (step_id s)"
proof -
  obtain depth where depth: "compute_depths steps = Inr depth" "depths_ok steps depth"
    "\<And>s. s \<in> set steps \<Longrightarrow> dict_has depth (step_id s)" using compute_depths_correct [OF assms] by blast
  let ?level = "\<lambda>i. dict_get_or depth i 0" and ?n = "fold max (dict_values depth) 0 + 1"
  let ?L = "foldl (put_level depth) (replicate ?n []) steps"
  have bound: "?level (step_id s) < ?n" if s: "s \<in> set steps" for s
  proof -
    obtain k where k: "dict_get depth (step_id s) = Some k" using depth(3) [OF s] by (auto simp: dict_has_def)
    then have "k \<in> set (dict_values depth)" by (force dest: map_of_SomeD)
    then have "k \<le> fold max (dict_values depth) 0"
      by (metis List.finite_set Max.set_eq_fold Max_ge list.set_intros(2) list.simps(15))
    then show ?thesis using k by (simp add: dict_get_or_def)
  qed
  then have "\<forall>s \<in> set steps. ?level (step_id s) < length (replicate ?n [])" by simp
  note L = put_levels [OF this, THEN conjunct1, unfolded length_replicate]
    put_levels [OF this, THEN conjunct2, unfolded length_replicate, rule_format]
  have "?L = map (\<lambda>k. filter (\<lambda>s. ?level (step_id s) = k) steps) [0..<?n]"
  proof (rule nth_equalityI)
    show "length ?L = length (map (\<lambda>k. filter (\<lambda>s. ?level (step_id s) = k) steps) [0..<?n])" using L by simp
  next
    fix i assume "i < length ?L"
    then have "i < ?n" using L by simp
    then show "?L ! i = map (\<lambda>k. filter (\<lambda>s. ?level (step_id s) = k) steps) [0..<?n] ! i"
      using L(2) [OF \<open>i < ?n\<close>] by (simp del: upt_Suc replicate_Suc add: nth_replicate)
  qed
  then have "compute_levels steps = Inr (map (\<lambda>k. filter (\<lambda>s. ?level (step_id s) = k) steps) [0..<?n])"
    by (simp add: compute_levels_def depth(1) Let_def del: upt_Suc)
  moreover have "?level d < ?level (step_id s)" if s: "s \<in> set steps" "d \<in> set (depends_on s)" for s d
  proof -
    obtain k where k: "dict_get depth (step_id s) = Some k" using depth(3) [OF s(1)] by (auto simp: dict_has_def)
    then obtain j where "j < k" "dict_get depth d = Some j" using depth(2) s unfolding depths_ok_def by blast
    then show ?thesis using k by (simp add: dict_get_or_def)
  qed
  ultimately show ?thesis using that [of ?level ?n] bound by blast
qed

section \<open>Properties\<close>

lemma levels_progress:
  assumes ids: "distinct (map step_id steps)" and known: "\<forall>(d, i) \<in> depends steps. d \<in> step_id ` set steps"
    and order: "\<And>s d. s \<in> set steps \<Longrightarrow> d \<in> set (depends_on s) \<Longrightarrow> level d < level (step_id s)"
  shows "progress ''parent_step_failed'' A steps {s \<in> set steps. n \<le> level (step_id s)}
    (foldl (run_level A) [] (map (\<lambda>k. filter (\<lambda>s. level (step_id s) = k) steps) [0..<n]))"
proof (induction n)
  case 0
  then show ?case by (simp add: progress_def)
next
  case (Suc n)
  let ?todo = "{s \<in> set steps. n \<le> level (step_id s)}" and ?batch = "filter (\<lambda>s. level (step_id s) = n) steps"
  let ?res = "foldl (run_level A) [] (map (\<lambda>k. filter (\<lambda>s. level (step_id s) = k) steps) [0..<n])"
  have earlier: "dict_has ?res (step_id t)" if "t \<in> set steps" "level (step_id t) < n" for t
    using Suc that unfolding progress_def settled_def by (simp add: dict_has_def)
  have "completed_deps ?res s" if "s \<in> set ?batch" for s
    unfolding completed_deps_def list_all_iff
  proof
    fix d assume d: "d \<in> set (depends_on s)"
    have s: "s \<in> set steps" "level (step_id s) = n" using that by simp_all
    then have "(d, step_id s) \<in> depends steps" using d by (auto simp: depends_def)
    then obtain t where "t \<in> set steps" "d = step_id t" using known by auto
    then show "dict_has ?res d" using earlier order [OF s(1) d] s(2) by simp
  qed
  moreover have "distinct ?batch" using ids by (simp add: distinct_map)
  moreover have "?todo \<subseteq> set steps" "set ?batch \<subseteq> ?todo" by auto
  ultimately have "progress ''parent_step_failed'' A steps (?todo - set ?batch) (run_level A ?res ?batch)"
    unfolding run_level_def [of A ?res] Let_def by (intro batch_progress [OF Suc ids])
  moreover have "?todo - set ?batch = {s \<in> set steps. Suc n \<le> level (step_id s)}" by auto
  ultimately show ?case by simp
qed

lemma hierarchical_result:
  assumes ids: "distinct (map step_id steps)" and known: "\<forall>(d, i) \<in> depends steps. d \<in> step_id ` set steps"
    and acyclic: "acyclic (depends steps)"
  obtains w r where "hierarchical_execute A wid dur steps = Inr w" "step_results w = map r steps"
    "wf_status w = overall_status (map r steps)" "outcome_spec ''parent_step_failed'' A steps r"
proof -
  obtain c where valid: "validate_hierarchy steps = Inr c"
    using validate_hierarchy_correct [of steps] known acyclic by (cases "validate_hierarchy steps") simp_all
  obtain level n where levels: "compute_levels steps = Inr (map (\<lambda>k. filter (\<lambda>s. level (step_id s) = k) steps) [0..<n])"
    "\<And>s. s \<in> set steps \<Longrightarrow> level (step_id s) < n"
    "\<And>s d. s \<in> set steps \<Longrightarrow> d \<in> set (depends_on s) \<Longrightarrow> level d < level (step_id s)"
    using compute_levels_correct [OF ids acyclic known] by blast
  let ?res = "foldl (run_level A) [] (map (\<lambda>k. filter (\<lambda>s. level (step_id s) = k) steps) [0..<n])"
  have none: "{s \<in> set steps. n \<le> level (step_id s)} = {}" using levels(2) by (auto simp: not_le)
  have "progress ''parent_step_failed'' A steps {s \<in> set steps. n \<le> level (step_id s)} ?res"
    by (rule levels_progress [where level = level]) (use ids known levels(3) in auto)
  then have "progress ''parent_step_failed'' A steps {} ?res" unfolding none .
  note r = settled_outcomes [OF this known]
  let ?r = "\<lambda>s. the (dict_get ?res (step_id s))"
  let ?w = "make_result wid (if steps = [] then 0 else dur) (map ?r steps)"
  show thesis
  proof (rule that [of ?w ?r])
    show "hierarchical_execute A wid dur steps = Inr ?w"
      using valid levels(1) r(1)
      by (cases "steps = []") (simp_all add: hierarchical_execute_def Let_def make_result_def overall_status_def)
  qed (simp_all add: make_result_def r(2))
qed

lemma validate_agree:
  assumes "distinct (map step_id steps)"
  shows "and_then (validate_hierarchy steps) (\<lambda>_. Inr ()) = validate_dependencies steps"
  using validate_hierarchy_correct [of steps] validate_correct [OF assms]
  by (cases "validate_hierarchy steps") (auto split: if_splits)

text \<open>
  The two dependency checks agree: for steps with distinct ids, the depth-first search of the
  hierarchical executor accepts a workflow exactly when Kahn's algorithm of the parallel executor
  does, and rejects it with the same kind of error; its recursion never exceeds the number of steps.
\<close>

theorem dependency_checks_agree:
  assumes "distinct (map step_id steps)"
  shows "and_then (validate_hierarchy steps) (\<lambda>_. Inr ()) = validate_dependencies steps"
  by (rule validate_agree [OF assms])

lemma outcome_success_unique:
  assumes acyclic: "acyclic (depends steps)" and r: "outcome_spec why A steps r" "outcome_spec why' A steps r'"
  shows "s \<in> set steps \<Longrightarrow> success (r s) \<longleftrightarrow> success (r' s)"
proof (induction "step_id s" arbitrary: s rule: wf_induct_rule [OF finite_acyclic_wf [OF depends_finite acyclic]])
  case (1 s)
  have deps: "(\<forall>t \<in> set steps. step_id t \<in> set (depends_on s) \<longrightarrow> success (r t)) \<longleftrightarrow>
      (\<forall>t \<in> set steps. step_id t \<in> set (depends_on s) \<longrightarrow> success (r' t))"
  proof -
    have "success (r t) \<longleftrightarrow> success (r' t)" if "t \<in> set steps" "step_id t \<in> set (depends_on s)" for t
      using 1(1) [OF _ that(1)] that(2) 1(2) by (auto simp: depends_def)
    then show ?thesis by blast
  qed
  have "r s = (if \<forall>t \<in> set steps. step_id t \<in> set (depends_on s) \<longrightarrow> success (r t) then run_step A s else skipped why s)"
    "r' s = (if \<forall>t \<in> set steps. step_id t \<in> set (depends_on s) \<longrightarrow> success (r' t) then run_step A s else skipped why' s)"
    using r 1(2) unfolding outcome_spec_def by blast+
  then show ?case unfolding deps [symmetric] by (auto simp only: skipped_fields split: if_splits)
qed

text \<open>
  C5: The parallel and the hierarchical executor are interchangeable: on steps with distinct ids they
  reject the same workflows with the same error, and otherwise both finish and agree on which steps
  succeed, on the order of the results and on the status. (They differ only in the text given to
  skipped steps and in how the work is scheduled.)
\<close>

theorem executors_agree:
  assumes ids: "distinct (map step_id steps)"
  shows "case parallel_execute A wid dur steps of
      Inl x \<Rightarrow> hierarchical_execute A wid dur steps = Inl x
    | Inr w \<Rightarrow> (\<exists>w'. hierarchical_execute A wid dur steps = Inr w' \<and> wf_status w' = wf_status w \<and>
        map success (step_results w') = map success (step_results w) \<and> length (step_results w) = length steps)"
proof (cases "validate_dependencies steps")
  case (Inl x)
  have "and_then (validate_hierarchy steps) (\<lambda>_. Inr ()) = (Inl x :: exn + unit)"
    using validate_agree [OF ids] Inl by simp
  then have "validate_hierarchy steps = Inl x" by (cases "validate_hierarchy steps") simp_all
  moreover have "steps \<noteq> []" using Inl by (auto simp: validate_dependencies_def unknown_dependency_def)
  ultimately show ?thesis using Inl by (simp add: parallel_execute_def hierarchical_execute_def)
next
  case (Inr u)
  then have ok: "validate_dependencies steps = Inr ()" by simp
  have known: "\<forall>(d, i) \<in> depends steps. d \<in> step_id ` set steps" and acyclic: "acyclic (depends steps)"
    using validate_correct [OF ids] ok by (simp_all split: if_splits)
  obtain w r where w: "parallel_execute A wid dur steps = Inr w" "step_results w = map r steps"
    "wf_status w = overall_status (map r steps)" "outcome_spec ''dependency_failed'' A steps r"
    using parallel_result [OF ids ok] by metis
  obtain w' r' where w': "hierarchical_execute A wid dur steps = Inr w'" "step_results w' = map r' steps"
    "wf_status w' = overall_status (map r' steps)" "outcome_spec ''parent_step_failed'' A steps r'"
    using hierarchical_result [OF ids known acyclic] by metis
  have same: "success (r' s) \<longleftrightarrow> success (r s)" if "s \<in> set steps" for s
    by (rule outcome_success_unique [OF acyclic w'(4) w(4) that])
  then have "overall_status (map r' steps) = overall_status (map r steps)"
    by (simp add: overall_status_def list_all_iff list_ex_iff)
  then show ?thesis using w w' same by simp
qed

theorem executors_agree_witness:
  "\<exists>w'. hierarchical_execute (failing ''a'') ''w'' 3 [example_step ''b'' [''a''], example_step ''a'' []] = Inr w' \<and>
    map success (step_results w') = [False, False]"
proof -
  let ?ss = "[example_step ''b'' [''a''], example_step ''a'' []]"
  have "\<exists>w. parallel_execute (failing ''a'') ''w'' 3 ?ss = Inr w \<and> map success (step_results w) = [False, False]"
    by (simp add: parallel_execute_def validate_example waves.simps ready_steps_def skip_steps_def completed_deps_def
      failed_dep_def store_def make_result_def failing_def dict_has_def List.map_filter_simps Let_def)
  moreover have "distinct (map step_id ?ss)" by (simp add: example_step_def)
  ultimately show ?thesis using executors_agree [of ?ss "failing ''a''" "''w''" 3] by auto
qed

theorem dependency_checks_agree_witness:
  "\<exists>x. validate_hierarchy [example_step ''b'' [''a''], example_step ''a'' [''b'']] = Inl x"
proof -
  let ?ss = "[example_step ''b'' [''a''], example_step ''a'' [''b'']]"
  have run: "validate_dependencies ?ss = Inl (ValueError ''Circular dependency'')" by (simp add: validate_example)
  have "distinct (map step_id ?ss)" by (simp add: example_step_def)
  from dependency_checks_agree [OF this] run show ?thesis by (cases "validate_hierarchy ?ss") simp_all
qed

end
