(* ===== verification/Racing_Workflow.thy ===== *)
theory Racing_Workflow
  imports Parallel_Workflow
begin

text \<open>
  \<open>workflows/competitive.py\<close> and \<open>workflows/consensus.py\<close>: all steps are started at once and the executor
  reads their results as they finish. The scheduler is an argument: the batches of tasks that the
  successive calls of \<open>asyncio.wait\<close> report as done, each in the order in which the set of done tasks
  is read; the tasks of the later batches are pending. What becomes of a task that is cancelled is
  an argument too.
\<close>

section \<open>Tasks\<close>

datatype cancellation =
    Caught rat
  | NeverStarted
  | FinishedAnyway

text \<open>
  What \<open>gather\<close> reports for a cancelled task: \<open>_run_step\<close> catches the cancellation and returns, or had
  not begun and raises, or had its result before the cancellation reached it.
\<close>

definition cancelled_outcome :: "agent_world \<Rightarrow> (workflow_step \<Rightarrow> cancellation) \<Rightarrow> workflow_step \<Rightarrow> step_result option" where
  "cancelled_outcome A C s =
     (case C s of
        Caught dur \<Rightarrow> Some \<lparr>sr_step_id = step_id s, success = False, step_output = None, duration_ms = dur,
                          error = Some ''cancelled''\<rparr>
      | NeverStarted \<Rightarrow> None
      | FinishedAnyway \<Rightarrow> Some (run_step A s))"

definition collect_cancelled ::
    "agent_world \<Rightarrow> (workflow_step \<Rightarrow> cancellation) \<Rightarrow> results \<Rightarrow> workflow_step list \<Rightarrow> results" where
  "collect_cancelled A C =
     store (\<lambda>s. case cancelled_outcome A C s of Some r \<Rightarrow> r | None \<Rightarrow> skipped ''cancelled'' s)"

text \<open>A schedule of the tasks: every step finishes once, and no call of \<open>wait\<close> returns empty-handed.\<close>

definition schedule :: "workflow_step list \<Rightarrow> workflow_step list list \<Rightarrow> bool" where
  "schedule steps batches \<longleftrightarrow> mset (concat batches) = mset steps \<and> [] \<notin> set batches"

definition reported :: "results \<Rightarrow> workflow_step list \<Rightarrow> step_result list" where
  "reported res steps = List.map_filter (\<lambda>s. dict_get res (step_id s)) steps"

section \<open>The competitive executor\<close>

text \<open>The loop over a set of done tasks: it ends at the first success.\<close>

fun race_batch :: "agent_world \<Rightarrow> workflow_step list \<Rightarrow> results \<Rightarrow> step_result option \<times> results" where
  "race_batch A [] res = (None, res)"
| "race_batch A (s # batch) res =
     (let r = run_step A s; res' = dict_set (step_id s) r res
      in if success r then (Some r, res') else race_batch A batch res')"

fun race ::
    "agent_world \<Rightarrow> (workflow_step \<Rightarrow> cancellation) \<Rightarrow> workflow_step list list \<Rightarrow> results \<Rightarrow> step_result option \<times> results" where
  "race A C [] res = (None, res)"
| "race A C (batch # pending) res =
     (case race_batch A batch res of
        (Some w, res') \<Rightarrow> (Some w, collect_cancelled A C res' (concat pending))
      | (None, res') \<Rightarrow> race A C pending res')"

definition competitive_execute ::
    "bool \<Rightarrow> agent_world \<Rightarrow> (workflow_step \<Rightarrow> cancellation) \<Rightarrow> workflow_step list list \<Rightarrow> string \<Rightarrow> rat \<Rightarrow>
     workflow_step list \<Rightarrow> workflow_result" where
  "competitive_execute include_all A C batches wid dur steps =
     (case steps of
        [] \<Rightarrow> \<lparr>step_results = [], wf_status = SUCCESS, workflow_id = wid, wf_duration_ms = 0\<rparr>
      | [s] \<Rightarrow> (let r = run_step A s
                in \<lparr>step_results = [r], wf_status = (if success r then SUCCESS else FAILED), workflow_id = wid,
                    wf_duration_ms = dur\<rparr>)
      | _ \<Rightarrow>
          (case race A C batches [] of
             (Some w, res) \<Rightarrow> \<lparr>step_results = (if include_all then reported res steps else [w]), wf_status = SUCCESS,
                              workflow_id = wid, wf_duration_ms = dur\<rparr>
           | (None, res) \<Rightarrow> \<lparr>step_results = reported res steps, wf_status = FAILED, workflow_id = wid,
                             wf_duration_ms = dur\<rparr>))"

section \<open>The consensus executor\<close>

definition new_consensus_workflow :: "rat \<Rightarrow> exn + rat" where
  "new_consensus_workflow quorum_fraction =
     (if 0 < quorum_fraction \<and> quorum_fraction \<le> 1 then Inr quorum_fraction else Inl (ValueError ''quorum_fraction''))"

definition required_quorum :: "rat \<Rightarrow> workflow_step list \<Rightarrow> int" where
  "required_quorum quorum_fraction steps = \<lceil>of_nat (length steps) * quorum_fraction\<rceil>"

definition merge_outputs :: "step_result list \<Rightarrow> (string, json) dict" where
  "merge_outputs rs =
     dict_set ''__quorum_size__'' (JInt (int (length rs)))
       (foldl (\<lambda>m r. case step_output r of None \<Rightarrow> m | Some out \<Rightarrow> dict_update m out) [] rs)"

text \<open>
  The loop over the batches, with the successes so far. It gives whether the quorum was met, the
  successes counted and the results known.
\<close>

fun gather_votes ::
    "agent_world \<Rightarrow> (workflow_step \<Rightarrow> cancellation) \<Rightarrow> int \<Rightarrow> workflow_step list list \<Rightarrow> step_result list \<Rightarrow> results \<Rightarrow>
     bool \<times> step_result list \<times> results" where
  "gather_votes A C required [] successes res = (False, successes, res)"
| "gather_votes A C required (batch # pending) successes res =
     (let res' = store (run_step A) res batch;
          successes' = successes @ filter success (map (run_step A) batch);
          current = int (length successes');
          max_possible = current + int (length (concat pending))
      in if current \<ge> required then (True, successes', collect_cancelled A C res' (concat pending))
         else if max_possible < required then (False, successes', res')
         else gather_votes A C required pending successes' res')"

definition consensus_execute ::
    "rat \<Rightarrow> agent_world \<Rightarrow> (workflow_step \<Rightarrow> cancellation) \<Rightarrow> workflow_step list list \<Rightarrow> string \<Rightarrow> rat \<Rightarrow>
     workflow_step list \<Rightarrow> workflow_result" where
  "consensus_execute quorum_fraction A C batches wid dur steps =
     (if steps = [] then \<lparr>step_results = [], wf_status = SUCCESS, workflow_id = wid, wf_duration_ms = 0\<rparr>
      else case gather_votes A C (required_quorum quorum_fraction steps) batches [] [] of
        (quorum_met, successes, res) \<Rightarrow>
          if quorum_met
          then \<lparr>step_results = reported res steps @
                  [\<lparr>sr_step_id = ''__consensus__'', success = True, step_output = Some (merge_outputs successes),
                    duration_ms = dur, error = None\<rparr>],
                wf_status = SUCCESS, workflow_id = wid, wf_duration_ms = dur\<rparr>
          else \<lparr>step_results = reported res steps, wf_status = (if successes \<noteq> [] then PARTIAL else FAILED),
                workflow_id = wid, wf_duration_ms = dur\<rparr>)"

section \<open>Lemmas\<close>

lemma store_append: "store f res (xs @ ys) = store f (store f res xs) ys"
  by (simp add: store_def)

lemma schedule_ids:
  assumes "distinct (map step_id steps)" "schedule steps batches"
  shows "distinct (map step_id (concat batches))" "set (concat batches) = set steps"
proof -
  have eq: "mset (concat batches) = mset steps" using assms(2) by (simp add: schedule_def)
  then have "mset (map step_id (concat batches)) = mset (map step_id steps)" by (simp only: mset_map)
  then show "distinct (map step_id (concat batches))" using assms(1) mset_eq_imp_distinct_iff by blast
  show "set (concat batches) = set steps" using eq mset_eq_setD by blast
qed

lemma race_batch_find:
  "fst (race_batch A batch res) = map_option (run_step A) (List.find (\<lambda>s. success (run_step A s)) batch)"
  "List.find (\<lambda>s. success (run_step A s)) batch = None \<Longrightarrow> snd (race_batch A batch res) = store (run_step A) res batch"
  by (induction batch arbitrary: res) (simp_all add: Let_def store_def del: run_step_fields split: if_splits)

lemma race_find:
  "fst (race A C batches res) = map_option (run_step A) (List.find (\<lambda>s. success (run_step A s)) (concat batches)) \<and>
   (List.find (\<lambda>s. success (run_step A s)) (concat batches) = None \<longrightarrow>
     snd (race A C batches res) = store (run_step A) res (concat batches))"
proof (induction batches arbitrary: res)
  case (Cons batch batches)
  show ?case
  proof (cases "List.find (\<lambda>s. success (run_step A s)) batch")
    case None
    then have "race_batch A batch res = (None, store (run_step A) res batch)"
      using race_batch_find [of A batch res] by (cases "race_batch A batch res") (simp del: run_step_fields)
    then show ?thesis using Cons.IH [of "store (run_step A) res batch"] None
      by (simp add: find_append store_append del: run_step_fields)
  next
    case (Some s)
    then obtain res' where "race_batch A batch res = (Some (run_step A s), res')"
      using race_batch_find(1) [of A batch res] by (cases "race_batch A batch res") (simp del: run_step_fields)
    then show ?thesis using Some by (simp add: find_append del: run_step_fields)
  qed
qed (simp add: store_def)

lemma reported_all:
  assumes "distinct (map step_id steps)" "schedule steps batches"
  shows "reported (store (run_step A) [] (concat batches)) steps = map (run_step A) steps"
  unfolding reported_def
  by (rule map_filter_all) (use store_get [OF schedule_ids(1) [OF assms]] schedule_ids(2) [OF assms] in blast)

lemma gather_votes_quorum:
  assumes "int (length successes) < required"
  shows "fst (gather_votes A C required batches successes res) \<longleftrightarrow>
      required \<le> int (length successes + length (filter success (map (run_step A) (concat batches))))"
  using assms
proof (induction batches arbitrary: successes res)
  case (Cons batch batches)
  let ?s = "successes @ filter success (map (run_step A) batch)"
  have most: "length (filter success (map (run_step A) (concat batches))) \<le> length (concat batches)"
    using length_filter_le [of success "map (run_step A) (concat batches)"] by simp
  have total: "length successes + length (filter success (map (run_step A) (concat (batch # batches)))) =
      length ?s + length (filter success (map (run_step A) (concat batches)))" by simp
  show ?case
  proof (cases "required \<le> int (length ?s)")
    case True
    then show ?thesis unfolding total by (simp add: Let_def)
  next
    case more: False
    show ?thesis
    proof (cases "int (length ?s) + int (length (concat batches)) < required")
      case True
      then have "\<not> required \<le> int (length ?s + length (filter success (map (run_step A) (concat batches))))"
        using most by linarith
      then show ?thesis unfolding total using more True by (simp add: Let_def)
    next
      case False
      have "int (length ?s) < required" using more by simp
      from Cons.IH [OF this] show ?thesis unfolding total using more False by (simp add: Let_def)
    qed
  qed
qed simp

lemma gather_votes_successes:
  obtains k where "fst (snd (gather_votes A C required batches successes res)) =
      successes @ filter success (map (run_step A) (concat (take k batches)))"
    "fst (gather_votes A C required batches successes res) \<Longrightarrow>
      required \<le> int (length (fst (snd (gather_votes A C required batches successes res))))"
proof -
  have "\<exists>k. fst (snd (gather_votes A C required batches successes res)) =
      successes @ filter success (map (run_step A) (concat (take k batches))) \<and>
      (fst (gather_votes A C required batches successes res) \<longrightarrow>
      required \<le> int (length (fst (snd (gather_votes A C required batches successes res)))))"
  proof (induction batches arbitrary: successes res)
    case (Cons batch batches)
    let ?s = "successes @ filter success (map (run_step A) batch)" and ?r = "store (run_step A) res batch"
    let ?stop = "required \<le> int (length ?s) \<or> int (length ?s) + int (length (concat batches)) < required"
    show ?case
    proof (cases ?stop)
      case True
      then show ?thesis by (intro exI [of _ 1]) (auto simp: Let_def)
    next
      case False
      then have run: "gather_votes A C required (batch # batches) successes res = gather_votes A C required batches ?s ?r"
        by (simp add: Let_def)
      obtain k where "fst (snd (gather_votes A C required batches ?s ?r)) =
          ?s @ filter success (map (run_step A) (concat (take k batches)))"
        "fst (gather_votes A C required batches ?s ?r) \<longrightarrow>
          required \<le> int (length (fst (snd (gather_votes A C required batches ?s ?r))))"
        using Cons.IH by blast
      then show ?thesis unfolding run by (intro exI [of _ "Suc k"]) simp
    qed
  qed simp
  then show thesis using that by blast
qed

section \<open>Properties\<close>

text \<open>
  C31: The competitive executor returns the winner of the race: in whatever order and batches the
  tasks finish, the result is that of the first step to finish with success, with status SUCCESS;
  when no step succeeds, the status is FAILED and the failures of all the steps are reported, in the
  order of the steps.
\<close>

theorem competitive_first_success:
  assumes ids: "distinct (map step_id steps)" and sched: "schedule steps batches" and "steps \<noteq> []"
  shows "case List.find (\<lambda>s. success (run_step A s)) (concat batches) of
      Some s \<Rightarrow> wf_status (competitive_execute all A C batches wid dur steps) = SUCCESS \<and>
        step_results (competitive_execute False A C batches wid dur steps) = [run_step A s]
    | None \<Rightarrow> wf_status (competitive_execute all A C batches wid dur steps) = FAILED \<and>
        step_results (competitive_execute all A C batches wid dur steps) = map (run_step A) steps"
proof (cases "\<exists>s. steps = [s]")
  case True
  then obtain s where s: "steps = [s]" by blast
  then have "mset (concat batches) = {#s#}" using sched by (simp add: schedule_def)
  then have "concat batches = [s]" by simp
  then show ?thesis using s by (simp add: competitive_execute_def Let_def del: run_step_fields)
next
  case False
  then obtain s t ss where steps: "steps = s # t # ss" using assms(3) by (metis neq_Nil_conv)
  obtain w res where r: "race A C batches [] = (w, res)" by fastforce
  show ?thesis
  proof (cases "List.find (\<lambda>s. success (run_step A s)) (concat batches)")
    case None
    then have "w = None" "res = store (run_step A) [] (concat batches)"
      using race_find [of A C batches "[]"] r by (simp_all del: run_step_fields)
    then have "competitive_execute all A C batches wid dur steps =
        \<lparr>step_results = map (run_step A) steps, wf_status = FAILED, workflow_id = wid, wf_duration_ms = dur\<rparr>" for all
      using r reported_all [OF ids sched, of A] unfolding competitive_execute_def steps by simp
    then show ?thesis using None by (simp del: run_step_fields)
  next
    case (Some u)
    then have "w = Some (run_step A u)" using race_find [of A C batches "[]"] r by (simp del: run_step_fields)
    then show ?thesis using Some r steps by (simp add: competitive_execute_def del: run_step_fields)
  qed
qed

theorem competitive_first_success_witness:
  "step_results (competitive_execute False (failing ''a'') (\<lambda>_. NeverStarted)
     [[example_step ''a'' []], [example_step ''c'' [], example_step ''b'' []]] ''w'' 1
     [example_step ''a'' [], example_step ''b'' [], example_step ''c'' []]) = [run_step (failing ''a'') (example_step ''c'' [])]"
proof -
  let ?ss = "[example_step ''a'' [], example_step ''b'' [], example_step ''c'' []]"
    and ?bs = "[[example_step ''a'' []], [example_step ''c'' [], example_step ''b'' []]]"
  have "distinct (map step_id ?ss)" "schedule ?ss ?bs" "?ss \<noteq> []"
    by (simp_all add: example_step_def schedule_def)
  from competitive_first_success [OF this, where A = "failing ''a''"] show ?thesis
    by (simp add: failing_def example_step_def)
qed

text \<open>
  C23: The outcome of the consensus executor does not depend on the order in which the agents answer:
  for a quorum fraction in (0, 1], the status is SUCCESS exactly when at least the required number of
  the steps succeed, although the executor stops early on either verdict; and then the merged result
  that closes the list is built from successful results of the steps, at least as many as required.
\<close>

theorem consensus_order_independent:
  assumes q: "0 < quorum_fraction" "quorum_fraction \<le> 1" and sched: "schedule steps batches" and "steps \<noteq> []"
  shows "(wf_status (consensus_execute quorum_fraction A C batches wid dur steps) = SUCCESS \<longleftrightarrow>
      required_quorum quorum_fraction steps \<le> int (length (filter (\<lambda>s. success (run_step A s)) steps))) \<and>
    (wf_status (consensus_execute quorum_fraction A C batches wid dur steps) = SUCCESS \<longrightarrow>
      (\<exists>rs. step_output (last (step_results (consensus_execute quorum_fraction A C batches wid dur steps))) = Some (merge_outputs rs) \<and>
        required_quorum quorum_fraction steps \<le> int (length rs) \<and>
        (\<forall>r \<in> set rs. success r \<and> r \<in> run_step A ` set steps)))"
proof -
  let ?n = "required_quorum quorum_fraction steps"
  obtain met rs res where g: "gather_votes A C ?n batches [] [] = (met, rs, res)" by (metis prod_cases3)
  have "0 < of_nat (length steps) * quorum_fraction" using q assms(4) by simp
  then have pos: "int (length ([] :: step_result list)) < ?n" by (simp add: required_quorum_def)
  have eq: "mset (concat batches) = mset steps" using sched by (simp add: schedule_def)
  then have votes: "length (filter success (map (run_step A) (concat batches))) = length (filter (\<lambda>s. success (run_step A s)) steps)"
    by (metis (mono_tags, lifting) filter_map length_map mset_filter o_def size_mset filter_cong)
  have met: "met \<longleftrightarrow> ?n \<le> int (length (filter (\<lambda>s. success (run_step A s)) steps))"
    using gather_votes_quorum [OF pos, of A C batches "[]"] g unfolding votes by simp
  obtain k where k: "rs = filter success (map (run_step A) (concat (take k batches)))" "met \<Longrightarrow> ?n \<le> int (length rs)"
    using gather_votes_successes [of A C ?n batches "[]" "[]"] g by auto
  have "set (concat (take k batches)) \<subseteq> set steps"
    using mset_eq_setD [OF eq] by (auto dest: in_set_takeD)
  then have from_steps: "\<forall>r \<in> set rs. success r \<and> r \<in> run_step A ` set steps" using k(1) by auto
  have run: "consensus_execute quorum_fraction A C batches wid dur steps =
      (if met then \<lparr>step_results = reported res steps @
                  [\<lparr>sr_step_id = ''__consensus__'', success = True, step_output = Some (merge_outputs rs),
                    duration_ms = dur, error = None\<rparr>],
                wf_status = SUCCESS, workflow_id = wid, wf_duration_ms = dur\<rparr>
       else \<lparr>step_results = reported res steps, wf_status = (if rs \<noteq> [] then PARTIAL else FAILED),
                workflow_id = wid, wf_duration_ms = dur\<rparr>)"
    using assms(4) g by (simp add: consensus_execute_def)
  show ?thesis
  proof (cases met)
    case True
    then show ?thesis using run met k(2) from_steps by auto
  next
    case False
    then show ?thesis using run met by simp
  qed
qed

theorem consensus_order_independent_witness:
  "wf_status (consensus_execute (2 / 3) (failing ''a'') (\<lambda>_. NeverStarted)
     [[example_step ''a'' []], [example_step ''c'' []], [example_step ''b'' []]] ''w'' 1
     [example_step ''a'' [], example_step ''b'' [], example_step ''c'' []]) = SUCCESS"
proof -
  let ?ss = "[example_step ''a'' [], example_step ''b'' [], example_step ''c'' []]"
    and ?bs = "[[example_step ''a'' []], [example_step ''c'' []], [example_step ''b'' []]]"
  have hyps: "(0::rat) < 2 / 3" "(2 / 3 :: rat) \<le> 1" "schedule ?ss ?bs" "?ss \<noteq> []"
    by (simp_all add: example_step_def schedule_def)
  have "required_quorum (2 / 3) ?ss = 2" by (simp add: required_quorum_def)
  moreover have "length (filter (\<lambda>s. success (run_step (failing ''a'') s)) ?ss) = 2"
    by (simp add: failing_def example_step_def)
  ultimately show ?thesis using consensus_order_independent [OF hyps, of "failing ''a''"] by simp
qed

lemma race_split:
  assumes "List.find (\<lambda>s. success (run_step A s)) (concat before @ xs) = None" "success (run_step A s)"
  shows "race A C (before @ (xs @ s # ys) # pending) res =
    (Some (run_step A s), collect_cancelled A C (store (run_step A) res (concat before @ xs @ [s])) (concat pending))"
  using assms(1)
proof (induction before arbitrary: res)
  case Nil
  have "race_batch A (xs @ s # ys) res = (Some (run_step A s), store (run_step A) res (xs @ [s]))"
    using Nil assms(2)
    by (induction xs arbitrary: res) (simp_all add: Let_def store_def del: run_step_fields split: if_splits)
  then show ?case by simp
next
  case (Cons b before)
  then have none: "List.find (\<lambda>s. success (run_step A s)) b = None"
    "List.find (\<lambda>s. success (run_step A s)) (concat before @ xs) = None"
    by (simp_all add: find_append del: run_step_fields split: option.splits)
  then have "race_batch A b res = (None, store (run_step A) res b)"
    using race_batch_find [of A b res] by (cases "race_batch A b res") (simp del: run_step_fields)
  then show ?case using Cons.IH [OF none(2)] by (simp add: store_append)
qed

lemma store_dom: "dom (dict_get (store f res ss)) = dom (dict_get res) \<union> step_id ` set ss"
  by (induction ss arbitrary: res) (auto simp: store_def)

lemma store_ids:
  "(\<And>i r. dict_get res i = Some r \<Longrightarrow> sr_step_id r = i) \<Longrightarrow> (\<And>s. sr_step_id (f s) = step_id s) \<Longrightarrow>
   dict_get (store f res ss) i = Some r \<Longrightarrow> sr_step_id r = i"
proof (induction ss arbitrary: res)
  case (Cons s ss)
  have unfold: "store f res (s # ss) = store f (dict_set (step_id s) (f s) res) ss" by (simp add: store_def)
  show ?case
    by (rule Cons.IH [of "dict_set (step_id s) (f s) res"])
      (use Cons.prems unfold in \<open>auto split: if_splits\<close>)
qed (simp add: store_def)

lemma reported_ids:
  assumes "\<And>i r. dict_get res i = Some r \<Longrightarrow> sr_step_id r = i"
  shows "map sr_step_id (reported res steps) = map step_id (filter (\<lambda>s. step_id s \<in> dom (dict_get res)) steps)"
proof (induction steps)
  case (Cons s steps)
  then show ?case
    using assms by (cases "dict_get res (step_id s)") (auto simp: reported_def List.map_filter_simps)
qed (simp add: reported_def List.map_filter_simps)

lemma distinct_around:
  assumes "distinct (map f (us @ xs @ s # ys @ vs))"
  shows "f ` set ys \<inter> f ` (set us \<union> set xs \<union> {s} \<union> set vs) = {}"
proof -
  have "f ` set ys \<inter> (f ` set us \<union> f ` set xs \<union> {f s} \<union> f ` set vs) = {}" using assms by auto
  then show ?thesis by (simp only: image_Un image_insert image_empty)
qed

text \<open>
  The results the competitive executor reports when asked for all of them: the tasks that finished in
  the same batch as the winner but are read after it are missing, since the loop over the batch ends
  at the winner and only the pending tasks are collected.
\<close>

theorem competitive_all_results:
  assumes ids: "distinct (map step_id steps)" and "schedule steps (before @ (xs @ s # ys) # pending)" and "2 \<le> length steps"
    and "List.find (\<lambda>s. success (run_step A s)) (concat before @ xs) = None" "success (run_step A s)"
  shows "map sr_step_id (step_results (competitive_execute True A C (before @ (xs @ s # ys) # pending) wid dur steps)) =
    map step_id (filter (\<lambda>t. t \<notin> set ys) steps)"
proof -
  let ?res = "collect_cancelled A C (store (run_step A) [] (concat before @ xs @ [s])) (concat pending)"
  have known: "sr_step_id r = i" if "dict_get ?res i = Some r" for i r
  proof (rule store_ids [OF _ _ that [unfolded collect_cancelled_def]])
    show "sr_step_id (case cancelled_outcome A C t of None \<Rightarrow> skipped ''cancelled'' t | Some r \<Rightarrow> r) = step_id t" for t
      by (simp add: cancelled_outcome_def split: cancellation.split)
    show "sr_step_id r = i" if "dict_get (store (run_step A) [] (concat before @ xs @ [s])) i = Some r" for i r
      by (rule store_ids [OF _ _ that]) simp_all
  qed
  have all: "distinct (map step_id (concat (before @ (xs @ s # ys) # pending)))"
    "set (concat (before @ (xs @ s # ys) # pending)) = set steps"
    using schedule_ids [OF ids assms(2)] by blast+
  have dom: "dom (dict_get ?res) = step_id ` (set (concat before) \<union> set xs \<union> {s} \<union> set (concat pending))"
    unfolding collect_cancelled_def store_dom by auto
  have "step_id t \<in> dom (dict_get ?res) \<longleftrightarrow> t \<notin> set ys" if t: "t \<in> set steps" for t
  proof -
    have "step_id ` set ys \<inter> step_id ` (set (concat before) \<union> set xs \<union> {s} \<union> set (concat pending)) = {}"
      using distinct_around [of step_id "concat before" xs s ys "concat pending"] all(1)
      by (simp only: concat_append concat.simps append_assoc append_Cons)
    moreover have "t \<in> set ys \<union> (set (concat before) \<union> set xs \<union> {s} \<union> set (concat pending))"
      using t all(2) by auto
    ultimately show ?thesis unfolding dom using image_eqI [of "step_id t" step_id t] by blast
  qed
  then have same: "filter (\<lambda>t. step_id t \<in> dom (dict_get ?res)) steps = filter (\<lambda>t. t \<notin> set ys) steps"
    by (rule filter_cong [OF refl])
  obtain a b ss where steps: "steps = a # b # ss" using assms(3) by (cases steps; cases "tl steps") auto
  have "step_results (competitive_execute True A C (before @ (xs @ s # ys) # pending) wid dur steps) = reported ?res steps"
    using race_split [OF assms(4,5), of C ys pending "[]"] unfolding competitive_execute_def steps by simp
  then show ?thesis using reported_ids [OF known, where steps = steps] same by simp
qed

theorem competitive_all_results_witness:
  "map sr_step_id (step_results (competitive_execute True (failing ''x'') (\<lambda>_. NeverStarted)
     [[example_step ''a'' [], example_step ''b'' []]] ''w'' 1 [example_step ''a'' [], example_step ''b'' []])) = [''a'']"
proof -
  have "map sr_step_id (step_results (competitive_execute True (failing ''x'') (\<lambda>_. NeverStarted)
     ([] @ ([] @ example_step ''a'' [] # [example_step ''b'' []]) # []) ''w'' 1 [example_step ''a'' [], example_step ''b'' []])) =
     map step_id (filter (\<lambda>t. t \<notin> set [example_step ''b'' []]) [example_step ''a'' [], example_step ''b'' []])"
    by (rule competitive_all_results) (simp_all add: example_step_def schedule_def failing_def)
  then show ?thesis by (simp add: example_step_def)
qed

end
