(* ===== verification/Timed_Steps.thy ===== *)
theory Timed_Steps
  imports Racing_Workflow Hierarchical_Workflow
begin

text \<open>
  \<open>_run_step\<close> of the five workflow executors with time: the agent may take any time or never end, a
  step has a timeout or none, and the task that runs a step may be cancelled. Times are in seconds
  from the start of the step; what the program does between two waits takes no time, and at equal
  times the agent comes before the timeout and the timeout before the cancellation. An agent that is
  cancelled ends at once.
\<close>

section \<open>Waiting for the agent\<close>

datatype agent_end =
    Gives "(string, json) dict"
  | RaisesTimeout
  | RaisesException string
  | RaisesCancelled
  | RaisesBase string

record agent_run =
  finishes_after :: "rat option"
  ends_with :: agent_end

record timed_world =
  agent_runs :: "workflow_step \<Rightarrow> agent_run"
  timed_text :: "rat option \<Rightarrow> string"

fun earliest :: "(rat \<times> 'a) option \<Rightarrow> (rat \<times> 'a) option \<Rightarrow> (rat \<times> 'a) option" where
  "earliest None y = y"
| "earliest x None = x"
| "earliest (Some (t, a)) (Some (u, b)) = Some (if t \<le> u then (t, a) else (u, b))"

text \<open>
  The time and the way in which the \<open>await\<close> of a step ends, \<open>None\<close> if it never does. \<open>wait_for\<close> with a
  timeout that is not positive does not let the agent begin.
\<close>

definition await_agent :: "timed_world \<Rightarrow> rat option \<Rightarrow> workflow_step \<Rightarrow> (rat \<times> agent_end) option" where
  "await_agent W cancelled_at s =
     (let r = agent_runs W s;
          finish = map_option (\<lambda>t. (t, ends_with r)) (finishes_after r);
          awaited = (case step_timeout s of
                       None \<Rightarrow> finish
                     | Some T \<Rightarrow> if T \<le> 0 then Some (0, RaisesTimeout) else earliest finish (Some (T, RaisesTimeout)))
      in earliest awaited (map_option (\<lambda>t. (t, RaisesCancelled)) cancelled_at))"

section \<open>Running a step\<close>

definition failed_result :: "workflow_step \<Rightarrow> rat \<Rightarrow> string \<Rightarrow> step_result" where
  "failed_result s ms msg =
     \<lparr>sr_step_id = step_id s, success = False, step_output = None, duration_ms = ms, error = Some msg\<rparr>"

text \<open>The handlers of \<open>_run_step\<close>; only two executors catch \<open>CancelledError\<close>.\<close>

fun step_end :: "bool \<Rightarrow> (rat option \<Rightarrow> string) \<Rightarrow> workflow_step \<Rightarrow> rat \<Rightarrow> agent_end \<Rightarrow> exn + step_result" where
  "step_end catch txt_of s ms (Gives out) =
     Inr \<lparr>sr_step_id = step_id s, success = True, step_output = Some out, duration_ms = ms, error = None\<rparr>"
| "step_end catch txt_of s ms RaisesTimeout = Inr (failed_result s ms (txt_of (step_timeout s)))"
| "step_end catch txt_of s ms (RaisesException msg) = Inr (failed_result s ms msg)"
| "step_end catch txt_of s ms RaisesCancelled =
     (if catch then Inr (failed_result s ms ''cancelled'') else Inl (BaseExc ''CancelledError''))"
| "step_end catch txt_of s ms (RaisesBase msg) = Inl (BaseExc msg)"

text \<open>The time that a step took and what came of it; \<open>None\<close> if it never ends.\<close>

definition timed_step :: "bool \<Rightarrow> timed_world \<Rightarrow> rat option \<Rightarrow> workflow_step \<Rightarrow> (rat \<times> (exn + step_result)) option" where
  "timed_step catch W cancelled_at s =
     map_option (\<lambda>(t, e). (t, step_end catch (timed_text W) s (t * 1000) e)) (await_agent W cancelled_at s)"

definition sequential_run_step :: "timed_world \<Rightarrow> rat option \<Rightarrow> workflow_step \<Rightarrow> (rat \<times> (exn + step_result)) option" where
  "sequential_run_step = timed_step False"

definition parallel_run_step :: "timed_world \<Rightarrow> rat option \<Rightarrow> workflow_step \<Rightarrow> (rat \<times> (exn + step_result)) option" where
  "parallel_run_step = timed_step False"

definition hierarchical_run_step :: "timed_world \<Rightarrow> rat option \<Rightarrow> workflow_step \<Rightarrow> (rat \<times> (exn + step_result)) option" where
  "hierarchical_run_step = timed_step False"

definition competitive_run_step :: "timed_world \<Rightarrow> rat option \<Rightarrow> workflow_step \<Rightarrow> (rat \<times> (exn + step_result)) option" where
  "competitive_run_step = timed_step True"

definition consensus_run_step :: "timed_world \<Rightarrow> rat option \<Rightarrow> workflow_step \<Rightarrow> (rat \<times> (exn + step_result)) option" where
  "consensus_run_step = timed_step True"

section \<open>The sequential executor\<close>

text \<open>The loop over the steps, with the time it takes.\<close>

fun timed_in_order :: "timed_world \<Rightarrow> workflow_step list \<Rightarrow> (rat \<times> (exn + step_result list)) option" where
  "timed_in_order W [] = Some (0, Inr [])"
| "timed_in_order W (s # ss) =
     (case sequential_run_step W None s of
        None \<Rightarrow> None
      | Some (t, Inl x) \<Rightarrow> Some (t, Inl x)
      | Some (t, Inr r) \<Rightarrow>
          if success r
          then (case timed_in_order W ss of
                  None \<Rightarrow> None
                | Some (u, Inl x) \<Rightarrow> Some (t + u, Inl x)
                | Some (u, Inr rs) \<Rightarrow> Some (t + u, Inr (r # rs)))
          else Some (t, Inr [r]))"

definition timed_sequential :: "timed_world \<Rightarrow> string \<Rightarrow> workflow_step list \<Rightarrow> (exn + workflow_result) option" where
  "timed_sequential W wid steps =
     (if steps = [] then Some (Inr \<lparr>step_results = [], wf_status = SUCCESS, workflow_id = wid, wf_duration_ms = 0\<rparr>)
      else case timed_in_order W steps of
        None \<Rightarrow> None
      | Some (t, Inl x) \<Rightarrow> Some (Inl x)
      | Some (t, Inr completed) \<Rightarrow>
          Some (Inr \<lparr>step_results = completed, wf_status = (if list_all success completed then SUCCESS else FAILED),
            workflow_id = wid, wf_duration_ms = t * 1000\<rparr>))"

section \<open>The parallel executor\<close>

fun raised_in :: "(rat \<times> (exn + 'a)) option \<Rightarrow> (rat \<times> exn) option" where
  "raised_in (Some (t, Inl x)) = Some (t, x)"
| "raised_in _ = None"

text \<open>
  \<open>gather\<close> of the tasks that \<open>run\<close> the steps of a wave: it raises with the first task that raises, and otherwise ends with
  the last task, with the results in the order of the steps.
\<close>

definition gather_steps ::
    "(workflow_step \<Rightarrow> (rat \<times> (exn + step_result)) option) \<Rightarrow> workflow_step list \<Rightarrow>
     (rat \<times> (exn + step_result list)) option" where
  "gather_steps run ss =
     (let tasks = map run ss
      in case foldr earliest (map raised_in tasks) None of
           Some (t, x) \<Rightarrow> Some (t, Inl x)
         | None \<Rightarrow>
             if None \<in> set tasks then None
             else Some (foldr (\<lambda>r. max (fst (the r))) tasks 0, Inr (map (projr \<circ> snd \<circ> the) tasks)))"

function timed_waves :: "timed_world \<Rightarrow> workflow_step list \<Rightarrow> results \<Rightarrow> (rat \<times> (exn + results)) option" where
  "timed_waves W remaining res =
     (if remaining = [] then Some (0, Inr res)
      else let ready = ready_steps res remaining; skip_now = skip_steps res remaining in
        if ready = [] \<and> skip_now = [] then Some (0, Inr res)
        else case gather_steps (parallel_run_step W None) ready of
          None \<Rightarrow> None
        | Some (t, Inl x) \<Rightarrow> Some (t, Inl x)
        | Some (t, Inr outs) \<Rightarrow>
            (case timed_waves W (fold remove1 ready (fold remove1 skip_now remaining))
                   (foldl (\<lambda>res (s, r). dict_set (step_id s) r res)
                     (store (skipped ''dependency_failed'') res skip_now) (zip ready outs)) of
               None \<Rightarrow> None
             | Some (u, r) \<Rightarrow> Some (t + u, r)))"
  by pat_completeness auto
termination
  by (relation "measure (\<lambda>(_, remaining, _). length remaining)") (simp_all add: after_wave_shorter)

declare timed_waves.simps [simp del]

definition timed_parallel :: "timed_world \<Rightarrow> string \<Rightarrow> workflow_step list \<Rightarrow> (exn + workflow_result) option" where
  "timed_parallel W wid steps =
     (if steps = [] then Some (Inr \<lparr>step_results = [], wf_status = SUCCESS, workflow_id = wid, wf_duration_ms = 0\<rparr>)
      else case validate_dependencies steps of
        Inl x \<Rightarrow> Some (Inl x)
      | Inr _ \<Rightarrow>
          (case timed_waves W steps [] of
             None \<Rightarrow> None
           | Some (t, Inl x) \<Rightarrow> Some (Inl x)
           | Some (t, Inr results) \<Rightarrow>
               Some (Inr (make_result wid (t * 1000) (List.map_filter (\<lambda>s. dict_get results (step_id s)) steps)))))"

section \<open>The hierarchical executor\<close>

fun timed_levels :: "timed_world \<Rightarrow> workflow_step list list \<Rightarrow> results \<Rightarrow> (rat \<times> (exn + results)) option" where
  "timed_levels W [] res = Some (0, Inr res)"
| "timed_levels W (level # levels) res =
     (let to_run = filter (\<lambda>s. \<not> failed_dep res s) level; to_skip = filter (failed_dep res) level
      in case gather_steps (hierarchical_run_step W None) to_run of
           None \<Rightarrow> None
         | Some (t, Inl x) \<Rightarrow> Some (t, Inl x)
         | Some (t, Inr outs) \<Rightarrow>
             (case timed_levels W levels (foldl (\<lambda>res (s, r). dict_set (step_id s) r res)
                     (store (skipped ''parent_step_failed'') res to_skip) (zip to_run outs)) of
                None \<Rightarrow> None
              | Some (u, r) \<Rightarrow> Some (t + u, r)))"

definition timed_hierarchical :: "timed_world \<Rightarrow> string \<Rightarrow> workflow_step list \<Rightarrow> (exn + workflow_result) option" where
  "timed_hierarchical W wid steps =
     (if steps = [] then Some (Inr \<lparr>step_results = [], wf_status = SUCCESS, workflow_id = wid, wf_duration_ms = 0\<rparr>)
      else case and_then (validate_hierarchy steps) (\<lambda>_. compute_levels steps) of
        Inl x \<Rightarrow> Some (Inl x)
      | Inr levels \<Rightarrow>
          (case timed_levels W levels [] of
             None \<Rightarrow> None
           | Some (t, Inl x) \<Rightarrow> Some (Inl x)
           | Some (t, Inr results) \<Rightarrow>
               Some (Inr (make_result wid (t * 1000) (List.map_filter (\<lambda>s. dict_get results (step_id s)) steps)))))"

section \<open>Lemmas\<close>

text \<open>The agents as the untimed executors see them.\<close>

definition untimed :: "timed_world \<Rightarrow> agent_world" where
  "untimed W = \<lparr>
     agent_call = (\<lambda>s. case await_agent W None s of
         Some (t, Gives out) \<Rightarrow> Returned out
       | Some (t, RaisesException msg) \<Rightarrow> Raised msg
       | _ \<Rightarrow> TimedOut),
     call_duration = (\<lambda>s. case await_agent W None s of Some (t, e) \<Rightarrow> t * 1000 | None \<Rightarrow> 0),
     timeout_text = timed_text W\<rparr>"

text \<open>An agent takes no negative time and raises nothing outside \<open>Exception\<close>.\<close>

definition well_behaved :: "timed_world \<Rightarrow> workflow_step \<Rightarrow> bool" where
  "well_behaved W s \<longleftrightarrow>
     (case ends_with (agent_runs W s) of RaisesCancelled \<Rightarrow> False | RaisesBase _ \<Rightarrow> False | _ \<Rightarrow> True) \<and>
     (case finishes_after (agent_runs W s) of None \<Rightarrow> True | Some t \<Rightarrow> 0 \<le> t)"

definition allowance :: "workflow_step \<Rightarrow> rat" where
  "allowance s = (case step_timeout s of Some T \<Rightarrow> max 0 T | None \<Rightarrow> 0)"

lemma earliest_none [simp]: "earliest x None = x"
  by (cases x) auto

lemma await_in_time:
  assumes "step_timeout s = Some T" "well_behaved W s"
  shows "\<exists>t e. await_agent W None s = Some (t, e) \<and> 0 \<le> t \<and> t \<le> max 0 T \<and>
    (case e of RaisesCancelled \<Rightarrow> False | RaisesBase _ \<Rightarrow> False | _ \<Rightarrow> True)"
proof (cases "finishes_after (agent_runs W s)")
  case None
  then show ?thesis using assms(1) by (auto simp: await_agent_def Let_def)
next
  case (Some t)
  then show ?thesis using assms by (auto simp: await_agent_def Let_def well_behaved_def)
qed

lemma timed_step_untimed:
  assumes "await_agent W None s = Some (t, e)" "case e of RaisesCancelled \<Rightarrow> False | RaisesBase _ \<Rightarrow> False | _ \<Rightarrow> True"
  shows "timed_step catch W None s = Some (t, Inr (run_step (untimed W) s))"
  using assms by (cases e) (auto simp: timed_step_def run_step_def untimed_def failed_result_def)

lemma timed_in_order_ends:
  assumes "\<forall>s \<in> set ss. step_timeout s \<noteq> None \<and> well_behaved W s"
  shows "\<exists>t. timed_in_order W ss = Some (t, Inr (run_in_order (untimed W) ss)) \<and> 0 \<le> t \<and> t \<le> (\<Sum>s\<leftarrow>ss. allowance s)"
  using assms
proof (induction ss)
  case (Cons s ss)
  then obtain T where T: "step_timeout s = Some T" "well_behaved W s" by auto
  obtain t e where await: "await_agent W None s = Some (t, e)" "0 \<le> t" "t \<le> max 0 T"
    and e: "case e of RaisesCancelled \<Rightarrow> False | RaisesBase _ \<Rightarrow> False | _ \<Rightarrow> True" using await_in_time [OF T] by blast
  note step = timed_step_untimed [OF await(1) e, of False]
  obtain u where u: "timed_in_order W ss = Some (u, Inr (run_in_order (untimed W) ss))" "0 \<le> u" "u \<le> (\<Sum>s\<leftarrow>ss. allowance s)"
    using Cons by auto
  have "t \<le> allowance s" using await(3) T(1) by (simp add: allowance_def)
  moreover have "0 \<le> (\<Sum>s\<leftarrow>ss. allowance s)" using u by linarith
  ultimately show ?case using step u await(2)
    by (auto simp: sequential_run_step_def Let_def)
qed simp

lemma store_zip:
  "foldl (\<lambda>res (s, r). dict_set (step_id s) r res) res (zip ss (map f ss)) = store f res ss"
  by (induction ss arbitrary: res) (simp_all add: store_def)

lemma no_raise: "\<forall>r \<in> set rs. raised_in r = None \<Longrightarrow> foldr earliest (map raised_in rs) None = None"
  by (induction rs) auto

lemma foldr_max_bounds: "\<forall>r \<in> set rs. f r \<le> B \<Longrightarrow> 0 \<le> B \<Longrightarrow> 0 \<le> foldr (\<lambda>r. max (f r)) rs (0 :: rat) \<and> foldr (\<lambda>r. max (f r)) rs 0 \<le> B"
proof (induction rs)
  case (Cons r rs)
  then have "0 \<le> foldr (\<lambda>r. max (f r)) rs 0" "foldr (\<lambda>r. max (f r)) rs 0 \<le> B" "f r \<le> B" by simp_all
  then show ?case by (simp add: max.coboundedI2)
qed simp

definition bounded_steps :: "timed_world \<Rightarrow> rat \<Rightarrow> workflow_step list \<Rightarrow> bool" where
  "bounded_steps W B ss \<longleftrightarrow> 0 \<le> B \<and> (\<forall>s \<in> set ss. well_behaved W s \<and> (\<exists>T \<le> B. step_timeout s = Some T))"

lemma gather_in_time:
  assumes "bounded_steps W B ss"
  shows "\<exists>t. gather_steps (timed_step catch W None) ss = Some (t, Inr (map (run_step (untimed W)) ss)) \<and> 0 \<le> t \<and> t \<le> B"
proof -
  let ?tasks = "map (timed_step catch W None) ss"
  have step: "\<exists>t \<le> B. timed_step catch W None s = Some (t, Inr (run_step (untimed W) s))" if s: "s \<in> set ss" for s
  proof -
    obtain T where T: "step_timeout s = Some T" "well_behaved W s" "T \<le> B" "0 \<le> B"
      using assms s unfolding bounded_steps_def by blast
    obtain t e where await: "await_agent W None s = Some (t, e)" "t \<le> max 0 T"
      and e: "case e of RaisesCancelled \<Rightarrow> False | RaisesBase _ \<Rightarrow> False | _ \<Rightarrow> True" using await_in_time [OF T(1,2)] by blast
    have "t \<le> B" using await(2) T(3,4) by simp
    then show ?thesis using timed_step_untimed [OF await(1) e] by blast
  qed
  have "foldr earliest (map raised_in ?tasks) None = None"
  proof (rule no_raise, rule ballI)
    fix r assume "r \<in> set ?tasks"
    then obtain s where "s \<in> set ss" "r = timed_step catch W None s" by auto
    with step show "raised_in r = None" by fastforce
  qed
  moreover have "None \<notin> set ?tasks" using step by fastforce
  moreover have "map (projr \<circ> snd \<circ> the) ?tasks = map (run_step (untimed W)) ss" using step by fastforce
  moreover have "\<forall>r \<in> set ?tasks. fst (the r) \<le> B" using step by fastforce
  then have "0 \<le> foldr (\<lambda>r. max (fst (the r))) ?tasks 0 \<and> foldr (\<lambda>r. max (fst (the r))) ?tasks 0 \<le> B"
    by (rule foldr_max_bounds) (use assms in \<open>simp add: bounded_steps_def\<close>)
  ultimately show ?thesis by (simp only: gather_steps_def Let_def option.case if_False) blast
qed

lemma set_fold_remove1: "set (fold remove1 ys xs) \<subseteq> set xs"
proof (induction ys arbitrary: xs)
  case (Cons y ys)
  from Cons [of "remove1 y xs"] set_remove1_subset [of y xs] show ?case by auto
qed simp

lemma after_wave_subset: "set (after_wave res remaining) \<subseteq> set remaining"
  by (rule subset_trans [OF set_fold_remove1 set_fold_remove1])

lemma timed_waves_end:
  assumes "bounded_steps W B remaining"
  shows "\<exists>t. timed_waves W remaining res = Some (t, Inr (waves (untimed W) remaining res)) \<and> 0 \<le> t \<and> t \<le> of_nat (length remaining) * B"
  using assms
proof (induction W remaining res rule: timed_waves.induct)
  case (1 W remaining res)
  let ?ready = "ready_steps res remaining" and ?skip = "skip_steps res remaining"
  let ?res = "store (run_step (untimed W)) (store (skipped ''dependency_failed'') res ?skip) ?ready"
  show ?case
  proof (cases "remaining = [] \<or> (?ready = [] \<and> ?skip = [])")
    case True
    have "0 \<le> B" using 1(2) by (simp add: bounded_steps_def)
    with True show ?thesis by (subst timed_waves.simps, subst waves.simps) (auto simp: Let_def)
  next
    case False
    have "bounded_steps W B ?ready" using 1(2) by (auto simp: bounded_steps_def ready_steps_def)
    then obtain t where t: "gather_steps (parallel_run_step W None) ?ready = Some (t, Inr (map (run_step (untimed W)) ?ready))" "0 \<le> t" "t \<le> B"
      using gather_in_time unfolding parallel_run_step_def by blast
    have "bounded_steps W B (after_wave res remaining)"
      using 1(2) after_wave_subset [of res remaining] by (auto simp: bounded_steps_def)
    then obtain u where u: "timed_waves W (after_wave res remaining) ?res =
        Some (u, Inr (waves (untimed W) (after_wave res remaining) ?res))" "0 \<le> u" "u \<le> of_nat (length (after_wave res remaining)) * B"
      using 1(1) [OF _ refl refl _ t(1) refl refl] False unfolding store_zip by blast
    have "of_nat (length (after_wave res remaining)) * B \<le> (of_nat (length remaining) - 1) * B"
    proof (rule mult_right_mono)
      have "length (after_wave res remaining) < length remaining" using False after_wave_shorter by blast
      then show "of_nat (length (after_wave res remaining)) \<le> (of_nat (length remaining) - 1 :: rat)" by (simp add: le_diff_eq flip: of_nat_Suc)
      show "0 \<le> B" using 1(2) by (simp add: bounded_steps_def)
    qed
    with t u(2,3) have "t + u \<le> of_nat (length remaining) * B" by (simp add: algebra_simps)
    moreover have "timed_waves W remaining res = Some (t + u, Inr (waves (untimed W) remaining res))"
      using False t(1) u(1) by (subst timed_waves.simps, subst waves.simps) (auto simp: Let_def store_zip)
    ultimately show ?thesis using t(2) u(2) by auto
  qed
qed

lemma timed_levels_end:
  assumes "bounded_steps W B (concat levels)"
  shows "\<exists>t. timed_levels W levels res = Some (t, Inr (foldl (run_level (untimed W)) res levels)) \<and>
    0 \<le> t \<and> t \<le> of_nat (length levels) * B"
  using assms
proof (induction levels arbitrary: res)
  case (Cons level levels)
  let ?run = "filter (\<lambda>s. \<not> failed_dep res s) level"
  have "bounded_steps W B ?run" "bounded_steps W B (concat levels)" using Cons.prems by (auto simp: bounded_steps_def)
  then obtain t where t: "gather_steps (hierarchical_run_step W None) ?run = Some (t, Inr (map (run_step (untimed W)) ?run))"
      "0 \<le> t" "t \<le> B"
    using gather_in_time unfolding hierarchical_run_step_def by blast
  obtain u where "timed_levels W levels (run_level (untimed W) res level) =
      Some (u, Inr (foldl (run_level (untimed W)) (run_level (untimed W) res level) levels))"
      "0 \<le> u" "u \<le> of_nat (length levels) * B"
    using Cons.IH [OF \<open>bounded_steps W B (concat levels)\<close>] by blast
  moreover have "run_level (untimed W) res level =
      store (run_step (untimed W)) (store (skipped ''parent_step_failed'') res (filter (failed_dep res) level)) ?run"
    by (simp add: run_level_def)
  ultimately show ?case using t by (auto simp: Let_def store_zip algebra_simps)
qed simp

lemma put_levels_subset:
  "set (concat (foldl (put_level depth) levels steps)) \<subseteq> set (concat levels) \<union> set steps"
proof (induction steps arbitrary: levels)
  case (Cons s steps)
  let ?k = "dict_get_or depth (step_id s) 0"
  have "set (concat (put_level depth levels s)) \<subseteq> insert s (set (concat levels))"
  proof (cases "?k < length levels")
    case True
    then have "levels ! ?k \<in> set levels" by simp
    moreover have "set (put_level depth levels s) \<subseteq> insert (levels ! ?k @ [s]) (set levels)"
      unfolding put_level_def Let_def by (rule set_update_subset_insert)
    ultimately show ?thesis by fastforce
  qed (simp add: put_level_def Let_def list_update_beyond subset_insertI)
  with Cons [of "put_level depth levels s"] show ?case by auto
qed simp

lemma compute_levels_subset:
  assumes "compute_levels steps = Inr levels"
  shows "set (concat levels) \<subseteq> set steps"
proof -
  obtain depth n where "levels = foldl (put_level depth) (replicate n []) steps"
    using assms unfolding compute_levels_def and_then_Inr Let_def by blast
  then show ?thesis using put_levels_subset [of depth "replicate n []" steps] by auto
qed

lemma hierarchical_in_time:
  assumes "bounded_steps W B steps"
  shows "\<exists>t. timed_hierarchical W wid steps = Some (hierarchical_execute (untimed W) wid (t * 1000) steps) \<and>
    0 \<le> t \<and> (\<forall>levels. compute_levels steps = Inr levels \<longrightarrow> t \<le> of_nat (length levels) * B)"
proof (cases "compute_levels steps")
  case (Inl x)
  then show ?thesis by (intro exI [of _ 0]) (cases "validate_hierarchy steps"; simp add: timed_hierarchical_def hierarchical_execute_def)
next
  case (Inr levels)
  have "bounded_steps W B (concat levels)"
    using assms compute_levels_subset [OF Inr] unfolding bounded_steps_def by blast
  then obtain t where "timed_levels W levels [] = Some (t, Inr (foldl (run_level (untimed W)) [] levels))"
    "0 \<le> t" "t \<le> of_nat (length levels) * B" using timed_levels_end by blast
  then show ?thesis using Inr
    by (intro exI [of _ t]) (cases "validate_hierarchy steps"; simp add: timed_hierarchical_def hierarchical_execute_def Let_def)
qed

section \<open>Properties\<close>

lemma bounded_allowance:
  assumes "bounded_steps W B ss"
  shows "(\<Sum>s\<leftarrow>ss. allowance s) \<le> of_nat (length ss) * B"
  using assms
proof (induction ss)
  case (Cons s ss)
  then have "bounded_steps W B ss" by (simp add: bounded_steps_def)
  moreover have "allowance s \<le> B" using Cons.prems by (auto simp: bounded_steps_def allowance_def)
  ultimately show ?case using Cons.IH by (simp add: algebra_simps)
qed simp


text \<open>A step whose agent never answers is stopped after two seconds.\<close>

definition silent_world :: timed_world where
  "silent_world = \<lparr>agent_runs = (\<lambda>s. \<lparr>finishes_after = None, ends_with = Gives []\<rparr>), timed_text = (\<lambda>_. ''late'')\<rparr>"


text \<open>
  Nothing else bounds the time of a workflow. A step without a timeout whose agent never ends keeps
  the sequential executor waiting for ever, and a parallel executor whose first wave has such a step. A
  timeout raised by the agent itself is reported as the step's own, also when the step has none. A
  cancellation is a result in the competitive and consensus executors and an exception in the others.
\<close>

theorem step_without_timeout:
  assumes "step_timeout s = None"
  shows "(finishes_after (agent_runs W s) = None \<longrightarrow> timed_sequential W wid (s # rest) = None \<and>
      (depends_on s = [] \<longrightarrow> timed_parallel W wid [s] = None)) \<and>
    (agent_runs W s = \<lparr>finishes_after = Some t, ends_with = RaisesTimeout\<rparr> \<longrightarrow>
      sequential_run_step W None s = Some (t, Inr (failed_result s (t * 1000) (timed_text W None)))) \<and>
    (finishes_after (agent_runs W s) = None \<longrightarrow>
      competitive_run_step W (Some c) s = Some (c, Inr (failed_result s (c * 1000) ''cancelled'')) \<and>
      consensus_run_step W (Some c) s = competitive_run_step W (Some c) s \<and>
      hierarchical_run_step W (Some c) s = Some (c, Inl (BaseExc ''CancelledError'')))"
proof -
  have "timed_parallel W wid [s] = None" if never: "finishes_after (agent_runs W s) = None" and deps: "depends_on s = []"
  proof -
    have "parallel_run_step W None s = None"
      using assms never by (simp add: parallel_run_step_def timed_step_def await_agent_def)
    then have "gather_steps (parallel_run_step W None) [s] = None" by (simp add: gather_steps_def)
    moreover have "ready_steps [] [s] = [s]" "skip_steps [] [s] = []"
      using deps by (simp_all add: ready_steps_def skip_steps_def completed_deps_def failed_dep_def)
    ultimately have "timed_waves W [s] [] = None" by (subst timed_waves.simps) simp
    moreover have "validate_dependencies [s] = Inr ()"
      using deps by (simp add: validate_dependencies_def unknown_dependency_def Let_def kahn.simps
          initial_degrees_def dependents_of_def dict_get_or_def)
    ultimately show ?thesis by (simp add: timed_parallel_def)
  qed
  then show ?thesis
    using assms by (auto simp: timed_sequential_def sequential_run_step_def competitive_run_step_def consensus_run_step_def
        hierarchical_run_step_def timed_step_def await_agent_def)
qed

theorem step_without_timeout_witness: "timed_sequential silent_world ''w'' [example_step ''s'' []] = None"
proof -
  have "step_timeout (example_step ''s'' []) = None" by (simp add: example_step_def)
  from step_without_timeout [OF this, of silent_world "''w''" "[]"] show ?thesis by (simp add: silent_world_def)
qed

end
