(* ===== verification/YAML_Workflow.thy ===== *)
theory YAML_Workflow
  imports Messages "HOL-Library.Sublist"
begin

text \<open>
  \<open>workflows/yaml_workflow.py\<close>: the schema check that turns a parsed YAML document into steps, and the
  engine that executes them on a context. A document is a JSON-like value whose mappings have
  strings as keys. A context value is data or a callable, which is a number that names the
  callable; the world says what a call returns. Reading the file and the text of the document is
  not modelled, so a workflow starts from the value that the YAML library returns.
\<close>

section \<open>Documents and steps\<close>

datatype yaml_step = YAMLWorkflowStep
  (yname: string) (step_type: string) (agent: json) (inputs: "(string, string) dict") (outputs: "string list")
  (condition: "string option") (if_steps: "yaml_step list") (else_steps: "yaml_step list") (sub_steps: "yaml_step list")

definition valid_step_types :: "string set" where
  "valid_step_types = {''task'', ''parallel'', ''conditional''}"

definition require_str :: "(string, json) dict \<Rightarrow> string \<Rightarrow> exn + string" where
  "require_str mapping key =
     (case dict_get mapping key of
        None \<Rightarrow> Inl (YAMLValidationError ''is required'')
      | Some v \<Rightarrow>
          (case v of
             JNull \<Rightarrow> Inl (YAMLValidationError ''is required'')
           | JStr s \<Rightarrow> Inr s
           | _ \<Rightarrow> Inl (YAMLValidationError ''must be a string'')))"

text \<open>What \<open>enumerate\<close> runs over: \<open>if_steps\<close> and \<open>else_steps\<close> are not checked to be lists.\<close>

fun iterate :: "json \<Rightarrow> exn + json list" where
  "iterate (JList vs) = Inr vs"
| "iterate (JStr s) = Inr (map (\<lambda>c. JStr [c]) s)"
| "iterate (JObj d) = Inr (map (\<lambda>(k, _). JStr k) d)"
| "iterate _ = Inl (TypeError ''not iterable'')"

fun as_mapping :: "json \<Rightarrow> exn + (string, json) dict" where
  "as_mapping (JObj d) = Inr d"
| "as_mapping _ = Inl (YAMLValidationError ''must be a mapping'')"

fun as_list :: "json \<Rightarrow> exn + json list" where
  "as_list (JList vs) = Inr vs"
| "as_list _ = Inl (YAMLValidationError ''must be a list'')"

lemma as_list_iterate: "as_list v = Inr xs \<Longrightarrow> iterate v = Inr xs"
  by (cases v) simp_all

lemma field_size: "dict_get d k = Some v \<Longrightarrow> size v < size (JObj d)"
proof (induction d)
  case (Cons p d)
  then show ?case by (cases p) (auto split: if_splits)
qed simp

lemma iterate_size: "iterate v = Inr xs \<Longrightarrow> x \<in> set xs \<Longrightarrow> size x \<le> size v"
proof (cases v)
  case (JList vs)
  assume "iterate v = Inr xs" "x \<in> set xs"
  then have "x \<in> set vs" using JList by simp
  then have "size x < Suc (size_list size vs)" by (simp add: less_Suc_eq_le size_list_estimation')
  then show ?thesis using JList by simp
qed auto

lemma field_items_size:
  assumes "iterate (dict_get_or d k (JList [])) = Inr xs" "x \<in> set xs"
  shows "size x < size (JObj d)"
proof (cases "dict_get d k")
  case None
  then show ?thesis using assms by (simp add: dict_get_or_def)
next
  case (Some v)
  then have "size x \<le> size v" using assms iterate_size by (simp add: dict_get_or_def)
  with field_size [OF Some] show ?thesis by simp
qed

function parse_step :: "builtins \<Rightarrow> json \<Rightarrow> exn + yaml_step" where
  "parse_step B raw =
     (case raw of
        JObj d \<Rightarrow>
          and_then (require_str d ''name'') (\<lambda>name.
          and_then (require_str d ''type'') (\<lambda>t.
          if t \<notin> valid_step_types then Inl (YAMLValidationError ''unknown type'')
          else
          and_then (as_mapping (dict_get_or d ''inputs'' (JObj []))) (\<lambda>raw_inputs.
          and_then (as_list (dict_get_or d ''outputs'' (JList []))) (\<lambda>raw_outputs.
          let make = YAMLWorkflowStep name t (dict_get_or d ''agent'' JNull) (map (\<lambda>(k, v). (k, py_str B v)) raw_inputs)
                       (map (py_str B) raw_outputs)
          in if t = ''conditional''
             then and_then (require_str d ''condition'') (\<lambda>c.
                  and_then (iterate (dict_get_or d ''if_steps'' (JList []))) (\<lambda>raw_if.
                  and_then (traverse (parse_step B) raw_if) (\<lambda>ifs.
                  and_then (iterate (dict_get_or d ''else_steps'' (JList []))) (\<lambda>raw_else.
                  and_then (traverse (parse_step B) raw_else) (\<lambda>elses.
                  Inr (make (Some c) ifs elses []))))))
             else if t = ''parallel''
             then and_then (as_list (dict_get_or d ''steps'' (JList []))) (\<lambda>raw_sub.
                  and_then (traverse (parse_step B) raw_sub) (\<lambda>subs.
                  Inr (make None [] [] subs)))
             else Inr (make None [] [] [])))))
      | _ \<Rightarrow> Inl (YAMLValidationError ''must be a mapping''))"
  by pat_completeness auto
termination
  by (relation "measure (\<lambda>(_, raw). size raw)")
    (simp_all add: field_items_size as_list_iterate field_items_size [OF as_list_iterate] del: json.size)

definition parse_workflow_document :: "builtins \<Rightarrow> json \<Rightarrow> exn + (string \<times> yaml_step list)" where
  "parse_workflow_document B document =
     and_then (as_mapping document) (\<lambda>d.
     and_then (require_str d ''name'') (\<lambda>name.
     and_then (as_list (dict_get_or d ''steps'' (JList []))) (\<lambda>raw_steps.
     and_then (traverse (parse_step B) raw_steps) (\<lambda>steps. Inr (name, steps)))))"

text \<open>What the YAML library makes of a text, if it is installed.\<close>

definition load_yaml :: "bool \<Rightarrow> (string \<Rightarrow> exn + json) \<Rightarrow> string \<Rightarrow> exn + json" where
  "load_yaml available safe_load text =
     (if \<not> available then Inl (YAMLWorkflowError ''PyYAML is required'')
      else case safe_load text of
        Inl x \<Rightarrow> Inl (if is_exception x then YAMLParseError ''Failed to parse YAML'' else x)
      | Inr v \<Rightarrow> Inr v)"

definition from_yaml ::
    "builtins \<Rightarrow> bool \<Rightarrow> (string \<Rightarrow> exn + json) \<Rightarrow> string \<Rightarrow> exn + (string \<times> yaml_step list)" where
  "from_yaml B available safe_load text = and_then (load_yaml available safe_load text) (parse_workflow_document B)"

text \<open>A file system: what reading a path gives, \<open>None\<close> when it does not exist.\<close>

definition from_file ::
    "builtins \<Rightarrow> bool \<Rightarrow> (string \<Rightarrow> exn + json) \<Rightarrow> (string \<Rightarrow> (exn + string) option) \<Rightarrow> string \<Rightarrow>
     exn + (string \<times> yaml_step list)" where
  "from_file B available safe_load files path =
     (case files path of
        None \<Rightarrow> Inl (FileNotFoundError path)
      | Some content \<Rightarrow> and_then content (from_yaml B available safe_load))"

section \<open>Contexts\<close>

datatype cvalue = Data json | Callable nat

type_synonym yaml_context = "(string, cvalue) dict"

text \<open>\<open>s.split(c)\<close> on one character.\<close>

fun split_on :: "char \<Rightarrow> string \<Rightarrow> string list" where
  "split_on c [] = [[]]"
| "split_on c (x # xs) =
     (if x = c then [] # split_on c xs
      else case split_on c xs of [] \<Rightarrow> [[x]] | w # ws \<Rightarrow> (x # w) # ws)"

fun walk :: "json \<Rightarrow> string list \<Rightarrow> json" where
  "walk v [] = v"
| "walk (JObj d) (part # parts) = walk (dict_get_or d part JNull) parts"
| "walk _ (part # parts) = JNull"

fun walk_context :: "yaml_context \<Rightarrow> string list \<Rightarrow> cvalue" where
  "walk_context ctx [] = Data JNull"
| "walk_context ctx (part # parts) =
     (case dict_get ctx part of
        None \<Rightarrow> Data (walk JNull parts)
      | Some (Data v) \<Rightarrow> Data (walk v parts)
      | Some (Callable n) \<Rightarrow> if parts = [] then Callable n else Data JNull)"

definition resolve_dot_path :: "yaml_context \<Rightarrow> string \<Rightarrow> cvalue" where
  "resolve_dot_path ctx path = walk_context ctx (split_on (CHR ''.'') path)"

fun is_truthy :: "cvalue \<Rightarrow> bool" where
  "is_truthy (Data v) = truthy v"
| "is_truthy (Callable n) = True"

definition resolve_inputs :: "(string, string) dict \<Rightarrow> yaml_context \<Rightarrow> yaml_context" where
  "resolve_inputs step_inputs ctx =
     foldl (\<lambda>res (param, key). dict_set param (dict_get_or ctx key (Data (JStr key))) res) [] step_inputs"

text \<open>Equality of values: booleans and numbers compare by value, mappings regardless of order.\<close>

fun number_of :: "json \<Rightarrow> rat option" where
  "number_of (JBool b) = Some (if b then 1 else 0)"
| "number_of (JInt n) = Some (of_int n)"
| "number_of (JFloat x) = Some x"
| "number_of _ = None"

function py_eq :: "json \<Rightarrow> json \<Rightarrow> bool" where
  "py_eq JNull w = (w = JNull)"
| "py_eq (JStr s) w = (w = JStr s)"
| "py_eq (JList xs) w =
     (case w of JList ys \<Rightarrow> length xs = length ys \<and> list_all (\<lambda>(x, y). py_eq x y) (zip xs ys) | _ \<Rightarrow> False)"
| "py_eq (JObj d) w =
     (case w of
        JObj e \<Rightarrow> length d = length e \<and>
          list_all (\<lambda>(k, x). case dict_get e k of None \<Rightarrow> False | Some y \<Rightarrow> py_eq x y) d
      | _ \<Rightarrow> False)"
| "py_eq (JBool b) w = (number_of w = Some (if b then 1 else 0))"
| "py_eq (JInt n) w = (number_of w = Some (of_int n))"
| "py_eq (JFloat x) w = (number_of w = Some x)"
  by pat_completeness auto
termination
proof (relation "measure (\<lambda>(v, w). size v)", goal_cases)
  case (2 xs w ys p x y)
  then have "x \<in> set xs" by (auto dest: set_zip_leftD)
  then show ?case by (simp add: less_Suc_eq_le size_list_estimation')
next
  case (3 d w e p k x y)
  then have "(k, x) \<in> set d" by simp
  then show ?case by (simp add: less_Suc_eq_le size_list_estimation')
qed simp

fun same_value :: "cvalue \<Rightarrow> cvalue \<Rightarrow> bool" where
  "same_value (Data v) (Data w) = py_eq v w"
| "same_value (Callable n) (Callable m) = (n = m)"
| "same_value _ _ = False"

section \<open>Execution\<close>

text \<open>The world gives the result of a call with keyword arguments, or the text of what it raises.\<close>

type_synonym yaml_world = "nat \<Rightarrow> yaml_context \<Rightarrow> string + cvalue"

record yaml_state =
  yctx :: yaml_context
  steps_completed :: "string list"
  yerrors :: "(string \<times> string) list"

definition add_error :: "string \<Rightarrow> string \<Rightarrow> yaml_state \<Rightarrow> yaml_state" where
  "add_error name msg st = st\<lparr>yerrors := yerrors st @ [(name, msg)]\<rparr>"

definition add_completed :: "string \<Rightarrow> yaml_state \<Rightarrow> yaml_state" where
  "add_completed name st = st\<lparr>steps_completed := steps_completed st @ [name]\<rparr>"

text \<open>\<open>context.get(step.agent)\<close>: the agent may be any value of the document.\<close>

fun find_handler :: "json \<Rightarrow> yaml_context \<Rightarrow> exn + cvalue option" where
  "find_handler (JStr a) ctx = Inr (case dict_get ctx a of Some (Data JNull) \<Rightarrow> None | v \<Rightarrow> v)"
| "find_handler (JList _) ctx = Inl (TypeError ''unhashable type'')"
| "find_handler (JObj _) ctx = Inl (TypeError ''unhashable type'')"
| "find_handler _ ctx = Inr None"

definition merge_result :: "string list \<Rightarrow> cvalue \<Rightarrow> yaml_context \<Rightarrow> yaml_context" where
  "merge_result outs result ctx =
     (case result of
        Data (JObj r) \<Rightarrow> foldl (\<lambda>c k. case dict_get r k of None \<Rightarrow> c | Some v \<Rightarrow> dict_set k (Data v) c) ctx outs
      | _ \<Rightarrow> (case outs of [] \<Rightarrow> ctx | k # _ \<Rightarrow> dict_set k result ctx))"

definition execute_task :: "yaml_world \<Rightarrow> yaml_step \<Rightarrow> yaml_state \<Rightarrow> exn + yaml_state" where
  "execute_task W step st =
     (if agent step = JNull then Inr (add_error (yname step) ''missing agent'' st)
      else case find_handler (agent step) (yctx st) of
        Inl x \<Rightarrow> Inl x
      | Inr None \<Rightarrow> Inr (add_error (yname step) ''not found in execution context'' st)
      | Inr (Some (Data _)) \<Rightarrow> Inr (add_error (yname step) ''is not callable'' st)
      | Inr (Some (Callable n)) \<Rightarrow>
          (case W n (resolve_inputs (inputs step) (yctx st)) of
             Inl msg \<Rightarrow> Inr (add_error (yname step) msg st)
           | Inr result \<Rightarrow> Inr (add_completed (yname step) (st\<lparr>yctx := merge_result (outputs step) result (yctx st)\<rparr>))))"

text \<open>The two composite steps, given the function that executes a step.\<close>

definition execute_parallel ::
    "(yaml_step \<Rightarrow> yaml_state \<Rightarrow> exn + yaml_state) \<Rightarrow> yaml_step \<Rightarrow> yaml_state \<Rightarrow> exn + yaml_state" where
  "execute_parallel run step st =
     and_then (each run (sub_steps step) \<lparr>yctx = yctx st, steps_completed = [], yerrors = []\<rparr>) (\<lambda>sub.
       let st' = \<lparr>yctx = yctx sub, steps_completed = steps_completed st @ steps_completed sub,
                  yerrors = yerrors st @ yerrors sub\<rparr>
       in Inr (if yerrors sub = [] then add_completed (yname step) st' else st'))"

definition execute_conditional ::
    "(yaml_step \<Rightarrow> yaml_state \<Rightarrow> exn + yaml_state) \<Rightarrow> yaml_step \<Rightarrow> yaml_state \<Rightarrow> exn + yaml_state" where
  "execute_conditional run step st =
     (case condition step of
        None \<Rightarrow> Inr (add_error (yname step) ''missing condition'' st)
      | Some c \<Rightarrow>
          and_then
            (each run (if is_truthy (resolve_dot_path (yctx st) c) then if_steps step else else_steps step) st)
            (\<lambda>st'. Inr (add_completed (yname step) st')))"

lemma execute_parallel_cong [fundef_cong]:
  assumes "step = step'" "st = st'" "\<And>x s. x \<in> set (sub_steps step') \<Longrightarrow> f x s = g x s"
  shows "execute_parallel f step st = execute_parallel g step' st'"
proof -
  have "each f (sub_steps step') s = each g (sub_steps step') s" for s by (rule each_cong) (simp_all add: assms(3))
  then show ?thesis unfolding execute_parallel_def assms(1,2) by simp
qed

lemma execute_conditional_cong [fundef_cong]:
  assumes "step = step'" "st = st'" "\<And>x s. x \<in> set (if_steps step') \<union> set (else_steps step') \<Longrightarrow> f x s = g x s"
  shows "execute_conditional f step st = execute_conditional g step' st'"
proof -
  have "each f xs s = each g xs s" if "xs \<in> {if_steps step', else_steps step'}" for xs s
    by (rule each_cong) (use that assms(3) in auto)
  then show ?thesis unfolding execute_conditional_def assms(1,2) by (simp split: option.split)
qed

function execute_step :: "yaml_world \<Rightarrow> yaml_step \<Rightarrow> yaml_state \<Rightarrow> exn + yaml_state" where
  "execute_step W step st =
     (if step_type step = ''task'' then execute_task W step st
      else if step_type step = ''parallel'' then execute_parallel (execute_step W) step st
      else if step_type step = ''conditional'' then execute_conditional (execute_step W) step st
      else Inr st)"
  by pat_completeness auto
termination
proof (relation "measure (\<lambda>(_, step, _). size step)", goal_cases)
  case (2 W step st x s)
  then have "size x \<le> size_list size (sub_steps step)" by (simp add: size_list_estimation')
  then show ?case by (cases step) simp
next
  case (3 W step st x s)
  then have "size x \<le> size_list size (if_steps step) \<or> size x \<le> size_list size (else_steps step)"
    by (auto simp: size_list_estimation')
  then show ?case by (cases step) auto
qed simp

declare execute_step.simps [simp del]

record yaml_result =
  yr_completed :: "string list"
  yr_outputs :: yaml_context
  yr_duration :: rat
  yr_errors :: "(string \<times> string) list"

definition yr_success :: "yaml_result \<Rightarrow> bool" where
  "yr_success r \<longleftrightarrow> yr_errors r = []"

definition changed_outputs :: "yaml_context \<Rightarrow> yaml_context \<Rightarrow> yaml_context" where
  "changed_outputs ctx final =
     foldl (\<lambda>out (k, v). case dict_get ctx k of
              None \<Rightarrow> out | Some w \<Rightarrow> if same_value w v then out else dict_set k v out)
       (filter (\<lambda>(k, v). \<not> dict_has ctx k) final) final"

definition yaml_execute :: "yaml_world \<Rightarrow> rat \<Rightarrow> yaml_step list \<Rightarrow> yaml_context \<Rightarrow> exn + yaml_result" where
  "yaml_execute W dur steps ctx =
     and_then (each (execute_step W) steps \<lparr>yctx = ctx, steps_completed = [], yerrors = []\<rparr>) (\<lambda>st.
       Inr \<lparr>yr_completed = steps_completed st, yr_outputs = changed_outputs ctx (yctx st), yr_duration = dur,
            yr_errors = yerrors st\<rparr>)"

section \<open>Lemmas: parsing\<close>

text \<open>What the schema check promises of a step.\<close>

fun well_formed :: "yaml_step \<Rightarrow> bool" where
  "well_formed (YAMLWorkflowStep n t a i outs c ifs elses subs) \<longleftrightarrow>
     t \<in> valid_step_types \<and> (c \<noteq> None \<longleftrightarrow> t = ''conditional'') \<and> (t = ''conditional'' \<or> ifs = [] \<and> elses = []) \<and>
     (t = ''parallel'' \<or> subs = []) \<and> list_all well_formed ifs \<and> list_all well_formed elses \<and> list_all well_formed subs"

lemma traverse_well_formed:
  assumes "traverse f xs = Inr ys" "\<And>x y. x \<in> set xs \<Longrightarrow> f x = Inr y \<Longrightarrow> well_formed y"
  shows "list_all well_formed ys"
  using traverse_elems [OF assms(1)] assms(2) by (auto simp: list_all_iff)

lemma parse_step_well_formed: "parse_step B raw = Inr s \<Longrightarrow> well_formed s"
proof (induction "size raw" arbitrary: raw s rule: less_induct)
  case less
  obtain d where raw: "raw = JObj d" using less.prems by (cases raw) simp_all
  have sub: "list_all well_formed ys"
    if "iterate (dict_get_or d k (JList [])) = Inr xs" "traverse (parse_step B) xs = Inr ys" for k xs ys
  proof (rule traverse_well_formed [OF that(2)])
    fix x y assume "x \<in> set xs" "parse_step B x = Inr y"
    then show "well_formed y" using less.hyps [of x] field_items_size [OF that(1)] raw by simp
  qed
  obtain name t where t: "t \<in> valid_step_types" "require_str d ''name'' = Inr name" "require_str d ''type'' = Inr t"
    using less.prems raw by (auto simp: and_then_Inr split: if_splits)
  obtain raw_inputs raw_outputs where io: "as_mapping (dict_get_or d ''inputs'' (JObj [])) = Inr raw_inputs"
    "as_list (dict_get_or d ''outputs'' (JList [])) = Inr raw_outputs"
    using less.prems raw t by (auto simp: and_then_Inr split: if_splits)
  consider "t = ''conditional''" | "t = ''parallel''" | "t = ''task''" using t(1) by (auto simp: valid_step_types_def)
  then show ?case
  proof cases
    case 1
    then show ?thesis using less.prems raw t io sub by (auto simp: and_then_Inr Let_def valid_step_types_def)
  next
    case 2
    then show ?thesis using less.prems raw t io sub [OF as_list_iterate]
      by (auto simp: and_then_Inr Let_def valid_step_types_def)
  next
    case 3
    then show ?thesis using less.prems raw t io by (auto simp: and_then_Inr Let_def valid_step_types_def)
  qed
qed

section \<open>Lemmas: execution\<close>

fun tasks_of :: "yaml_step \<Rightarrow> yaml_step list" where
  "tasks_of (YAMLWorkflowStep n t a i outs c ifs elses subs) =
     (if t = ''task'' then [YAMLWorkflowStep n t a i outs c ifs elses subs]
      else concat (map tasks_of (ifs @ elses @ subs)))"

text \<open>The reports of a run do not influence it: they can be put in front afterwards.\<close>

definition in_front :: "string list \<Rightarrow> (string \<times> string) list \<Rightarrow> yaml_state \<Rightarrow> yaml_state" where
  "in_front c e st = st\<lparr>steps_completed := c @ steps_completed st, yerrors := e @ yerrors st\<rparr>"

lemma execute_task_in_front: "execute_task W t (in_front c e st) = map_sum id (in_front c e) (execute_task W t st)"
  by (simp add: execute_task_def in_front_def add_error_def add_completed_def
      split: sum.split option.split cvalue.split)

lemma each_in_front:
  "each (execute_task W) ts (in_front c e st) = map_sum id (in_front c e) (each (execute_task W) ts st)"
proof (induction ts arbitrary: st)
  case (Cons t ts)
  then show ?case by (cases "execute_task W t st") (simp_all add: execute_task_in_front)
qed simp

lemma each_append: "each f (xs @ ys) s = and_then (each f xs s) (each f ys)"
proof (induction xs arbitrary: s)
  case (Cons x xs)
  then show ?case by (cases "f x s") simp_all
qed simp

text \<open>A run that does to the context and to the errors what a sequence of tasks does.\<close>

definition linear :: "yaml_world \<Rightarrow> yaml_step list \<Rightarrow> yaml_state \<Rightarrow> yaml_state \<Rightarrow> bool" where
  "linear W ts st st' \<longleftrightarrow> (\<exists>u. each (execute_task W) ts st = Inr u \<and> yctx u = yctx st' \<and> yerrors u = yerrors st' \<and>
     subseq (steps_completed u) (steps_completed st'))"

lemma linear_append:
  assumes "linear W ts st st1" "linear W ts' st1 st2"
  shows "linear W (ts @ ts') st st2"
proof -
  obtain u where u: "each (execute_task W) ts st = Inr u" "yctx u = yctx st1" "yerrors u = yerrors st1"
    "subseq (steps_completed u) (steps_completed st1)" using assms(1) unfolding linear_def by blast
  obtain v where v: "each (execute_task W) ts' st1 = Inr v" "yctx v = yctx st2" "yerrors v = yerrors st2"
    "subseq (steps_completed v) (steps_completed st2)" using assms(2) unfolding linear_def by blast
  define s0 where "s0 = \<lparr>yctx = yctx st1, steps_completed = [], yerrors = []\<rparr>"
  have fronts: "st1 = in_front (steps_completed st1) (yerrors st1) s0" "u = in_front (steps_completed u) (yerrors st1) s0"
    using u(2,3) by (simp_all add: s0_def in_front_def)
  obtain w where w: "each (execute_task W) ts' s0 = Inr w" "v = in_front (steps_completed st1) (yerrors st1) w"
    using v(1) each_in_front [of W ts' "steps_completed st1" "yerrors st1" s0] fronts(1)
    by (cases "each (execute_task W) ts' s0") auto
  have "each (execute_task W) ts' u = Inr (in_front (steps_completed u) (yerrors st1) w)"
    using each_in_front [of W ts' "steps_completed u" "yerrors st1" s0] fronts(2) w(1) by simp
  moreover have "subseq (steps_completed u @ steps_completed w) (steps_completed st2)"
  proof -
    have *: "subseq (steps_completed u @ steps_completed w) (steps_completed st1 @ steps_completed w)"
      using u(4) by (rule list_emb_append_mono) simp
    have "subseq (steps_completed st1 @ steps_completed w) (steps_completed st2)"
      using v(4) w(2) by (simp add: in_front_def)
    with * show ?thesis by (rule subseq_order.order_trans)
  qed
  ultimately show ?thesis
    using u(1) v(2,3) w(2) unfolding linear_def each_append by (simp add: in_front_def)
qed

lemma linear_in_front:
  assumes "linear W ts st st'"
  shows "linear W ts (in_front c e st) (in_front c e st')"
proof -
  obtain u where "each (execute_task W) ts st = Inr u" "yctx u = yctx st'" "yerrors u = yerrors st'"
    "subseq (steps_completed u) (steps_completed st')" using assms unfolding linear_def by blast
  then show ?thesis unfolding linear_def each_in_front by (auto simp: in_front_def intro: list_emb_append_mono)
qed

lemma linear_completed: "linear W ts st st' \<Longrightarrow> linear W ts st (add_completed n st')"
  unfolding linear_def add_completed_def by (auto intro: subseq_order.order_trans)

lemma each_linear:
  assumes "\<And>x st st'. x \<in> set xs \<Longrightarrow> f x st = Inr st' \<Longrightarrow> \<exists>ts. set ts \<subseteq> set (tasks_of x) \<and> linear W ts st st'"
  shows "each f xs st = Inr st' \<Longrightarrow> \<exists>ts. set ts \<subseteq> set (concat (map tasks_of xs)) \<and> linear W ts st st'"
  using assms
proof (induction xs arbitrary: st)
  case Nil
  then show ?case by (intro exI [of _ "[]"]) (simp add: linear_def)
next
  case (Cons x xs)
  obtain st1 where one: "f x st = Inr st1" "each f xs st1 = Inr st'" using Cons.prems(1) by (auto simp: and_then_Inr)
  obtain ts where ts: "set ts \<subseteq> set (tasks_of x)" "linear W ts st st1" using Cons.prems(2) [OF _ one(1)] by auto
  obtain ts' where ts': "set ts' \<subseteq> set (concat (map tasks_of xs))" "linear W ts' st1 st'"
    using Cons.IH [OF one(2)] Cons.prems(2) by auto
  show ?case using ts(1) ts'(1) linear_append [OF ts(2) ts'(2)] by (intro exI [of _ "ts @ ts'"]) auto
qed

lemma well_formed_subs:
  assumes "well_formed s" "x \<in> set (if_steps s) \<union> set (else_steps s) \<union> set (sub_steps s)"
  shows "well_formed x"
  using assms by (cases s) (auto simp: list_all_iff)

lemma tasks_of_subs:
  assumes "step_type s \<noteq> ''task''" "set xs \<subseteq> set (if_steps s) \<union> set (else_steps s) \<union> set (sub_steps s)"
  shows "set (concat (map tasks_of xs)) \<subseteq> set (tasks_of s)"
  using assms by (cases s) (auto 0 4)

lemma execute_linear:
  "well_formed s \<Longrightarrow> execute_step W s st = Inr st' \<Longrightarrow> \<exists>ts. set ts \<subseteq> set (tasks_of s) \<and> linear W ts st st'"
proof (induction W s st arbitrary: st' rule: execute_step.induct)
  case (1 W s st)
  have "step_type s \<in> valid_step_types" using 1(3) by (cases s) simp
  then consider (task) "step_type s = ''task''" | (par) "step_type s = ''parallel''" | (cond) "step_type s = ''conditional''"
    by (auto simp: valid_step_types_def)
  then show ?case
  proof cases
    case task
    then have "execute_task W s st = Inr st'" using 1(4) by (simp add: execute_step.simps)
    moreover have "s \<in> set (tasks_of s)" using task by (cases s) simp
    ultimately show ?thesis by (intro exI [of _ "[s]"]) (simp add: linear_def)
  next
    case par
    let ?s0 = "\<lparr>yctx = yctx st, steps_completed = [], yerrors = []\<rparr>"
    obtain sub where sub: "each (execute_step W) (sub_steps s) ?s0 = Inr sub"
      using 1(4) par by (auto simp: execute_step.simps [of W s] execute_parallel_def execute_conditional_def and_then_Inr)
    have st': "st' = (if yerrors sub = [] then add_completed (yname s) (in_front (steps_completed st) (yerrors st) sub)
        else in_front (steps_completed st) (yerrors st) sub)"
      using 1(4) par sub by (cases sub) (auto simp: execute_step.simps [of W s] execute_parallel_def Let_def in_front_def)
    have "\<exists>ts. set ts \<subseteq> set (concat (map tasks_of (sub_steps s))) \<and> linear W ts ?s0 sub"
    proof (rule each_linear [OF _ sub])
      fix x u v assume x: "x \<in> set (sub_steps s)" "execute_step W x u = Inr v"
      have "well_formed x" using well_formed_subs [OF 1(3)] x(1) by blast
      with x par show "\<exists>ts. set ts \<subseteq> set (tasks_of x) \<and> linear W ts u v" by (intro 1(1)) simp_all
    qed
    then obtain ts where ts: "set ts \<subseteq> set (concat (map tasks_of (sub_steps s)))" "linear W ts ?s0 sub" by blast
    have "set ts \<subseteq> set (tasks_of s)" using ts(1) tasks_of_subs [of s "sub_steps s"] par by auto
    moreover have "linear W ts st st'"
    proof -
      have "in_front (steps_completed st) (yerrors st) ?s0 = st" by (simp add: in_front_def)
      then show ?thesis using linear_in_front [OF ts(2), of "steps_completed st" "yerrors st"] st'
        by (auto intro: linear_completed)
    qed
    ultimately show ?thesis by blast
  next
    case cond
    then obtain c where c: "condition s = Some c" using 1(3) by (cases s) auto
    let ?xs = "if is_truthy (resolve_dot_path (yctx st) c) then if_steps s else else_steps s"
    obtain u where u: "each (execute_step W) ?xs st = Inr u" "st' = add_completed (yname s) u"
      using 1(4) cond c by (auto simp: execute_step.simps [of W s] execute_parallel_def execute_conditional_def and_then_Inr)
    have "\<exists>ts. set ts \<subseteq> set (concat (map tasks_of ?xs)) \<and> linear W ts st u"
    proof (rule each_linear [OF _ u(1)])
      fix x v w assume x: "x \<in> set ?xs" "execute_step W x v = Inr w"
      have "well_formed x" using well_formed_subs [OF 1(3)] x(1) by (auto split: if_splits)
      with x cond show "\<exists>ts. set ts \<subseteq> set (tasks_of x) \<and> linear W ts v w"
        by (intro 1(2)) (auto split: if_splits)
    qed
    then obtain ts where ts: "set ts \<subseteq> set (concat (map tasks_of ?xs))" "linear W ts st u" by blast
    have "set ?xs \<subseteq> set (if_steps s) \<union> set (else_steps s) \<union> set (sub_steps s)" by (simp split: if_splits) blast
    then have "set ts \<subseteq> set (tasks_of s)" using ts(1) tasks_of_subs [of s ?xs] cond by (simp only:) auto
    then show ?thesis using linear_completed [OF ts(2)] u(2) by blast
  qed
qed

lemma linear_steps:
  assumes "list_all well_formed steps" "each (execute_step W) steps st = Inr st'"
  shows "\<exists>ts. set ts \<subseteq> set (concat (map tasks_of steps)) \<and> linear W ts st st'"
  by (rule each_linear [OF _ assms(2)]) (use assms(1) execute_linear in \<open>auto simp: list_all_iff\<close>)

text \<open>Reports only grow, and a step that adds no error is reported as completed.\<close>

lemma execute_reports:
  assumes "well_formed s" "execute_step W s st = Inr st'"
  shows "\<exists>e. yerrors st' = yerrors st @ e \<and> (e = [] \<longrightarrow> yname s \<in> set (steps_completed st')) \<and>
    set (steps_completed st) \<subseteq> set (steps_completed st')"
  using assms
proof (induction W s st arbitrary: st' rule: execute_step.induct)
  case (1 W s st)
  have "step_type s \<in> valid_step_types" using 1(3) by (cases s) simp
  then consider (task) "step_type s = ''task''" | (par) "step_type s = ''parallel''" | (cond) "step_type s = ''conditional''"
    by (auto simp: valid_step_types_def)
  then show ?case
  proof cases
    case task
    then have "execute_task W s st = Inr st'" using 1(4) by (simp add: execute_step.simps)
    then show ?thesis
      by (auto simp: execute_task_def add_error_def add_completed_def split: if_splits sum.splits option.splits cvalue.splits)
  next
    case par
    then show ?thesis using 1(4)
      by (auto simp: execute_step.simps [of W s] execute_parallel_def execute_conditional_def and_then_Inr Let_def add_completed_def)
  next
    case cond
    then obtain c where c: "condition s = Some c" using 1(3) by (cases s) auto
    let ?xs = "if is_truthy (resolve_dot_path (yctx st) c) then if_steps s else else_steps s"
    obtain u where u: "each (execute_step W) ?xs st = Inr u" "st' = add_completed (yname s) u"
      using 1(4) cond c by (auto simp: execute_step.simps [of W s] execute_parallel_def execute_conditional_def and_then_Inr)
    have step: "\<exists>e. yerrors w = yerrors v @ e \<and> set (steps_completed v) \<subseteq> set (steps_completed w)"
      if "x \<in> set ?xs" "execute_step W x v = Inr w" for x v w
    proof -
      have "well_formed x" using well_formed_subs [OF 1(3)] that(1) by (auto split: if_splits)
      then have "\<exists>e. yerrors w = yerrors v @ e \<and> (e = [] \<longrightarrow> yname x \<in> set (steps_completed w)) \<and>
          set (steps_completed v) \<subseteq> set (steps_completed w)" using that cond by (intro 1(2)) (auto split: if_splits)
      then show ?thesis by blast
    qed
    have "\<exists>e. yerrors w = yerrors v @ e \<and> set (steps_completed v) \<subseteq> set (steps_completed w)"
      if "set xs \<subseteq> set ?xs" "each (execute_step W) xs v = Inr w" for xs v w
      using that
    proof (induction xs arbitrary: v)
      case (Cons x xs)
      then obtain v' where "execute_step W x v = Inr v'" "each (execute_step W) xs v' = Inr w" by (auto simp: and_then_Inr)
      then show ?case using Cons step [of x v v'] by fastforce
    qed simp
    then show ?thesis using u by (fastforce simp: add_completed_def)
  qed
qed

text \<open>
  C25: What the schema check accepts is well formed at every depth: a workflow that was loaded from a file
  has only task, parallel and conditional steps, a condition exactly on the conditional ones, branches
  and sub-steps only where they belong; so the engine's cases for a missing condition or an unknown
  type are never reached. The workflow has the name in the file. A file that does not exist, a text
  that cannot be read or parsed and a document of another form raise instead.
\<close>

theorem parsed_workflow_well_formed:
  assumes "from_file B available safe_load files path = Inr (name, steps)"
  shows "list_all well_formed steps \<and>
    (\<exists>content d. files path = Some (Inr content) \<and> available \<and> safe_load content = Inr (JObj d) \<and>
       dict_get d ''name'' = Some (JStr name))"
proof -
  obtain content document where doc: "files path = Some (Inr content)" "available" "safe_load content = Inr document"
    "parse_workflow_document B document = Inr (name, steps)"
    using assms
    by (auto simp: from_file_def from_yaml_def load_yaml_def and_then_Inr split: option.splits if_splits sum.splits)
  obtain d raw where d: "as_mapping document = Inr d" "require_str d ''name'' = Inr name"
    "traverse (parse_step B) raw = Inr steps"
    using doc(4) by (auto simp: parse_workflow_document_def and_then_Inr)
  then have "document = JObj d" by (cases document) simp_all
  moreover have "dict_get d ''name'' = Some (JStr name)"
    using d(2) by (auto simp: require_str_def split: option.splits json.splits)
  moreover have "list_all well_formed steps"
    by (rule traverse_well_formed [OF d(3)]) (rule parse_step_well_formed)
  ultimately show ?thesis using doc by blast
qed

lemma each_reports:
  assumes "list_all well_formed steps" "each (execute_step W) steps st = Inr st'"
  shows "\<exists>e. yerrors st' = yerrors st @ e \<and> (e = [] \<longrightarrow> (\<forall>s \<in> set steps. yname s \<in> set (steps_completed st'))) \<and>
    set (steps_completed st) \<subseteq> set (steps_completed st')"
  using assms
proof (induction steps arbitrary: st)
  case (Cons s steps)
  then obtain u where u: "execute_step W s st = Inr u" "each (execute_step W) steps u = Inr st'" by (auto simp: and_then_Inr)
  obtain e where e: "yerrors u = yerrors st @ e" "e = [] \<longrightarrow> yname s \<in> set (steps_completed u)"
    "set (steps_completed st) \<subseteq> set (steps_completed u)"
    using execute_reports [OF _ u(1)] Cons.prems(1) by auto
  obtain e' where e': "yerrors st' = yerrors u @ e'" "e' = [] \<longrightarrow> (\<forall>s \<in> set steps. yname s \<in> set (steps_completed st'))"
    "set (steps_completed u) \<subseteq> set (steps_completed st')"
    using Cons.IH [OF _ u(2)] Cons.prems(1) by auto
  show ?case using e e' by (intro exI [of _ "e @ e'"]) auto
qed simp


definition example_document :: json where
  "example_document = JObj [(''name'', JStr ''w''), (''steps'', JList
     [JObj [(''name'', JStr ''p''), (''type'', JStr ''parallel''), (''steps'', JList
        [JObj [(''name'', JStr ''t''), (''type'', JStr ''task''), (''agent'', JStr ''h''), (''outputs'', JList [JStr ''out''])]])]])]"

definition example_builtins :: builtins where
  "example_builtins = \<lparr>repr_of = (\<lambda>_. []), float_of_str = (\<lambda>_. None), int_of_str = (\<lambda>_. None), dict_of_iter = (\<lambda>_. Inr [])\<rparr>"

definition example_task :: yaml_step where
  "example_task = YAMLWorkflowStep ''t'' ''task'' (JStr ''h'') [] [''out''] None [] [] []"

definition example_parallel :: yaml_step where
  "example_parallel = YAMLWorkflowStep ''p'' ''parallel'' JNull [] [] None [] [] [example_task]"

lemma example_parsed: "parse_workflow_document example_builtins example_document = Inr (''w'', [example_parallel])"
  by (simp add: parse_workflow_document_def example_document_def require_str_def dict_get_or_def valid_step_types_def
    example_parallel_def example_task_def)

theorem parsed_workflow_well_formed_witness:
  "from_file example_builtins True (\<lambda>_. Inr example_document) [''w.yaml'' \<mapsto> Inr ''text''] ''w.yaml'' = Inr (''w'', [example_parallel]) \<and>
   list_all well_formed [example_parallel]"
proof -
  have "from_file example_builtins True (\<lambda>_. Inr example_document) [''w.yaml'' \<mapsto> Inr ''text''] ''w.yaml'' =
      Inr (''w'', [example_parallel])"
    by (simp add: from_file_def from_yaml_def load_yaml_def example_parsed)
  with parsed_workflow_well_formed [OF this] show ?thesis by blast
qed


end
