(* ===== verification/Cluster_API.thy ===== *)
theory Cluster_API
  imports Messages
begin

text \<open>
  What the two controllers of the Kubernetes operator (\<open>k8s/operator/controllers\<close>) share: operations
  that change a state and may raise, composed the way the handlers compose their calls; the calls to
  the API server, whose answers are a parameter (a function from the call and the state of the
  cluster to the new state and the answer); the lazy initialisation of the client.
\<close>

section \<open>Operations\<close>

type_synonym ('s, 'a) op = "'s \<Rightarrow> ('s, 'a) outcome"

fun return_op :: "'a \<Rightarrow> ('s, 'a) op" where
  "return_op a s = (s, Inr a)"

fun raise_op :: "exn \<Rightarrow> ('s, 'a) op" where
  "raise_op x s = (s, Inl x)"

definition bind_op :: "('s, 'a) op \<Rightarrow> ('a \<Rightarrow> ('s, 'b) op) \<Rightarrow> ('s, 'b) op" where
  "bind_op m f s = (case m s of (s', Inl x) \<Rightarrow> (s', Inl x) | (s', Inr a) \<Rightarrow> f a s')"

text \<open>\<open>try: m except ...: h\<close>; the handler re-raises what it does not catch.\<close>

definition try_op :: "('s, 'a) op \<Rightarrow> (exn \<Rightarrow> ('s, 'a) op) \<Rightarrow> ('s, 'a) op" where
  "try_op m h s = (case m s of (s', Inl x) \<Rightarrow> h x s' | (s', Inr a) \<Rightarrow> (s', Inr a))"

definition lift_op :: "exn + 'a \<Rightarrow> ('s, 'a) op" where
  "lift_op r s = (s, r)"

text \<open>A loop that carries its local variables.\<close>

fun fold_op :: "('b \<Rightarrow> 'a \<Rightarrow> ('s, 'a) op) \<Rightarrow> 'b list \<Rightarrow> 'a \<Rightarrow> ('s, 'a) op" where
  "fold_op f [] a = return_op a"
| "fold_op f (x # xs) a = bind_op (f x a) (fold_op f xs)"

text \<open>An operation keeps a property of the state, whether it returns or raises.\<close>

definition keeps :: "('s \<Rightarrow> bool) \<Rightarrow> ('s, 'a) op \<Rightarrow> bool" where
  "keeps P m \<longleftrightarrow> (\<forall>s. P s \<longrightarrow> P (fst (m s)))"

lemma keepsI: "(\<And>s. P s \<Longrightarrow> P (fst (m s))) \<Longrightarrow> keeps P m"
  by (simp add: keeps_def)

lemma keepsD: "keeps P m \<Longrightarrow> P s \<Longrightarrow> P (fst (m s))"
  by (simp add: keeps_def)

lemma keeps_basic [intro, simp]: "keeps P (return_op a)" "keeps P (raise_op x)" "keeps P (lift_op r)"
  by (simp_all add: keeps_def lift_op_def)

lemma keeps_bind [intro]: "keeps P m \<Longrightarrow> (\<And>a. keeps P (f a)) \<Longrightarrow> keeps P (bind_op m f)"
  by (fastforce simp: keeps_def bind_op_def split: prod.split sum.split)

lemma keeps_try [intro]: "keeps P m \<Longrightarrow> (\<And>x. keeps P (h x)) \<Longrightarrow> keeps P (try_op m h)"
  by (fastforce simp: keeps_def try_op_def split: prod.split sum.split)

lemma keeps_fold: "(\<And>x a. keeps P (f x a)) \<Longrightarrow> keeps P (fold_op f xs a)"
  by (induction xs arbitrary: a) auto

text \<open>What a bind did when it returned.\<close>

lemma bind_op_Inr:
  "bind_op m f s = (t, Inr b) \<longleftrightarrow> (\<exists>s' a. m s = (s', Inr a) \<and> f a s' = (t, Inr b))"
  by (auto simp: bind_op_def split: prod.split sum.split)

lemma try_op_Inr:
  "try_op m h s = (t, Inr b) \<longleftrightarrow> m s = (t, Inr b) \<or> (\<exists>s' x. m s = (s', Inl x) \<and> h x s' = (t, Inr b))"
  by (auto simp: try_op_def split: prod.split sum.split)

section \<open>The cluster\<close>

text \<open>The calls of the two controllers: the namespace and, where the call has them, the name and the body.\<close>

datatype api_call =
    CreateConfigMap string json
  | ReplaceConfigMap string string json
  | DeleteConfigMap string string
  | CreateDeployment string json
  | ReadDeployment string string
  | PatchDeployment string string json
  | DeleteDeployment string string
  | CreateService string json
  | DeleteService string string
  | GetAgent string string

type_synonym 'w cluster = "api_call \<Rightarrow> 'w \<Rightarrow> ('w, json) outcome"

text \<open>The state of a controller module: the cluster it talks to and its flag \<open>_k8s_initialised\<close>.\<close>

record 'w controller =
  world :: 'w
  k8s_initialised :: bool

definition api :: "'w cluster \<Rightarrow> api_call \<Rightarrow> (('w, 'z) controller_scheme, json) op" where
  "api call c s = (case call c (world s) of (w, r) \<Rightarrow> (s\<lparr>world := w\<rparr>, r))"

text \<open>The two ways of loading a client configuration.\<close>

record client_config =
  load_incluster_config :: "exn + unit"
  load_kube_config :: "exn + unit"

definition ensure_k8s_client :: "client_config \<Rightarrow> (('w, 'z) controller_scheme, unit) op" where
  "ensure_k8s_client cfg s =
     (if k8s_initialised s then (s, Inr ())
      else case (if load_incluster_config cfg = Inl ConfigException then load_kube_config cfg else load_incluster_config cfg) of
        Inl x \<Rightarrow> (s, Inl x)
      | Inr _ \<Rightarrow> (s\<lparr>k8s_initialised := True\<rparr>, Inr ()))"

text \<open>\<open>try: call except ApiException as exc: if exc.status == st: log else: raise\<close>.\<close>

definition tolerate :: "int \<Rightarrow> (('s, json) op) \<Rightarrow> ('s, unit) op" where
  "tolerate st m = try_op (bind_op m (\<lambda>_. return_op ())) (\<lambda>x. if x = ApiException st then return_op () else raise_op x)"

text \<open>\<open>isinstance\<close> for the two exceptions that the handlers catch without looking at them.\<close>

fun is_api_exception :: "exn \<Rightarrow> bool" where
  "is_api_exception (ApiException _) = True"
| "is_api_exception _ = False"

fun is_value_error :: "exn \<Rightarrow> bool" where
  "is_value_error (ValueError _) = True"
| "is_value_error _ = False"

lemma is_api_exception_iff: "is_api_exception x \<longleftrightarrow> (\<exists>st. x = ApiException st)"
  by (cases x) auto

text \<open>\<open>try: call except ApiException as exc: log\<close>, whatever its status.\<close>

definition log_failure :: "(('s, json) op) \<Rightarrow> ('s, unit) op" where
  "log_failure m = try_op (bind_op m (\<lambda>_. return_op ()))
     (\<lambda>x. if is_api_exception x then return_op () else raise_op x)"

text \<open>\<open>v.get(k, d)\<close>, where \<open>v\<close> should be a dictionary.\<close>

fun py_get :: "json \<Rightarrow> string \<Rightarrow> json \<Rightarrow> exn + json" where
  "py_get (JObj d) k dflt = Inr (dict_get_or d k dflt)"
| "py_get _ k dflt = Inl (AttributeError ''get'')"

text \<open>\<open>body["metadata"]["name"]\<close> of a manifest, under which the API server stores it.\<close>

fun manifest_name :: "json \<Rightarrow> string option" where
  "manifest_name (JObj d) =
     (case dict_get d ''metadata'' of
        Some (JObj m) \<Rightarrow> (case dict_get m ''name'' of Some (JStr n) \<Rightarrow> Some n | _ \<Rightarrow> None)
      | _ \<Rightarrow> None)"
| "manifest_name _ = None"

section \<open>What the controllers rely on\<close>

text \<open>
  The documented behaviour of the API server on ConfigMaps, over a view \<open>cm\<close> of the cluster: a create
  stores the manifest under its name and only when there was none (409 otherwise), a replace stores it,
  a delete removes it (404: there was none); a call that raises and every other call leave them alone.
\<close>

fun configmap_call :: "api_call \<Rightarrow> bool" where
  "configmap_call (CreateConfigMap _ _) = True"
| "configmap_call (ReplaceConfigMap _ _ _) = True"
| "configmap_call (DeleteConfigMap _ _) = True"
| "configmap_call _ = False"

definition configmap_server :: "'w cluster \<Rightarrow> ('w \<Rightarrow> string \<times> string \<Rightarrow> json option) \<Rightarrow> bool" where
  "configmap_server call cm \<longleftrightarrow>
     (\<forall>c w w' x. call c w = (w', Inl x) \<longrightarrow> cm w' = cm w) \<and>
     (\<forall>c w. \<not> configmap_call c \<longrightarrow> cm (fst (call c w)) = cm w) \<and>
     (\<forall>ns b n w w' r. manifest_name b = Some n \<longrightarrow> call (CreateConfigMap ns b) w = (w', Inr r) \<longrightarrow>
        cm w (ns, n) = None \<and> cm w' = (cm w)((ns, n) \<mapsto> b)) \<and>
     (\<forall>ns b n w w'. manifest_name b = Some n \<longrightarrow> call (CreateConfigMap ns b) w = (w', Inl (ApiException 409)) \<longrightarrow>
        cm w (ns, n) \<noteq> None) \<and>
     (\<forall>n ns b w w' r. call (ReplaceConfigMap n ns b) w = (w', Inr r) \<longrightarrow> cm w' = (cm w)((ns, n) \<mapsto> b)) \<and>
     (\<forall>n ns w w' r. call (DeleteConfigMap n ns) w = (w', Inr r) \<longrightarrow> cm w' = (cm w)((ns, n) := None)) \<and>
     (\<forall>n ns w w'. call (DeleteConfigMap n ns) w = (w', Inl (ApiException 404)) \<longrightarrow> cm w (ns, n) = None)"


lemma configmap_serverD:
  assumes "configmap_server call cm"
  shows server_raised: "\<And>c w w' x. call c w = (w', Inl x) \<Longrightarrow> cm w' = cm w"
    and server_other: "\<And>c w. \<not> configmap_call c \<Longrightarrow> cm (fst (call c w)) = cm w"
    and server_created: "\<And>ns b n w w' r. manifest_name b = Some n \<Longrightarrow> call (CreateConfigMap ns b) w = (w', Inr r) \<Longrightarrow>
       cm w (ns, n) = None \<and> cm w' = (cm w)((ns, n) \<mapsto> b)"
    and server_conflict: "\<And>ns b n w w'. manifest_name b = Some n \<Longrightarrow> call (CreateConfigMap ns b) w = (w', Inl (ApiException 409)) \<Longrightarrow>
       cm w (ns, n) \<noteq> None"
    and server_replaced: "\<And>ns b n w w' r. call (ReplaceConfigMap n ns b) w = (w', Inr r) \<Longrightarrow> cm w' = (cm w)((ns, n) \<mapsto> b)"
    and server_deleted: "\<And>ns n w w' r. call (DeleteConfigMap n ns) w = (w', Inr r) \<Longrightarrow> cm w' = (cm w)((ns, n) := None)"
    and server_missing: "\<And>ns n w w'. call (DeleteConfigMap n ns) w = (w', Inl (ApiException 404)) \<Longrightarrow> cm w (ns, n) = None"
  using assms unfolding configmap_server_def by (elim conjE; metis)+

lemma tolerate_Inr:
  "tolerate st m s = (t, Inr u) \<longleftrightarrow> (\<exists>v. m s = (t, Inr v)) \<or> m s = (t, Inl (ApiException st))"
  unfolding tolerate_def try_op_def bind_op_def by (cases "m s") (auto split: sum.splits if_splits)

lemma log_failure_Inr:
  "log_failure m s = (t, Inr u) \<longleftrightarrow> (\<exists>v. m s = (t, Inr v)) \<or> (\<exists>st. m s = (t, Inl (ApiException st)))"
  unfolding log_failure_def try_op_def bind_op_def by (cases "m s") (auto simp: is_api_exception_iff split: sum.splits if_splits)

lemma keeps_log: "keeps P m \<Longrightarrow> keeps P (log_failure m)"
  unfolding log_failure_def by (intro keeps_try keeps_bind keeps_basic) auto

lemma keeps_tolerate: "keeps P m \<Longrightarrow> keeps P (tolerate st m)"
  unfolding tolerate_def by (intro keeps_try keeps_bind keeps_basic) auto

lemma ensure_world [simp]: "world (fst (ensure_k8s_client cfg s)) = world s"
  by (auto simp: ensure_k8s_client_def split: sum.splits)

lemma ensure_result: "ensure_k8s_client cfg s = (t, r) \<Longrightarrow> world t = world s"
  using ensure_world [of cfg s] by simp

lemma api_world: "api call c s = (t, r) \<Longrightarrow> call c (world s) = (world t, r)"
  by (auto simp: api_def split: prod.splits)

text \<open>Operations that leave a view of the cluster alone.\<close>

lemma api_frame:
  assumes "\<And>w. cm (fst (call c w)) = cm w"
  shows "keeps (\<lambda>s. cm (world s) = v) (api call c)"
  using assms by (intro keepsI) (simp add: api_def case_prod_beta)

end
