(* ===== verification/Mesh_Operator.thy ===== *)
theory Mesh_Operator
  imports Cluster_API
begin

text \<open>
  \<open>k8s/operator/controllers/mesh_controller.py\<close>: the routing ConfigMap of an AgentMesh resource, the
  circuit breaker of a mesh, and the handlers for creation, update, deletion and the periodic
  reconciliation. The validation of a resource against the pydantic models, the JSON text encoder, the
  renderings of a cost and of a time, and the clock readings are parameters; the cluster is that of
  \<open>Cluster_API\<close>.
\<close>

section \<open>The validated specification\<close>

record agent_ref =
  ar_name :: string
  ar_ref :: string
  ar_role :: string
  ar_weight :: int

record circuit_breaker_spec =
  cbs_enabled :: bool
  cbs_failure_threshold :: int
  cbs_recovery_timeout :: string
  cbs_success_threshold :: int

record observability_spec =
  tracing :: bool
  metrics :: bool
  cost_tracking :: bool
  log_level :: string

record retry_policy_spec =
  rp_max_attempts :: int
  rp_backoff_seconds :: rat
  rp_backoff_multiplier :: rat

record routing_spec =
  rs_retry_policy :: retry_policy_spec
  rs_timeout_seconds :: int
  rs_dead_letter_queue :: bool

record agent_mesh_spec =
  ms_agents :: "agent_ref list"
  ms_topology :: string
  ms_circuit_breaker :: circuit_breaker_spec
  ms_observability :: observability_spec
  ms_routing :: routing_spec
  ms_policy :: "string option"

section \<open>The circuit breaker of a mesh\<close>

datatype breaker_state = MeshClosed | MeshOpen | MeshHalfOpen

fun breaker_state_value :: "breaker_state \<Rightarrow> string" where
  "breaker_state_value MeshClosed = ''closed''"
| "breaker_state_value MeshOpen = ''open''"
| "breaker_state_value MeshHalfOpen = ''half-open''"

record mesh_breaker =
  mb_config :: circuit_breaker_spec
  mb_state :: breaker_state
  mb_failure_count :: int
  mb_success_count :: int
  mb_opened_at :: "timestamp option"

definition CircuitBreakerState :: "circuit_breaker_spec \<Rightarrow> mesh_breaker" where
  "CircuitBreakerState cfg =
     \<lparr>mb_config = cfg, mb_state = MeshClosed, mb_failure_count = 0, mb_success_count = 0, mb_opened_at = None\<rparr>"

definition ends_with :: "char \<Rightarrow> string \<Rightarrow> bool" where
  "ends_with c s \<longleftrightarrow> s \<noteq> [] \<and> last s = c"

definition parse_timeout_seconds :: "builtins \<Rightarrow> circuit_breaker_spec \<Rightarrow> exn + int" where
  "parse_timeout_seconds B cfg =
     (let raw = cbs_recovery_timeout cfg
      in if ends_with (CHR ''s'') raw then py_int B (JStr (butlast raw))
         else if ends_with (CHR ''m'') raw then and_then (py_int B (JStr (butlast raw))) (\<lambda>n. Inr (n * 60))
         else Inr 30)"

definition record_failure :: "timestamp \<Rightarrow> mesh_breaker \<Rightarrow> mesh_breaker" where
  "record_failure now b =
     (if mb_state b = MeshOpen then b
      else (let b' = b\<lparr>mb_failure_count := mb_failure_count b + 1\<rparr>
            in if mb_failure_count b' \<ge> cbs_failure_threshold (mb_config b')
               then b'\<lparr>mb_state := MeshOpen, mb_opened_at := Some now\<rparr> else b'))"

definition record_success :: "mesh_breaker \<Rightarrow> mesh_breaker" where
  "record_success b =
     (if mb_state b = MeshHalfOpen
      then (let b' = b\<lparr>mb_success_count := mb_success_count b + 1\<rparr>
            in if mb_success_count b' \<ge> cbs_success_threshold (mb_config b')
               then b'\<lparr>mb_state := MeshClosed, mb_failure_count := 0, mb_success_count := 0\<rparr> else b')
      else b)"

definition maybe_probe :: "builtins \<Rightarrow> timestamp \<Rightarrow> mesh_breaker \<Rightarrow> (mesh_breaker, bool) outcome" where
  "maybe_probe B now b =
     (case mb_opened_at b of
        None \<Rightarrow> (b, Inr False)
      | Some t \<Rightarrow>
          if mb_state b \<noteq> MeshOpen then (b, Inr False)
          else (case parse_timeout_seconds B (mb_config b) of
                  Inl x \<Rightarrow> (b, Inl x)
                | Inr d \<Rightarrow>
                    if now - t \<ge> of_int d
                    then (b\<lparr>mb_state := MeshHalfOpen, mb_success_count := 0\<rparr>, Inr True) else (b, Inr False)))"

text \<open>What a reconciliation does with the breaker: one observation, then the probe.\<close>

definition breaker_tick :: "builtins \<Rightarrow> bool \<Rightarrow> timestamp \<Rightarrow> timestamp \<Rightarrow> mesh_breaker \<Rightarrow> (mesh_breaker, bool) outcome" where
  "breaker_tick B failing t1 t2 b = maybe_probe B t2 (if failing then record_failure t1 b else record_success b)"

section \<open>State of the controller\<close>

text \<open>\<open>_circuit_breakers\<close>: the breakers of the meshes, by namespace and name.\<close>

record 'w mesh_controller = "'w controller" +
  circuit_breakers :: "(string, mesh_breaker) dict"

definition mesh_key :: "string \<Rightarrow> string \<Rightarrow> string" where
  "mesh_key ns name = ns @ ''/'' @ name"

definition get_or_create_circuit_breaker ::
    "string \<Rightarrow> circuit_breaker_spec \<Rightarrow> ('w mesh_controller, mesh_breaker) op" where
  "get_or_create_circuit_breaker key cfg s =
     (case dict_get (circuit_breakers s) key of
        Some b \<Rightarrow> (s, Inr b)
      | None \<Rightarrow> (s\<lparr>circuit_breakers := dict_set key (CircuitBreakerState cfg) (circuit_breakers s)\<rparr>,
                 Inr (CircuitBreakerState cfg)))"

section \<open>The routing ConfigMap\<close>

definition configmap_name :: "string \<Rightarrow> string" where
  "configmap_name mesh = ''agentmesh-'' @ mesh @ ''-routing''"

definition agent_entry :: "string \<Rightarrow> agent_ref \<Rightarrow> json" where
  "agent_entry ns a =
     JObj [(''name'', JStr (ar_name a)), (''ref'', JStr (ar_ref a)), (''role'', JStr (ar_role a)),
       (''weight'', JInt (ar_weight a)),
       (''serviceEndpoint'', JStr (''agent-'' @ ar_ref a @ ''-svc.'' @ ns @ ''.svc.cluster.local:8080''))]"

definition routing_data :: "string \<Rightarrow> agent_mesh_spec \<Rightarrow> json" where
  "routing_data ns m =
     JObj [(''topology'', JStr (ms_topology m)),
       (''agents'', JList (map (agent_entry ns) (ms_agents m))),
       (''circuitBreaker'', JObj [
          (''enabled'', JBool (cbs_enabled (ms_circuit_breaker m))),
          (''failureThreshold'', JInt (cbs_failure_threshold (ms_circuit_breaker m))),
          (''recoveryTimeout'', JStr (cbs_recovery_timeout (ms_circuit_breaker m))),
          (''successThreshold'', JInt (cbs_success_threshold (ms_circuit_breaker m)))]),
       (''routing'', JObj [
          (''retryPolicy'', JObj [
             (''maxAttempts'', JInt (rp_max_attempts (rs_retry_policy (ms_routing m)))),
             (''backoffSeconds'', JFloat (rp_backoff_seconds (rs_retry_policy (ms_routing m)))),
             (''backoffMultiplier'', JFloat (rp_backoff_multiplier (rs_retry_policy (ms_routing m))))]),
          (''timeoutSeconds'', JInt (rs_timeout_seconds (ms_routing m))),
          (''deadLetterQueue'', JBool (rs_dead_letter_queue (ms_routing m)))]),
       (''observability'', JObj [
          (''tracing'', JBool (tracing (ms_observability m))),
          (''metrics'', JBool (metrics (ms_observability m))),
          (''costTracking'', JBool (cost_tracking (ms_observability m))),
          (''logLevel'', JStr (log_level (ms_observability m)))])]"

definition build_routing_configmap ::
    "(json \<Rightarrow> string) \<Rightarrow> string \<Rightarrow> string \<Rightarrow> agent_mesh_spec \<Rightarrow> json list \<Rightarrow> json" where
  "build_routing_configmap dumps mesh ns m owner_references =
     JObj [(''apiVersion'', JStr ''v1''), (''kind'', JStr ''ConfigMap''),
       (''metadata'', JObj [
          (''name'', JStr (configmap_name mesh)), (''namespace'', JStr ns),
          (''labels'', JObj [
             (''app.kubernetes.io/name'', JStr mesh),
             (''app.kubernetes.io/managed-by'', JStr ''aumos-operator''),
             (''app.kubernetes.io/component'', JStr ''routing-config'')]),
          (''ownerReferences'', JList owner_references)]),
       (''data'', JObj [
          (''routing.json'', JStr (dumps (routing_data ns m))),
          (''topology'', JStr (ms_topology m))])]"

definition mesh_owner_references :: "string \<Rightarrow> json \<Rightarrow> json list" where
  "mesh_owner_references mesh uid =
     [JObj [(''apiVersion'', JStr ''aumos.ai/v1alpha1''), (''kind'', JStr ''AgentMesh''), (''name'', JStr mesh),
        (''uid'', uid), (''controller'', JBool True), (''blockOwnerDeletion'', JBool True)]]"

definition routing_env_patch :: "string \<Rightarrow> json" where
  "routing_env_patch cmn =
     JObj [(''spec'', JObj [(''template'', JObj [(''spec'', JObj [(''containers'', JList [JObj [
        (''name'', JStr ''agent''),
        (''env'', JList [JObj [
           (''name'', JStr ''AUMOS_MESH_ROUTING_CONFIG''),
           (''valueFrom'', JObj [(''configMapKeyRef'', JObj [
              (''name'', JStr cmn), (''key'', JStr ''routing.json''), (''optional'', JBool True)])])]])]])])])])]"

text \<open>A failure to patch is logged, whatever its status.\<close>

definition patch_agent_deployment_with_configmap ::
    "'w cluster \<Rightarrow> string \<Rightarrow> string \<Rightarrow> string \<Rightarrow> (('w, 'z) controller_scheme, unit) op" where
  "patch_agent_deployment_with_configmap call agent ns cmn =
     log_failure (api call (PatchDeployment (''agent-'' @ agent) ns (routing_env_patch cmn)))"

section \<open>Handlers\<close>

definition validated :: "string \<Rightarrow> ((string, json) dict \<Rightarrow> exn + 'm) \<Rightarrow> (string, json) dict \<Rightarrow> ('s, 'm) op" where
  "validated what model_validate spec =
     lift_op (case model_validate spec of
        Inl x \<Rightarrow> Inl (if is_exception x then PermanentError what else x)
      | Inr m \<Rightarrow> Inr m)"

definition patch_agents :: "'w cluster \<Rightarrow> string \<Rightarrow> string \<Rightarrow> agent_mesh_spec \<Rightarrow> (('w, 'z) controller_scheme, unit) op" where
  "patch_agents call ns mesh m =
     fold_op (\<lambda>a _. patch_agent_deployment_with_configmap call (ar_ref a) ns (configmap_name mesh)) (ms_agents m) ()"

definition on_mesh_create ::
    "client_config \<Rightarrow> ((string, json) dict \<Rightarrow> exn + agent_mesh_spec) \<Rightarrow> (json \<Rightarrow> string) \<Rightarrow> 'w cluster \<Rightarrow> string \<Rightarrow> string \<Rightarrow>
     (string, json) dict \<Rightarrow> (string, json) dict \<Rightarrow> ('w mesh_controller, json) op" where
  "on_mesh_create cfg model_validate dumps call name ns spec meta =
     bind_op (ensure_k8s_client cfg) (\<lambda>_.
     bind_op (validated ''Invalid AgentMesh spec'' model_validate spec) (\<lambda>m.
     bind_op (lift_op (need (KeyError ''uid'') (dict_get meta ''uid''))) (\<lambda>uid.
     bind_op (tolerate 409 (api call (CreateConfigMap ns
        (build_routing_configmap dumps name ns m (mesh_owner_references name uid))))) (\<lambda>_.
     bind_op (patch_agents call ns name m) (\<lambda>_.
     bind_op (if cbs_enabled (ms_circuit_breaker m)
              then bind_op (get_or_create_circuit_breaker (mesh_key ns name) (ms_circuit_breaker m)) (\<lambda>_. return_op ())
              else return_op ()) (\<lambda>_.
     return_op (JObj [(''phase'', JStr ''Forming''), (''activeAgents'', JInt 0), (''circuitBreakerState'', JStr ''closed'')])))))))"

definition on_mesh_update ::
    "client_config \<Rightarrow> ((string, json) dict \<Rightarrow> exn + agent_mesh_spec) \<Rightarrow> (json \<Rightarrow> string) \<Rightarrow> 'w cluster \<Rightarrow> string \<Rightarrow> string \<Rightarrow>
     (string, json) dict \<Rightarrow> ('w mesh_controller, unit) op" where
  "on_mesh_update cfg model_validate dumps call name ns spec =
     bind_op (ensure_k8s_client cfg) (\<lambda>_.
     bind_op (validated ''Invalid AgentMesh spec'' model_validate spec) (\<lambda>m.
     let configmap = build_routing_configmap dumps name ns m [] in
     bind_op (try_op (api call (ReplaceConfigMap (configmap_name name) ns configmap))
        (\<lambda>x. if x = ApiException 404 then api call (CreateConfigMap ns configmap) else raise_op x)) (\<lambda>_.
     patch_agents call ns name m)))"

definition on_mesh_delete :: "client_config \<Rightarrow> 'w cluster \<Rightarrow> string \<Rightarrow> string \<Rightarrow> ('w mesh_controller, unit) op" where
  "on_mesh_delete cfg call name ns =
     bind_op (ensure_k8s_client cfg) (\<lambda>_.
     bind_op (log_failure (api call (DeleteConfigMap (configmap_name name) ns))) (\<lambda>_ s.
     (s\<lparr>circuit_breakers := dict_del (mesh_key ns name) (circuit_breakers s)\<rparr>, Inr ())))"

text \<open>What one agent adds to the numbers of active and of failed agents and to the cost.\<close>

definition observe_agent :: "builtins \<Rightarrow> json \<Rightarrow> nat \<times> nat \<times> rat \<Rightarrow> exn + nat \<times> nat \<times> rat" where
  "observe_agent B obj acc =
     (case acc of (active, failed, cost) \<Rightarrow>
       and_then (py_get obj ''status'' (JObj [])) (\<lambda>status.
       and_then (py_get status ''phase'' (JStr ''Pending'')) (\<lambda>phase.
       and_then (py_get status ''totalCost'' JNull) (\<lambda>cost_str.
       and_then (if truthy cost_str
                 then (case py_float B cost_str of
                         Inr v \<Rightarrow> Inr (cost + v) | Inl x \<Rightarrow> if is_value_error x then Inr cost else Inl x)
                 else Inr cost) (\<lambda>cost'.
       Inr (if phase = JStr ''Running'' then (active + 1, failed, cost')
            else if phase \<in> {JStr ''Failed'', JStr ''Terminated''} then (active, failed + 1, cost')
            else (active, failed, cost')))))))"

definition agent_tick :: "builtins \<Rightarrow> 'w cluster \<Rightarrow> string \<Rightarrow> agent_ref \<Rightarrow> nat \<times> nat \<times> rat \<Rightarrow>
     (('w, 'z) controller_scheme, nat \<times> nat \<times> rat) op" where
  "agent_tick B call ns a acc =
     try_op (bind_op (api call (GetAgent ns (ar_ref a))) (\<lambda>obj. lift_op (observe_agent B obj acc)))
       (\<lambda>x. if is_api_exception x then return_op acc else raise_op x)"

definition mesh_phase :: "nat \<Rightarrow> nat \<Rightarrow> nat \<Rightarrow> string" where
  "mesh_phase active failed n =
     (if active = n then ''Ready''
      else if active = 0 then (if failed > 0 then ''Failed'' else ''Forming'')
      else ''Degraded'')"

text \<open>The breaker is an object of the dictionary: what happens to it stays, also when the probe raises.\<close>

definition update_breaker :: "builtins \<Rightarrow> string \<Rightarrow> circuit_breaker_spec \<Rightarrow> bool \<Rightarrow> timestamp \<Rightarrow> timestamp \<Rightarrow>
     ('w mesh_controller, string) op" where
  "update_breaker B key cfg failing t1 t2 =
     bind_op (get_or_create_circuit_breaker key cfg) (\<lambda>b s.
     case breaker_tick B failing t1 t2 b of
       (b', r) \<Rightarrow> (s\<lparr>circuit_breakers := dict_set key b' (circuit_breakers s)\<rparr>,
                  case r of Inl x \<Rightarrow> Inl x | Inr _ \<Rightarrow> Inr (breaker_state_value (mb_state b'))))"

text \<open>The renderings of the status, and the three clock readings.\<close>

record status_texts =
  cost_text :: "rat \<Rightarrow> string"
  time_text :: "timestamp \<Rightarrow> string"

text \<open>The result is what is set in \<open>patch.status\<close>; an invalid specification sets nothing.\<close>

definition reconcile_mesh_status ::
    "client_config \<Rightarrow> ((string, json) dict \<Rightarrow> exn + agent_mesh_spec) \<Rightarrow> builtins \<Rightarrow> status_texts \<Rightarrow> 'w cluster \<Rightarrow>
     timestamp \<Rightarrow> timestamp \<Rightarrow> timestamp \<Rightarrow> string \<Rightarrow> string \<Rightarrow> (string, json) dict \<Rightarrow>
     ('w mesh_controller, (string, json) dict) op" where
  "reconcile_mesh_status cfg model_validate B T call t1 t2 t3 name ns spec =
     bind_op (ensure_k8s_client cfg) (\<lambda>_.
     case model_validate spec of
       Inl x \<Rightarrow> if is_exception x then return_op [] else raise_op x
     | Inr m \<Rightarrow>
         bind_op (fold_op (agent_tick B call ns) (ms_agents m) (0, 0, 0)) (\<lambda>(active, failed, cost).
         bind_op (if cbs_enabled (ms_circuit_breaker m)
                  then update_breaker B (mesh_key ns name) (ms_circuit_breaker m) (failed > 0) t1 t2
                  else return_op ''closed'') (\<lambda>cb_state.
         return_op [(''phase'', JStr (mesh_phase active failed (length (ms_agents m)))),
           (''activeAgents'', JInt (int active)), (''totalCost'', JStr (cost_text T cost)),
           (''circuitBreakerState'', JStr cb_state), (''lastUpdated'', JStr (time_text T t3))])))"


section \<open>The breaker as an abstract machine\<close>

text \<open>
  What the breaker promises: it counts failed observations, then rejects until the recovery time is
  over, then counts successful observations in a row. Which counts are stale in which state, and when
  the time of opening is set, is left to the implementation.
\<close>

datatype mesh_gate = Counting nat | Rejecting timestamp | Probing nat

fun gate_observe :: "circuit_breaker_spec \<Rightarrow> bool \<Rightarrow> timestamp \<Rightarrow> mesh_gate \<Rightarrow> mesh_gate" where
  "gate_observe cfg failing now (Counting n) =
     (if \<not> failing then Counting n
      else if int n + 1 \<ge> cbs_failure_threshold cfg then Rejecting now else Counting (n + 1))"
| "gate_observe cfg failing now (Rejecting t) = Rejecting t"
| "gate_observe cfg failing now (Probing k) =
     (if failing then Rejecting now
      else if int k + 1 \<ge> cbs_success_threshold cfg then Counting 0 else Probing (k + 1))"

fun gate_probe :: "int \<Rightarrow> timestamp \<Rightarrow> mesh_gate \<Rightarrow> mesh_gate" where
  "gate_probe d now (Rejecting t) = (if now - t \<ge> of_int d then Probing 0 else Rejecting t)"
| "gate_probe d now g = g"

definition gate_tick :: "circuit_breaker_spec \<Rightarrow> int \<Rightarrow> mesh_gate \<Rightarrow> bool \<times> timestamp \<times> timestamp \<Rightarrow> mesh_gate" where
  "gate_tick cfg d g e = (case e of (failing, t1, t2) \<Rightarrow> gate_probe d t2 (gate_observe cfg failing t1 g))"

definition gate_of :: "mesh_breaker \<Rightarrow> mesh_gate" where
  "gate_of b = (case mb_state b of
     MeshClosed \<Rightarrow> Counting (nat (mb_failure_count b))
   | MeshOpen \<Rightarrow> Rejecting (the (mb_opened_at b))
   | MeshHalfOpen \<Rightarrow> Probing (nat (mb_success_count b)))"

definition breaker_ok :: "circuit_breaker_spec \<Rightarrow> mesh_breaker \<Rightarrow> bool" where
  "breaker_ok cfg b \<longleftrightarrow>
     mb_config b = cfg \<and> 0 \<le> mb_failure_count b \<and> 0 \<le> mb_success_count b \<and>
     (if mb_state b = MeshClosed then mb_failure_count b = 0 \<or> mb_failure_count b < cbs_failure_threshold cfg
      else cbs_failure_threshold cfg \<le> mb_failure_count b \<and> mb_opened_at b \<noteq> None)"

definition breaker_step :: "builtins \<Rightarrow> mesh_breaker \<Rightarrow> bool \<times> timestamp \<times> timestamp \<Rightarrow> mesh_breaker" where
  "breaker_step B b e = (case e of (failing, t1, t2) \<Rightarrow> fst (breaker_tick B failing t1 t2 b))"

section \<open>Lemmas: the breaker\<close>

lemma breaker_ok_new: "breaker_ok cfg (CircuitBreakerState cfg)"
  by (simp add: breaker_ok_def CircuitBreakerState_def)

lemma record_failure_ok: "breaker_ok cfg b \<Longrightarrow> breaker_ok cfg (record_failure now b)"
  by (auto simp: breaker_ok_def record_failure_def Let_def split: if_splits)

lemma record_success_ok: "breaker_ok cfg b \<Longrightarrow> breaker_ok cfg (record_success b)"
  by (auto simp: breaker_ok_def record_success_def Let_def split: if_splits)

lemma maybe_probe_ok: "breaker_ok cfg b \<Longrightarrow> breaker_ok cfg (fst (maybe_probe B now b))"
  by (auto simp: breaker_ok_def maybe_probe_def split: option.splits sum.splits if_splits)

interpretation mesh_breaker: inv_system "breaker_step B" "breaker_ok cfg" for B cfg
  by unfold_locales
    (auto simp: breaker_step_def breaker_tick_def split: prod.split intro: maybe_probe_ok record_failure_ok record_success_ok)

lemma gate_of_failure:
  assumes "breaker_ok cfg b"
  shows "gate_of (record_failure now b) = gate_observe cfg True now (gate_of b)"
  using assms by (cases "mb_state b") (auto simp: gate_of_def record_failure_def breaker_ok_def Let_def nat_add_distrib)

lemma gate_of_success:
  assumes "breaker_ok cfg b"
  shows "gate_of (record_success b) = gate_observe cfg False now (gate_of b)"
  using assms by (cases "mb_state b") (auto simp: gate_of_def record_success_def breaker_ok_def Let_def nat_add_distrib)

lemma gate_of_probe:
  assumes "breaker_ok cfg b" "parse_timeout_seconds B cfg = Inr d"
  shows "gate_of (fst (maybe_probe B now b)) = gate_probe d now (gate_of b)" "\<not> isl (snd (maybe_probe B now b))"
  using assms by (cases "mb_state b"; auto simp: gate_of_def maybe_probe_def breaker_ok_def split: option.splits)+

lemma gate_of_step:
  assumes ok: "breaker_ok cfg b" and d: "parse_timeout_seconds B cfg = Inr d"
  shows "gate_of (breaker_step B b e) = gate_tick cfg d (gate_of b) e"
proof -
  obtain failing t1 t2 where e: "e = (failing, t1, t2)" by (cases e)
  show ?thesis
  proof (cases failing)
    case True
    with e show ?thesis
      by (simp add: breaker_step_def breaker_tick_def gate_tick_def gate_of_probe(1) [OF record_failure_ok [OF ok] d]
        gate_of_failure [OF ok])
  next
    case False
    with e show ?thesis
      by (simp add: breaker_step_def breaker_tick_def gate_tick_def gate_of_probe(1) [OF record_success_ok [OF ok] d]
        gate_of_success [OF ok, of t1])
  qed
qed

lemma gate_of_run:
  assumes "breaker_ok cfg b" and d: "parse_timeout_seconds B cfg = Inr d"
  shows "gate_of (foldl (breaker_step B) b es) = foldl (gate_tick cfg d) (gate_of b) es"
  using assms(1)
proof (induction es arbitrary: b)
  case (Cons e es)
  then show ?case using mesh_breaker.step_inv [of cfg b B e] by (simp add: gate_of_step [OF Cons.prems d])
qed simp

lemma gate_counts:
  assumes "int n + int (length (filter fst es)) < cbs_failure_threshold cfg"
  shows "foldl (gate_tick cfg d) (Counting n) es = Counting (n + length (filter fst es))"
  using assms
proof (induction es arbitrary: n)
  case (Cons e es)
  obtain failing t1 t2 where e: "e = (failing, t1, t2)" by (cases e)
  show ?case
  proof (cases failing)
    case True
    with Cons.prems e have "\<not> int n + 1 \<ge> cbs_failure_threshold cfg" by simp
    then have "gate_tick cfg d (Counting n) e = Counting (n + 1)" using True e by (simp add: gate_tick_def)
    with True e Cons.IH [of "n + 1"] Cons.prems show ?thesis by simp
  next
    case False
    then have "gate_tick cfg d (Counting n) e = Counting n" using e by (simp add: gate_tick_def)
    with False e Cons.IH [of n] Cons.prems show ?thesis by simp
  qed
qed simp

section \<open>Properties\<close>

text \<open>
  C20: The circuit breaker of a mesh implements the abstract gate: over any sequence of reconciliations,
  with whatever observations and clock readings, its counters, state and time of opening represent
  exactly the state of the gate, which counts failures, rejects until the recovery time is over,
  reopens at the first failure of a probe and closes after enough successes in a row.
\<close>

theorem mesh_breaker_refines_gate:
  assumes "parse_timeout_seconds B cfg = Inr d"
  shows "gate_of (foldl (breaker_step B) (CircuitBreakerState cfg) es) = foldl (gate_tick cfg d) (Counting 0) es"
  using gate_of_run [OF breaker_ok_new assms, of es] by (simp add: gate_of_def CircuitBreakerState_def)

definition example_breaker_spec :: circuit_breaker_spec where
  "example_breaker_spec =
     \<lparr>cbs_enabled = True, cbs_failure_threshold = 2, cbs_recovery_timeout = ''5s'', cbs_success_threshold = 1\<rparr>"

definition operator_builtins :: builtins where
  "operator_builtins = \<lparr>repr_of = (\<lambda>_. []), float_of_str = [''0.5'' \<mapsto> 1 / 2], int_of_str = [''5'' \<mapsto> 5], dict_of_iter = (\<lambda>_. Inr [])\<rparr>"

lemma example_timeout: "parse_timeout_seconds operator_builtins example_breaker_spec = Inr 5"
  by (simp add: parse_timeout_seconds_def ends_with_def example_breaker_spec_def operator_builtins_def)

theorem mesh_breaker_refines_gate_witness:
  "gate_of (foldl (breaker_step operator_builtins) (CircuitBreakerState example_breaker_spec)
     [(True, 1, 1), (False, 2, 2), (True, 3, 3), (False, 9, 9)]) = Probing 0"
  unfolding mesh_breaker_refines_gate [OF example_timeout]
  by (simp add: gate_tick_def example_breaker_spec_def)

text \<open>
  The breaker opens at the failed reconciliation that makes their number the threshold, and not
  before, whatever successful reconciliations lie in between: failures need not be consecutive. After
  that failure it is open until the recovery time is over.
\<close>

theorem mesh_breaker_trips:
  assumes d: "parse_timeout_seconds B cfg = Inr d"
    and n: "int (length (filter fst es)) + 1 = cbs_failure_threshold cfg"
    and early: "list_all (\<lambda>(f, t1, t2). t2 - t < of_int d) fs" "t' - t < of_int d"
  shows "mb_state (foldl (breaker_step B) (CircuitBreakerState cfg) es) = MeshClosed \<and>
    mb_state (foldl (breaker_step B) (CircuitBreakerState cfg) (es @ (True, t, t') # fs)) = MeshOpen"
proof -
  let ?run = "\<lambda>es. foldl (breaker_step B) (CircuitBreakerState cfg) es"
  have gate: "gate_of (?run es) = foldl (gate_tick cfg d) (Counting 0) es" for es
    using gate_of_run [OF breaker_ok_new d, of es] by (simp add: gate_of_def CircuitBreakerState_def)
  have counted: "gate_of (?run es) = Counting (length (filter fst es))" using n by (simp add: gate gate_counts)
  have "foldl (gate_tick cfg d) (Rejecting t) fs = Rejecting t"
    using early(1) by (induction fs) (auto simp: gate_tick_def)
  then have "gate_of (?run (es @ (True, t, t') # fs)) = Rejecting t"
    using n early(2) unfolding gate by (simp add: gate_counts gate_tick_def)
  with counted show ?thesis by (auto simp: gate_of_def split: breaker_state.splits)
qed

theorem mesh_breaker_trips_witness:
  "mb_state (foldl (breaker_step operator_builtins) (CircuitBreakerState example_breaker_spec)
     ([(True, 1, 1), (False, 2, 2)] @ (True, 3, 3) # [(False, 7, 7)])) = MeshOpen"
proof -
  have "int (length (filter fst [(True, 1 :: rat, 1 :: rat), (False, 2, 2)])) + 1 = cbs_failure_threshold example_breaker_spec"
    by (simp add: example_breaker_spec_def)
  from mesh_breaker_trips [OF example_timeout this, of 3 "[(False, 7, 7)]" 3] show ?thesis by simp
qed


section \<open>Lemmas: the ConfigMap\<close>

lemma configmap_manifest_name: "manifest_name (build_routing_configmap dumps mesh ns m refs) = Some (configmap_name mesh)"
  by (simp add: build_routing_configmap_def)

lemma patch_agents_frame:
  assumes "configmap_server call cm"
  shows "keeps (\<lambda>s. cm (world s) = v) (patch_agents call ns mesh m)"
  unfolding patch_agents_def patch_agent_deployment_with_configmap_def
proof (rule keeps_fold, rule keeps_log, rule api_frame)
  fix n w
  show "cm (fst (call (PatchDeployment n ns (routing_env_patch (configmap_name mesh))) w)) = cm w"
    by (rule server_other [OF assms]) simp
qed

lemma patch_agents_world:
  assumes "configmap_server call cm" "patch_agents call ns mesh m s = (t, r)"
  shows "cm (world t) = cm (world s)"
  using keepsD [OF patch_agents_frame [OF assms(1), where v = "cm (world s)" and ns = ns and mesh = mesh and m = m], of s] assms(2)
  by simp

lemma breaker_world:
  "get_or_create_circuit_breaker key cfg s = (t, r) \<Longrightarrow> world t = world s"
  by (auto simp: get_or_create_circuit_breaker_def split: option.splits)

lemma create_tolerated:
  assumes server: "configmap_server call cm" and b: "manifest_name b = Some n"
    and run: "tolerate 409 (api call (CreateConfigMap ns b)) s = (t, Inr u)"
  shows "cm (world t) = (if cm (world s) (ns, n) = None then (cm (world s))((ns, n) \<mapsto> b) else cm (world s))"
proof -
  from run consider v where "api call (CreateConfigMap ns b) s = (t, Inr v)"
    | "api call (CreateConfigMap ns b) s = (t, Inl (ApiException 409))"
    unfolding tolerate_Inr by blast
  then show ?thesis
  proof cases
    case 1
    then have "call (CreateConfigMap ns b) (world s) = (world t, Inr v)" by (rule api_world)
    from server_created [OF server b this] show ?thesis by simp
  next
    case 2
    then have "call (CreateConfigMap ns b) (world s) = (world t, Inl (ApiException 409))" by (rule api_world)
    from server_conflict [OF server b this] server_raised [OF server this] show ?thesis by auto
  qed
qed

lemma replace_or_create:
  assumes server: "configmap_server call cm" and b: "manifest_name b = Some n"
    and run: "try_op (api call (ReplaceConfigMap n ns b))
       (\<lambda>x. if x = ApiException 404 then api call (CreateConfigMap ns b) else raise_op x) s = (t, Inr u)"
  shows "cm (world t) = (cm (world s))((ns, n) \<mapsto> b)"
proof -
  from run consider "api call (ReplaceConfigMap n ns b) s = (t, Inr u)"
    | s' where "api call (ReplaceConfigMap n ns b) s = (s', Inl (ApiException 404))" "api call (CreateConfigMap ns b) s' = (t, Inr u)"
    unfolding try_op_Inr by (auto split: if_splits)
  then show ?thesis
  proof cases
    case 1
    then have "call (ReplaceConfigMap n ns b) (world s) = (world t, Inr u)" by (rule api_world)
    then show ?thesis by (rule server_replaced [OF server])
  next
    case (2 s')
    from 2(1) have "call (ReplaceConfigMap n ns b) (world s) = (world s', Inl (ApiException 404))" by (rule api_world)
    then have kept: "cm (world s') = cm (world s)" by (rule server_raised [OF server])
    from 2(2) have "call (CreateConfigMap ns b) (world s') = (world t, Inr u)" by (rule api_world)
    from server_created [OF server b this] kept show ?thesis by simp
  qed
qed


lemma delete_logged:
  assumes server: "configmap_server call cm" and run: "log_failure (api call (DeleteConfigMap n ns)) s = (t, Inr u)"
  shows "cm (world t) = (cm (world s))((ns, n) := None) \<or>
    cm (world t) = cm (world s) \<and> (\<exists>st. st \<noteq> 404 \<and> snd (call (DeleteConfigMap n ns) (world s)) = Inl (ApiException st))"
proof -
  from run consider v where "api call (DeleteConfigMap n ns) s = (t, Inr v)"
    | st where "api call (DeleteConfigMap n ns) s = (t, Inl (ApiException st))"
    unfolding log_failure_Inr by blast
  then show ?thesis
  proof cases
    case (1 v)
    then have "call (DeleteConfigMap n ns) (world s) = (world t, Inr v)" by (rule api_world)
    from server_deleted [OF server this] show ?thesis by simp
  next
    case (2 st)
    then have answer: "call (DeleteConfigMap n ns) (world s) = (world t, Inl (ApiException st))" by (rule api_world)
    note kept = server_raised [OF server this]
    show ?thesis
    proof (cases "st = 404")
      case True
      with server_missing [OF server, of n ns "world s" "world t"] answer have "cm (world s) (ns, n) = None" by simp
      with kept show ?thesis by (auto simp: fun_eq_iff)
    qed (use kept answer in auto)
  qed
qed

lemma create_configmap:
  assumes server: "configmap_server call cm"
    and run: "on_mesh_create cfg model_validate dumps call name ns spec meta s = (t, Inr st)"
    and spec: "model_validate spec = Inr m"
  shows "\<exists>uid. dict_get meta ''uid'' = Some uid \<and>
    cm (world t) = (if cm (world s) (ns, configmap_name name) = None
      then (cm (world s))((ns, configmap_name name) \<mapsto> build_routing_configmap dumps name ns m (mesh_owner_references name uid))
      else cm (world s))"
proof -
  from run obtain s1 uid s2 u s3 v s4 w where
    e: "ensure_k8s_client cfg s = (s1, Inr ())" and uid: "dict_get meta ''uid'' = Some uid"
    and c: "tolerate 409 (api call (CreateConfigMap ns
        (build_routing_configmap dumps name ns m (mesh_owner_references name uid)))) s1 = (s2, Inr u)"
    and p: "patch_agents call ns name m s2 = (s3, Inr v)"
    and b: "(if cbs_enabled (ms_circuit_breaker m)
            then bind_op (get_or_create_circuit_breaker (mesh_key ns name) (ms_circuit_breaker m)) (\<lambda>_. return_op ())
            else return_op ()) s3 = (s4, Inr w)" and t: "t = s4"
    unfolding on_mesh_create_def bind_op_Inr validated_def lift_op_def
    by (cases "dict_get meta ''uid''") (auto simp: spec)
  from b have "world t = world s3" unfolding t by (auto simp: bind_op_Inr breaker_world split: if_splits)
  moreover note patch_agents_world [OF server p] create_tolerated [OF server configmap_manifest_name c] ensure_result [OF e]
  ultimately show ?thesis using uid by simp
qed

lemma update_configmap:
  assumes server: "configmap_server call cm"
    and run: "on_mesh_update cfg model_validate dumps call name ns spec s = (t, Inr ())"
    and spec: "model_validate spec = Inr m"
  shows "cm (world t) = (cm (world s))((ns, configmap_name name) \<mapsto> build_routing_configmap dumps name ns m [])"
proof -
  let ?b = "build_routing_configmap dumps name ns m []"
  from run obtain s1 s2 u where e: "ensure_k8s_client cfg s = (s1, Inr ())"
    and r: "try_op (api call (ReplaceConfigMap (configmap_name name) ns ?b))
      (\<lambda>x. if x = ApiException 404 then api call (CreateConfigMap ns ?b) else raise_op x) s1 = (s2, Inr u)"
    and p: "patch_agents call ns name m s2 = (t, Inr ())"
    unfolding on_mesh_update_def bind_op_Inr validated_def lift_op_def Let_def by (auto simp: spec)
  from patch_agents_world [OF server p] replace_or_create [OF server configmap_manifest_name r] ensure_result [OF e]
  show ?thesis by simp
qed

lemma delete_configmap:
  assumes server: "configmap_server call cm" and run: "on_mesh_delete cfg call name ns s = (t, Inr ())"
  shows "dict_get (circuit_breakers t) (mesh_key ns name) = None \<and>
    (cm (world t) = (cm (world s))((ns, configmap_name name) := None) \<or>
     cm (world t) = cm (world s) \<and>
     (\<exists>code. code \<noteq> 404 \<and> snd (call (DeleteConfigMap (configmap_name name) ns) (world s)) = Inl (ApiException code)))"
proof -
  from run obtain s1 s2 u where e: "ensure_k8s_client cfg s = (s1, Inr ())"
    and d: "log_failure (api call (DeleteConfigMap (configmap_name name) ns)) s1 = (s2, Inr u)"
    and t: "t = s2\<lparr>circuit_breakers := dict_del (mesh_key ns name) (circuit_breakers s2)\<rparr>"
    unfolding on_mesh_delete_def bind_op_Inr by auto
  from delete_logged [OF server d] ensure_result [OF e] t show ?thesis by simp
qed


text \<open>A server that stores ConfigMaps in a map and knows no Deployment.\<close>

fun example_server :: "(string \<times> string \<Rightarrow> json option) cluster" where
  "example_server (CreateConfigMap ns b) w =
     (case manifest_name b of
        None \<Rightarrow> (w, Inl (ApiException 422))
      | Some n \<Rightarrow> if w (ns, n) = None then (w((ns, n) \<mapsto> b), Inr b) else (w, Inl (ApiException 409)))"
| "example_server (ReplaceConfigMap n ns b) w =
     (if w (ns, n) = None then (w, Inl (ApiException 404)) else (w((ns, n) \<mapsto> b), Inr b))"
| "example_server (DeleteConfigMap n ns) w =
     (if w (ns, n) = None then (w, Inl (ApiException 404)) else (w((ns, n) := None), Inr JNull))"
| "example_server _ w = (w, Inl (ApiException 404))"

lemma example_server_ok: "configmap_server example_server id"
proof -
  have law1: "w' = w" if "example_server c w = (w', Inl x)" for c w w' x
    using that by (cases c) (auto split: option.splits if_splits)
  have law2: "fst (example_server c w) = w" if "\<not> configmap_call c" for c w
    using that by (cases c) auto
  have law3: "w (ns, n) = None \<and> w' = w((ns, n) \<mapsto> b)"
    if "manifest_name b = Some n" "example_server (CreateConfigMap ns b) w = (w', Inr r)" for ns b n w w' r
    using that by (auto split: if_splits)
  have law4: "w (ns, n) \<noteq> None"
    if "manifest_name b = Some n" "example_server (CreateConfigMap ns b) w = (w', Inl (ApiException 409))" for ns b n w w'
    using that by (auto split: if_splits)
  have law5: "w' = w((ns, n) \<mapsto> b)" if "example_server (ReplaceConfigMap n ns b) w = (w', Inr r)" for n ns b w w' r
    using that by (auto split: if_splits)
  have law6: "w' = w((ns, n) := None)" if "example_server (DeleteConfigMap n ns) w = (w', Inr r)" for n ns w w' r
    using that by (auto split: if_splits)
  have law7: "w (ns, n) = None" if "example_server (DeleteConfigMap n ns) w = (w', Inl (ApiException 404))" for n ns w w'
    using that by (auto split: if_splits)
  show ?thesis unfolding configmap_server_def id_apply
    by (intro conjI allI impI; (rule law3 [THEN conjunct1] law3 [THEN conjunct2] law4 law5 law6 law7 law2 law1, assumption+))
qed

definition example_mesh :: agent_mesh_spec where
  "example_mesh =
     \<lparr>ms_agents = [\<lparr>ar_name = ''a'', ar_ref = ''r'', ar_role = ''worker'', ar_weight = 1\<rparr>], ms_topology = ''parallel'',
      ms_circuit_breaker = example_breaker_spec,
      ms_observability = \<lparr>tracing = True, metrics = True, cost_tracking = True, log_level = ''info''\<rparr>,
      ms_routing = \<lparr>rs_retry_policy = \<lparr>rp_max_attempts = 3, rp_backoff_seconds = 1, rp_backoff_multiplier = 2\<rparr>,
        rs_timeout_seconds = 30, rs_dead_letter_queue = True\<rparr>,
      ms_policy = None\<rparr>"

definition example_controller :: "(string \<times> string \<Rightarrow> json option) mesh_controller" where
  "example_controller = \<lparr>world = Map.empty, k8s_initialised = True, circuit_breakers = []\<rparr>"

definition example_client :: client_config where
  "example_client = \<lparr>load_incluster_config = Inr (), load_kube_config = Inr ()\<rparr>"

lemmas operator_run = on_mesh_update_def bind_op_def validated_def lift_op_def Let_def try_op_def api_def log_failure_def
  patch_agents_def patch_agent_deployment_with_configmap_def ensure_k8s_client_def example_controller_def example_client_def



section \<open>Lemmas: the observation of the agents\<close>

text \<open>The phase that an answer about an agent reports (\<open>JNull\<close> when there is none).\<close>

definition reported_phase :: "exn + json \<Rightarrow> json" where
  "reported_phase r =
     (case r of
        Inl _ \<Rightarrow> JNull
      | Inr obj \<Rightarrow>
          (case and_then (py_get obj ''status'' (JObj [])) (\<lambda>status. py_get status ''phase'' (JStr ''Pending'')) of
             Inl _ \<Rightarrow> JNull | Inr v \<Rightarrow> v))"

definition is_running :: "exn + json \<Rightarrow> bool" where
  "is_running r \<longleftrightarrow> reported_phase r = JStr ''Running''"

definition is_failed :: "exn + json \<Rightarrow> bool" where
  "is_failed r \<longleftrightarrow> reported_phase r = JStr ''Failed'' \<or> reported_phase r = JStr ''Terminated''"

text \<open>An answer the reconciliation can read: a refusal of the server, or an object whose status is an
  object and whose cost, if any, is a number or a string.\<close>

definition readable :: "builtins \<Rightarrow> exn + json \<Rightarrow> bool" where
  "readable B r = (case r of Inl x \<Rightarrow> is_api_exception x | Inr obj \<Rightarrow> \<not> isl (observe_agent B obj (0, 0, 0)))"

lemma observe_agent_counts:
  assumes "readable B (Inr obj)"
  shows "\<exists>c. observe_agent B obj (a, f, z) =
    Inr (a + (if is_running (Inr obj) then 1 else 0), f + (if is_failed (Inr obj) then 1 else 0), c)"
proof -
  obtain st ph co where st: "py_get obj ''status'' (JObj []) = Inr st"
    and ph: "py_get st ''phase'' (JStr ''Pending'') = Inr ph" and co: "py_get st ''totalCost'' JNull = Inr co"
  proof -
    have "\<exists>v. observe_agent B obj (0, 0, 0) = Inr v" using assms
      by (cases "observe_agent B obj (0, 0, 0)") (simp_all add: readable_def del: split_paired_Ex)
    then show ?thesis using that by (auto simp: observe_agent_def and_then_Inr)
  qed
  obtain c where c: "(if truthy co then (case py_float B co of
      Inr v \<Rightarrow> Inr (z + v) | Inl x \<Rightarrow> if is_value_error x then Inr z else Inl x) else Inr z) = Inr c"
    using assms by (auto simp: readable_def observe_agent_def st ph co split: sum.splits if_splits)
  show ?thesis
    by (intro exI [of _ c])
      (auto simp: observe_agent_def st ph co c is_running_def is_failed_def reported_phase_def)
qed

lemma agent_tick_counts:
  assumes ans: "\<And>w. snd (call (GetAgent ns (ar_ref a)) w) = r" and r: "readable B r"
  shows "\<exists>t c. agent_tick B call ns a (n, f, z) s =
      (t, Inr (n + (if is_running r then 1 else 0), f + (if is_failed r then 1 else 0), c)) \<and>
    controller.more t = controller.more s"
proof -
  obtain w' where call: "call (GetAgent ns (ar_ref a)) (world s) = (w', r)"
    using ans [of "world s"] by (cases "call (GetAgent ns (ar_ref a)) (world s)") simp
  show ?thesis
  proof (cases r)
    case (Inl x)
    with r have "is_api_exception x" by (simp add: readable_def)
    with Inl show ?thesis
      by (simp add: agent_tick_def try_op_def bind_op_def api_def call is_running_def is_failed_def reported_phase_def)
  next
    case (Inr obj)
    from observe_agent_counts [of B obj n f z] r Inr obtain c where
      "observe_agent B obj (n, f, z) = Inr (n + (if is_running r then 1 else 0), f + (if is_failed r then 1 else 0), c)"
      by blast
    with Inr show ?thesis by (simp add: agent_tick_def try_op_def bind_op_def api_def call lift_op_def)
  qed
qed

lemma agent_ticks_count:
  assumes "\<And>a w. a \<in> set as \<Longrightarrow> snd (call (GetAgent ns (ar_ref a)) w) = obs (ar_ref a)"
    and "\<And>a. a \<in> set as \<Longrightarrow> readable B (obs (ar_ref a))"
  shows "\<exists>t c. fold_op (agent_tick B call ns) as (n, f, z) s =
      (t, Inr (n + length (filter (\<lambda>a. is_running (obs (ar_ref a))) as),
               f + length (filter (\<lambda>a. is_failed (obs (ar_ref a))) as), c)) \<and>
    controller.more t = controller.more s"
  using assms
proof (induction as arbitrary: n f z s)
  case (Cons a as)
  have ans: "snd (call (GetAgent ns (ar_ref a)) w) = obs (ar_ref a)" for w by (rule Cons.prems(1)) simp
  have r: "readable B (obs (ar_ref a))" by (rule Cons.prems(2)) simp
  let ?n = "n + (if is_running (obs (ar_ref a)) then 1 else 0)" and ?f = "f + (if is_failed (obs (ar_ref a)) then 1 else 0)"
  obtain t c where t: "agent_tick B call ns a (n, f, z) s = (t, Inr (?n, ?f, c))" "controller.more t = controller.more s"
    using agent_tick_counts [where call = call and ns = ns and a = a and n = n and f = f and s = s, OF ans r] by blast
  obtain t' c' where "fold_op (agent_tick B call ns) as (?n, ?f, c) t =
      (t', Inr (?n + length (filter (\<lambda>a. is_running (obs (ar_ref a))) as),
               ?f + length (filter (\<lambda>a. is_failed (obs (ar_ref a))) as), c'))" "controller.more t' = controller.more t"
    using Cons.IH [of ?n ?f c t] Cons.prems by auto
  with t show ?case by (auto simp: bind_op_def)
qed simp


lemma mesh_phase_cases:
  "mesh_phase (length (filter P xs)) (length (filter Q xs)) (length xs) =
     (if list_all P xs then ''Ready'' else if list_ex P xs then ''Degraded'' else if list_ex Q xs then ''Failed'' else ''Forming'')"
proof -
  have "length (filter P xs) = length xs \<longleftrightarrow> list_all P xs" for P
    using length_filter_less [of _ xs P] by (fastforce simp: list_all_iff intro: filter_True)
  moreover have "length (filter P xs) = 0 \<longleftrightarrow> \<not> list_ex P xs" for P by (auto simp: filter_empty_conv list_ex_iff)
  ultimately show ?thesis unfolding mesh_phase_def by (auto simp del: length_0_conv length_greater_0_conv)
qed

lemma update_breaker_run:
  assumes "\<not> isl (snd (breaker_tick B failing t1 t2 (dict_get_or (circuit_breakers s) key (CircuitBreakerState cfg))))"
  shows "\<exists>t. update_breaker B key cfg failing t1 t2 s =
      (t, Inr (breaker_state_value (mb_state (fst (breaker_tick B failing t1 t2 (dict_get_or (circuit_breakers s) key (CircuitBreakerState cfg))))))) \<and>
    dict_get (circuit_breakers t) = (dict_get (circuit_breakers s))(key \<mapsto>
      fst (breaker_tick B failing t1 t2 (dict_get_or (circuit_breakers s) key (CircuitBreakerState cfg))))"
  using assms
  by (cases "breaker_tick B failing t1 t2 (dict_get_or (circuit_breakers s) key (CircuitBreakerState cfg))")
    (auto simp: update_breaker_def bind_op_def get_or_create_circuit_breaker_def dict_get_or_def split: option.splits sum.splits)

lemma breaker_tick_returns:
  assumes "parse_timeout_seconds B (mb_config b) = Inr d"
  shows "\<not> isl (snd (breaker_tick B failing t1 t2 b))"
proof -
  have "\<not> isl (snd (maybe_probe B t2 c))" if "mb_config c = mb_config b" for c
    using assms that by (simp add: maybe_probe_def split: option.split)
  then show ?thesis unfolding breaker_tick_def
    by (simp add: record_failure_def record_success_def Let_def)
qed



definition running_answer :: "exn + json" where
  "running_answer = Inr (JObj [(''status'', JObj [(''phase'', JStr ''Running''), (''totalCost'', JStr ''0.5'')])])"


end
