(* ===== verification/Agent_Operator.thy ===== *)
theory Agent_Operator
  imports Mesh_Operator
begin

text \<open>
  \<open>k8s/operator/controllers/agent_controller.py\<close>: the Deployment and the Service of an Agent resource, the
  environment of its container, and the handlers for creation, update, deletion and the periodic
  reconciliation with its budget. The validation against the pydantic models, the environment of the
  operator, the clock and the cluster are parameters, as they are for the mesh controller.
\<close>

section \<open>The validated specification\<close>

record model_spec =
  md_provider :: string
  md_name :: string
  md_max_tokens :: int

record budget_spec =
  max_cost_per_hour :: "string option"
  max_tokens_per_hour :: "int option"
  alert_threshold :: rat

definition validate_threshold :: "rat \<Rightarrow> exn + rat" where
  "validate_threshold value =
     (if \<not> (0 < value \<and> value \<le> 1) then Inl (ValueError ''alertThreshold'') else Inr value)"

record agent_spec =
  as_image :: string
  as_capabilities :: "string list"
  as_replicas :: int
  as_model :: model_spec
  as_budget :: budget_spec
  as_trust_level :: string
  as_policy :: "string option"
  as_env :: "(string, json) dict list"
  as_resources :: "(string, json) dict"

section \<open>Manifests\<close>

definition deployment_name :: "string \<Rightarrow> string" where
  "deployment_name agent = ''agent-'' @ agent"

definition service_name :: "string \<Rightarrow> string" where
  "service_name agent = ''agent-'' @ agent @ ''-svc''"

text \<open>\<open>e["name"]\<close>, collected into a set: a list or an object is not hash_name.\<close>

fun hash_name :: "json \<Rightarrow> exn + json" where
  "hash_name (JList _) = Inl (TypeError ''unhashable'')"
| "hash_name (JObj _) = Inl (TypeError ''unhashable'')"
| "hash_name v = Inr v"

definition env_name :: "(string, json) dict \<Rightarrow> exn + json" where
  "env_name e = and_then (need (KeyError ''name'') (dict_get e ''name'')) hash_name"

definition operator_vars :: "builtins \<Rightarrow> agent_spec \<Rightarrow> (string, json) dict list" where
  "operator_vars B sp =
     [[(''name'', JStr ''AUMOS_AGENT_TRUST_LEVEL''), (''value'', JStr (as_trust_level sp))],
      [(''name'', JStr ''AUMOS_MODEL_PROVIDER''), (''value'', JStr (md_provider (as_model sp)))],
      [(''name'', JStr ''AUMOS_MODEL_NAME''), (''value'', JStr (md_name (as_model sp)))],
      [(''name'', JStr ''AUMOS_MAX_TOKENS''), (''value'', JStr (py_str B (JInt (md_max_tokens (as_model sp)))))]]"

fun add_missing :: "json list \<Rightarrow> (string, json) dict list \<Rightarrow> (string, json) dict list \<Rightarrow> (string, json) dict list" where
  "add_missing existing [] env = env"
| "add_missing existing (v # vs) env =
     add_missing existing vs (if dict_get_or v ''name'' JNull \<notin> set existing then env @ [v] else env)"

definition build_env_list :: "builtins \<Rightarrow> agent_spec \<Rightarrow> exn + (string, json) dict list" where
  "build_env_list B sp =
     and_then (traverse env_name (as_env sp)) (\<lambda>existing. Inr (add_missing existing (operator_vars B sp) (as_env sp)))"

fun join_with :: "string \<Rightarrow> string list \<Rightarrow> string" where
  "join_with sep [] = []"
| "join_with sep [x] = x"
| "join_with sep (x # xs) = x @ sep @ join_with sep xs"

definition deployment_labels :: "string \<Rightarrow> agent_spec \<Rightarrow> (string, json) dict" where
  "deployment_labels name sp =
     [(''app.kubernetes.io/name'', JStr name), (''app.kubernetes.io/component'', JStr ''agent''),
      (''app.kubernetes.io/managed-by'', JStr ''aumos-operator''),
      (''aumos.ai/capabilities'', JStr (join_with '','' (slice_to (as_capabilities sp) 5)))]"

definition agent_container :: "(string, json) dict list \<Rightarrow> agent_spec \<Rightarrow> (string, json) dict" where
  "agent_container env sp =
     (let container =
        [(''name'', JStr ''agent''), (''image'', JStr (as_image sp)), (''env'', JList (map JObj env)),
         (''ports'', JList [JObj [(''containerPort'', JInt 8080), (''name'', JStr ''http'')]]),
         (''livenessProbe'', JObj [
            (''httpGet'', JObj [(''path'', JStr ''/healthz''), (''port'', JInt 8080)]),
            (''initialDelaySeconds'', JInt 10), (''periodSeconds'', JInt 30), (''failureThreshold'', JInt 3)]),
         (''readinessProbe'', JObj [
            (''httpGet'', JObj [(''path'', JStr ''/readyz''), (''port'', JInt 8080)]),
            (''initialDelaySeconds'', JInt 5), (''periodSeconds'', JInt 10)])]
      in if as_resources sp \<noteq> [] then dict_set ''resources'' (JObj (as_resources sp)) container else container)"

definition build_deployment_manifest ::
    "builtins \<Rightarrow> (string \<Rightarrow> string option) \<Rightarrow> string \<Rightarrow> string \<Rightarrow> agent_spec \<Rightarrow> json list \<Rightarrow> exn + json" where
  "build_deployment_manifest B getenv name ns sp owner_references =
     and_then (build_env_list B sp) (\<lambda>env. Inr (
       JObj [(''apiVersion'', JStr ''apps/v1''), (''kind'', JStr ''Deployment''),
         (''metadata'', JObj [
            (''name'', JStr (deployment_name name)), (''namespace'', JStr ns),
            (''labels'', JObj (deployment_labels name sp)), (''ownerReferences'', JList owner_references)]),
         (''spec'', JObj [
            (''replicas'', JInt (as_replicas sp)),
            (''selector'', JObj [(''matchLabels'', JObj [(''app.kubernetes.io/name'', JStr name)])]),
            (''template'', JObj [
               (''metadata'', JObj [(''labels'', JObj (deployment_labels name sp))]),
               (''spec'', JObj [
                  (''containers'', JList [JObj (agent_container env sp)]),
                  (''serviceAccountName'',
                     JStr (case getenv ''AGENT_SERVICE_ACCOUNT'' of None \<Rightarrow> ''default'' | Some a \<Rightarrow> a))])])])]))"

definition build_service_manifest :: "string \<Rightarrow> string \<Rightarrow> json list \<Rightarrow> json" where
  "build_service_manifest name ns owner_references =
     JObj [(''apiVersion'', JStr ''v1''), (''kind'', JStr ''Service''),
       (''metadata'', JObj [
          (''name'', JStr (service_name name)), (''namespace'', JStr ns),
          (''labels'', JObj [(''app.kubernetes.io/name'', JStr name), (''app.kubernetes.io/managed-by'', JStr ''aumos-operator'')]),
          (''ownerReferences'', JList owner_references)]),
       (''spec'', JObj [
          (''clusterIP'', JStr ''None''),
          (''selector'', JObj [(''app.kubernetes.io/name'', JStr name)]),
          (''ports'', JList [JObj [(''port'', JInt 8080), (''name'', JStr ''http''), (''targetPort'', JInt 8080)]])])]"

definition agent_owner_references :: "string \<Rightarrow> json \<Rightarrow> json list" where
  "agent_owner_references name uid =
     [JObj [(''apiVersion'', JStr ''aumos.ai/v1alpha1''), (''kind'', JStr ''Agent''), (''name'', JStr name),
        (''uid'', uid), (''controller'', JBool True), (''blockOwnerDeletion'', JBool True)]]"

section \<open>Handlers\<close>

definition on_agent_create ::
    "client_config \<Rightarrow> ((string, json) dict \<Rightarrow> exn + agent_spec) \<Rightarrow> builtins \<Rightarrow> (string \<Rightarrow> string option) \<Rightarrow> 'w cluster \<Rightarrow>
     string \<Rightarrow> string \<Rightarrow> (string, json) dict \<Rightarrow> (string, json) dict \<Rightarrow> ('w controller, json) op" where
  "on_agent_create cfg model_validate B getenv call name ns spec meta =
     bind_op (ensure_k8s_client cfg) (\<lambda>_.
     bind_op (validated ''Invalid Agent spec'' model_validate spec) (\<lambda>sp.
     bind_op (lift_op (need (KeyError ''uid'') (dict_get meta ''uid''))) (\<lambda>uid.
     bind_op (lift_op (build_deployment_manifest B getenv name ns sp (agent_owner_references name uid))) (\<lambda>deployment.
     bind_op (tolerate 409 (api call (CreateDeployment ns deployment))) (\<lambda>_.
     bind_op (tolerate 409 (api call (CreateService ns (build_service_manifest name ns (agent_owner_references name uid))))) (\<lambda>_.
     return_op (JObj [(''phase'', JStr ''Pending''), (''readyReplicas'', JInt 0)])))))))"

definition agent_patch :: "(string, json) dict list \<Rightarrow> agent_spec \<Rightarrow> json" where
  "agent_patch env sp =
     JObj [(''spec'', JObj [
        (''replicas'', JInt (as_replicas sp)),
        (''template'', JObj [(''spec'', JObj [(''containers'', JList [JObj [
           (''name'', JStr ''agent''), (''image'', JStr (as_image sp)), (''env'', JList (map JObj env))]])])])])]"

definition on_agent_update ::
    "client_config \<Rightarrow> ((string, json) dict \<Rightarrow> exn + agent_spec) \<Rightarrow> builtins \<Rightarrow> 'w cluster \<Rightarrow>
     string \<Rightarrow> string \<Rightarrow> (string, json) dict \<Rightarrow> ('w controller, unit) op" where
  "on_agent_update cfg model_validate B call name ns spec =
     bind_op (ensure_k8s_client cfg) (\<lambda>_.
     bind_op (validated ''Invalid Agent spec'' model_validate spec) (\<lambda>sp.
     bind_op (lift_op (build_env_list B sp)) (\<lambda>env.
     tolerate 404 (api call (PatchDeployment (deployment_name name) ns (agent_patch env sp))))))"

definition on_agent_delete :: "client_config \<Rightarrow> 'w cluster \<Rightarrow> string \<Rightarrow> string \<Rightarrow> ('w controller, unit) op" where
  "on_agent_delete cfg call name ns =
     bind_op (ensure_k8s_client cfg) (\<lambda>_.
     fold_op (\<lambda>c _. log_failure (api call c)) [DeleteDeployment (deployment_name name) ns, DeleteService (service_name name) ns] ())"

text \<open>\<open>deployment.status.ready_replicas or 0\<close>; the attribute is an integer or \<open>None\<close>.\<close>

fun attr :: "json \<Rightarrow> string \<Rightarrow> exn + json" where
  "attr (JObj d) k = need (AttributeError k) (dict_get d k)"
| "attr _ k = Inl (AttributeError k)"

definition ready_replicas :: "json \<Rightarrow> exn + json" where
  "ready_replicas deployment =
     and_then (attr deployment ''status'') (\<lambda>st. and_then (attr st ''ready_replicas'') (\<lambda>v.
       Inr (if truthy v then v else JInt 0)))"

text \<open>A value as a number, for \<open>==\<close> and \<open>>\<close>.\<close>

fun number :: "json \<Rightarrow> rat option" where
  "number (JInt n) = Some (of_int n)"
| "number (JFloat x) = Some x"
| "number (JBool b) = Some (if b then 1 else 0)"
| "number _ = None"

definition num_eq :: "json \<Rightarrow> json \<Rightarrow> bool" where
  "num_eq v w = (case number v of Some x \<Rightarrow> number w = Some x | None \<Rightarrow> v = w)"

definition py_positive :: "json \<Rightarrow> exn + bool" where
  "py_positive v = (case number v of Some x \<Rightarrow> Inr (x > 0) | None \<Rightarrow> Inl (TypeError ''>''))"

definition agent_phase :: "json \<Rightarrow> json \<Rightarrow> exn + string" where
  "agent_phase ready desired =
     and_then (if num_eq ready desired then py_positive desired else Inr False) (\<lambda>full.
     Inr (if full then ''Running''
          else if num_eq ready (JInt 0) \<and> num_eq desired (JInt 0) then ''Suspended''
          else if num_eq ready (JInt 0) then ''Pending''
          else ''Running''))"

text \<open>The budget: whether the agent is to be suspended. A \<open>ValueError\<close> of a conversion means it is not.\<close>

definition budget_exceeded :: "builtins \<Rightarrow> json \<Rightarrow> json \<Rightarrow> json \<Rightarrow> json \<Rightarrow> exn + bool" where
  "budget_exceeded B budget max_cost_str total_cost_str desired =
     and_then (py_float B max_cost_str) (\<lambda>max_cost.
     and_then (py_float B total_cost_str) (\<lambda>total_cost.
     and_then (and_then (py_get budget ''alertThreshold'' (JFloat (8 / 10))) (py_float B)) (\<lambda>_.
     if total_cost \<ge> max_cost then py_positive desired else Inr False)))"

definition suspend_patch :: json where
  "suspend_patch = JObj [(''spec'', JObj [(''replicas'', JInt 0)])]"

definition enforce_budget ::
    "builtins \<Rightarrow> 'w cluster \<Rightarrow> string \<Rightarrow> string \<Rightarrow> (string, json) dict \<Rightarrow> json \<Rightarrow> json \<Rightarrow> (string, json) dict \<Rightarrow>
     ('w controller, (string, json) dict) op" where
  "enforce_budget B call name ns spec status desired patch =
     bind_op (lift_op (and_then (Inr (dict_get_or spec ''budget'' (JObj []))) (\<lambda>budget.
        and_then (py_get budget ''maxCostPerHour'' JNull) (\<lambda>mx.
        and_then (py_get status ''totalCost'' JNull) (\<lambda>total.
        Inr (budget, mx, total)))))) (\<lambda>(budget, mx, total).
     if \<not> (truthy mx \<and> truthy total) then return_op patch
     else case budget_exceeded B budget mx total desired of
       Inl x \<Rightarrow> if is_value_error x then return_op patch else raise_op x
     | Inr False \<Rightarrow> return_op patch
     | Inr True \<Rightarrow>
         try_op (bind_op (api call (PatchDeployment (deployment_name name) ns suspend_patch)) (\<lambda>_.
           return_op (dict_set ''phase'' (JStr ''Suspended'') patch)))
           (\<lambda>x. if is_value_error x then return_op patch else raise_op x))"

text \<open>The result is what is set in \<open>patch.status\<close>; a Deployment that is not there sets nothing.\<close>

definition reconcile_agent_status ::
    "client_config \<Rightarrow> builtins \<Rightarrow> status_texts \<Rightarrow> 'w cluster \<Rightarrow> timestamp \<Rightarrow> string \<Rightarrow> string \<Rightarrow> (string, json) dict \<Rightarrow> json \<Rightarrow>
     ('w controller, (string, json) dict) op" where
  "reconcile_agent_status cfg B T call now name ns spec status =
     bind_op (ensure_k8s_client cfg) (\<lambda>_.
     bind_op (try_op (bind_op (api call (ReadDeployment (deployment_name name) ns)) (\<lambda>d. return_op (Some d)))
        (\<lambda>x. if x = ApiException 404 then return_op None else raise_op x)) (\<lambda>found.
     case found of
       None \<Rightarrow> return_op []
     | Some deployment \<Rightarrow>
         bind_op (lift_op (ready_replicas deployment)) (\<lambda>ready.
         let desired = dict_get_or spec ''replicas'' (JInt 1) in
         bind_op (lift_op (agent_phase ready desired)) (\<lambda>phase.
         enforce_budget B call name ns spec status desired
           [(''phase'', JStr phase), (''readyReplicas'', ready), (''lastHeartbeat'', JStr (time_text T now))]))))"


section \<open>Lemmas\<close>

lemma add_missing_filter:
  "add_missing existing vs env = env @ filter (\<lambda>v. dict_get_or v ''name'' JNull \<notin> set existing) vs"
  by (induction vs arbitrary: env) auto

lemma traverse_defined:
  "traverse f xs = Inr ys \<Longrightarrow> x \<in> set xs \<Longrightarrow> \<exists>y \<in> set ys. f x = Inr y"
proof (induction xs arbitrary: ys)
  case (Cons x' xs)
  from Cons.prems(1) obtain z zs where z: "f x' = Inr z" "traverse f xs = Inr zs" "ys = z # zs" by (auto simp: and_then_Inr)
  with Cons.IH [OF z(2)] Cons.prems(2) show ?case by auto
qed simp

lemma env_name_Inr: "env_name e = Inr v \<Longrightarrow> dict_get e ''name'' = Some v"
proof -
  assume "env_name e = Inr v"
  then obtain w where "dict_get e ''name'' = Some w" "hash_name w = Inr v"
    by (cases "dict_get e ''name''") (auto simp: env_name_def and_then_Inr)
  then show ?thesis by (cases w) auto
qed

text \<open>What a container sees of a variable: the last entry of its name wins.\<close>

definition env_lookup :: "(string, json) dict list \<Rightarrow> json \<Rightarrow> (string, json) dict option" where
  "env_lookup env v = List.find (\<lambda>e. dict_get e ''name'' = Some v) (rev env)"

lemma env_lookup_None: "env_lookup env v = None \<longleftrightarrow> (\<forall>e \<in> set env. dict_get e ''name'' \<noteq> Some v)"
  by (auto simp: env_lookup_def find_None_iff)

lemma env_lookup_append: "env_lookup (xs @ ys) v = (case env_lookup ys v of None \<Rightarrow> env_lookup xs v | Some e \<Rightarrow> Some e)"
  by (simp add: env_lookup_def find_append split: option.split)

lemma find_filter: "List.find Q (filter P xs) = List.find (\<lambda>x. P x \<and> Q x) xs"
  by (induction xs) auto

lemma build_env_list_lookup:
  assumes "build_env_list B sp = Inr env"
  shows "env_lookup env v =
    (case env_lookup (as_env sp) v of Some e \<Rightarrow> Some e | None \<Rightarrow> env_lookup (operator_vars B sp) v)"
proof -
  from assms obtain existing where ex: "traverse env_name (as_env sp) = Inr existing"
    and env: "env = as_env sp @ filter (\<lambda>v. dict_get_or v ''name'' JNull \<notin> set existing) (operator_vars B sp)"
    by (auto simp: build_env_list_def and_then_Inr add_missing_filter)
  have names: "v \<in> set existing \<longleftrightarrow> env_lookup (as_env sp) v \<noteq> None"
  proof
    assume "v \<in> set existing"
    from traverse_elems [OF ex this] show "env_lookup (as_env sp) v \<noteq> None"
      unfolding env_lookup_None by (auto dest: env_name_Inr)
  next
    assume "env_lookup (as_env sp) v \<noteq> None"
    then obtain e where e: "e \<in> set (as_env sp)" "dict_get e ''name'' = Some v" unfolding env_lookup_None by auto
    from traverse_defined [OF ex e(1)] e(2) show "v \<in> set existing" by (auto dest: env_name_Inr)
  qed
  have "env_lookup (filter (\<lambda>v. dict_get_or v ''name'' JNull \<notin> set existing) vs) v =
      (if v \<in> set existing then None else env_lookup vs v)" for vs
  proof (cases "v \<in> set existing")
    case True
    then show ?thesis by (auto simp: env_lookup_None dict_get_or_def)
  next
    case False
    then have "(dict_get_or e ''name'' JNull \<notin> set existing \<and> dict_get e ''name'' = Some v) = (dict_get e ''name'' = Some v)" for e
      by (auto simp: dict_get_or_def)
    with False show ?thesis by (simp add: env_lookup_def rev_filter find_filter)
  qed
  with names show ?thesis unfolding env env_lookup_append
    by (cases "env_lookup (as_env sp) v"; cases "env_lookup (operator_vars B sp) v") simp_all
qed

section \<open>Properties\<close>

text \<open>
  The environment of an agent's container: when it can be built, the variables of the specification
  come first and unchanged, a variable that they define has their value even when the operator would
  set it, and the four variables of the operator are otherwise there with the values of the
  specification; it can be built exactly when every entry of the specification has a usable name.
\<close>

theorem agent_environment:
  "(case build_env_list B sp of
      Inr env \<Rightarrow> take (length (as_env sp)) env = as_env sp \<and>
        (\<forall>v. env_lookup env v = (case env_lookup (as_env sp) v of
           Some e \<Rightarrow> Some e | None \<Rightarrow> env_lookup (operator_vars B sp) v))
    | Inl x \<Rightarrow> \<exists>e \<in> set (as_env sp). env_name e = Inl x) \<and>
   list_all (\<lambda>e. env_lookup (operator_vars B sp) (dict_get_or e ''name'' JNull) = Some e) (operator_vars B sp)"
proof -
  have raised: "\<exists>e \<in> set xs. f e = Inl x" if "traverse f xs = Inl x" for f :: "'a \<Rightarrow> exn + 'b" and xs x
    using that
  proof (induction xs)
    case (Cons e xs)
    then show ?case by (cases "f e"; cases "traverse f xs") auto
  qed simp
  show ?thesis
  proof (cases "build_env_list B sp")
    case (Inl x)
    then have "traverse env_name (as_env sp) = Inl x"
      by (cases "traverse env_name (as_env sp)") (simp_all add: build_env_list_def)
    with raised Inl show ?thesis by (simp add: env_lookup_def operator_vars_def dict_get_or_def)
  next
    case (Inr env)
    then have "take (length (as_env sp)) env = as_env sp"
      by (auto simp: build_env_list_def and_then_Inr add_missing_filter)
    with Inr build_env_list_lookup [OF Inr] show ?thesis by (simp add: env_lookup_def operator_vars_def dict_get_or_def)
  qed
qed




text \<open>\<open>v[k1][k2]...\<close> as far as it is there.\<close>

fun at_path :: "string list \<Rightarrow> json \<Rightarrow> json option" where
  "at_path [] v = Some v"
| "at_path (k # ks) (JObj d) = (case dict_get d k of None \<Rightarrow> None | Some v \<Rightarrow> at_path ks v)"
| "at_path (k # ks) v = None"

text \<open>Labels that a selector selects.\<close>

definition selected :: "json option \<Rightarrow> json option \<Rightarrow> bool" where
  "selected selector labels =
     (case (selector, labels) of
        (Some (JObj sel), Some (JObj ls)) \<Rightarrow> list_all (\<lambda>(k, v). dict_get ls k = Some v) sel
      | _ \<Rightarrow> False)"

text \<open>
  The two controllers agree on the names that connect a mesh to its agents. The Deployment and the
  Service of an agent are stored under the names that the agent controller uses to patch and delete
  them; the pods of the Deployment are selected by it and by the Service; the endpoint that the routing
  ConfigMap of a mesh gives for an agent is the DNS name of that Service, and the Deployment that the
  mesh controller patches is that Deployment.
\<close>

theorem mesh_agent_wiring:
  assumes "build_deployment_manifest B getenv (ar_ref a) ns sp refs = Inr d"
  shows "manifest_name d = Some (deployment_name (ar_ref a)) \<and>
    manifest_name (build_service_manifest (ar_ref a) ns refs) = Some (service_name (ar_ref a)) \<and>
    selected (at_path [''spec'', ''selector'', ''matchLabels''] d) (at_path [''spec'', ''template'', ''metadata'', ''labels''] d) \<and>
    selected (at_path [''spec'', ''selector''] (build_service_manifest (ar_ref a) ns refs))
      (at_path [''spec'', ''template'', ''metadata'', ''labels''] d) \<and>
    at_path [''serviceEndpoint''] (agent_entry ns a) =
      Some (JStr (service_name (ar_ref a) @ ''.'' @ ns @ ''.svc.cluster.local:8080'')) \<and>
    patch_agent_deployment_with_configmap call (ar_ref a) ns cmn =
      log_failure (api call (PatchDeployment (deployment_name (ar_ref a)) ns (routing_env_patch cmn)))"
proof -
  from assms obtain env where "build_env_list B sp = Inr env" by (auto simp: build_deployment_manifest_def and_then_Inr)
  with assms have d: "d = JObj [(''apiVersion'', JStr ''apps/v1''), (''kind'', JStr ''Deployment''),
      (''metadata'', JObj [(''name'', JStr (deployment_name (ar_ref a))), (''namespace'', JStr ns),
         (''labels'', JObj (deployment_labels (ar_ref a) sp)), (''ownerReferences'', JList refs)]),
      (''spec'', JObj [(''replicas'', JInt (as_replicas sp)),
         (''selector'', JObj [(''matchLabels'', JObj [(''app.kubernetes.io/name'', JStr (ar_ref a))])]),
         (''template'', JObj [(''metadata'', JObj [(''labels'', JObj (deployment_labels (ar_ref a) sp))]),
            (''spec'', JObj [(''containers'', JList [JObj (agent_container env sp)]),
               (''serviceAccountName'', JStr (case getenv ''AGENT_SERVICE_ACCOUNT'' of None \<Rightarrow> ''default'' | Some a \<Rightarrow> a))])])])]"
    by (simp add: build_deployment_manifest_def)
  show ?thesis unfolding d
    by (simp add: build_service_manifest_def selected_def deployment_labels_def agent_entry_def service_name_def deployment_name_def
      patch_agent_deployment_with_configmap_def)
qed

definition operator_agent :: agent_spec where
  "operator_agent = \<lparr>as_image = ''i'', as_capabilities = [''x''], as_replicas = 1,
     as_model = \<lparr>md_provider = ''p'', md_name = ''n'', md_max_tokens = 4096\<rparr>,
     as_budget = \<lparr>max_cost_per_hour = None, max_tokens_per_hour = None, alert_threshold = 8 / 10\<rparr>,
     as_trust_level = ''basic'', as_policy = None, as_env = [], as_resources = []\<rparr>"

theorem mesh_agent_wiring_witness:
  "at_path [''serviceEndpoint''] (agent_entry ''ns'' \<lparr>ar_name = ''x'', ar_ref = ''a'', ar_role = ''worker'', ar_weight = 1\<rparr>) =
     Some (JStr ''agent-a-svc.ns.svc.cluster.local:8080'')"
proof -
  let ?a = "\<lparr>ar_name = ''x'', ar_ref = ''a'', ar_role = ''worker'', ar_weight = 1\<rparr>"
  have "\<exists>d. build_deployment_manifest operator_builtins Map.empty (ar_ref ?a) ''ns'' operator_agent [] = Inr d"
    by (simp add: build_deployment_manifest_def build_env_list_def operator_agent_def)
  then obtain d where "build_deployment_manifest operator_builtins Map.empty (ar_ref ?a) ''ns'' operator_agent [] = Inr d" ..
  from mesh_agent_wiring [OF this, where call = example_server and cmn = "[]", THEN conjunct2, THEN conjunct2, THEN conjunct2,
    THEN conjunct2, THEN conjunct1] show ?thesis by (simp add: service_name_def)
qed


text \<open>
  The deletion of an agent always tries to remove both its Deployment and its Service, in this order,
  and returns, even when the server refuses either.
\<close>

theorem agent_cleanup_complete:
  assumes init: "k8s_initialised s" and refusals: "\<forall>c w x. snd (call c w) = Inl x \<longrightarrow> is_api_exception x"
  shows "on_agent_delete cfg call name ns s =
    (s\<lparr>world := fst (call (DeleteService (service_name name) ns) (fst (call (DeleteDeployment (deployment_name name) ns) (world s))))\<rparr>, Inr ())"
proof -
  have logged: "log_failure (api call c) t = (t\<lparr>world := fst (call c (world t))\<rparr>, Inr ())" for c and t :: "'a controller"
  proof -
    obtain w r where ans: "call c (world t) = (w, r)" by fastforce
    have "is_api_exception x" if "r = Inl x" for x using refusals ans that by (metis snd_conv)
    with ans show ?thesis by (cases r) (simp_all add: log_failure_def try_op_def bind_op_def api_def)
  qed
  show ?thesis by (simp add: on_agent_delete_def bind_op_def ensure_k8s_client_def init logged)
qed

theorem agent_cleanup_complete_witness:
  "on_agent_delete example_client (\<lambda>c w. (w @ [c], Inl (ApiException 500))) ''a'' ''ns'' \<lparr>world = [], k8s_initialised = True\<rparr> =
     (\<lparr>world = [DeleteDeployment ''agent-a'' ''ns'', DeleteService ''agent-a-svc'' ''ns''], k8s_initialised = True\<rparr>, Inr ())"
  using agent_cleanup_complete [of "\<lparr>world = [], k8s_initialised = True\<rparr>" "\<lambda>c w. (w @ [c], Inl (ApiException 500))"
    example_client "''a''" "''ns''"] by (simp add: deployment_name_def service_name_def)

end
