(* ===== verification/Spec2Isabelle.thy ===== *)
theory Spec2Isabelle
  imports Mesh_Prelude Messages Serializer Circuit_Breaker Health_Check Endpoint_Balancer Retry_Policy
    Fallbacks Resource_Quota Deadlock_Detector Routing_Table Routing_Strategy Consensus Reports
    Backpressure_Monitor Throttle Task_Queue Broker_Queues Topic_Manager Message_Broker Fleet Fleet_Monitor A2A
    Agent_Card Plugin_Registry Tracing Traced_Delivery Quickstart_Router Transports Health_Command Entry_Points Workflow
    Parallel_Workflow Hierarchical_Workflow Racing_Workflow Timed_Steps YAML_Workflow Cluster_API Mesh_Operator
    Agent_Operator
begin

text \<open>
  A verification development of agent-mesh-router, a Python package for the communication of agents:
  messages, routing, a broker, a fleet of agents, resilience, back-pressure, workflows, the A2A
  protocol, and a Kubernetes operator. Paths below are relative to \<open>src/src/agent_mesh_router\<close>, those that
  begin with \<open>k8s\<close> to \<open>src\<close>.

  \<^bold>\<open>How the program is put together.\<close> An agent sends a \<open>MessageEnvelope\<close>. The route resolver asks a
  strategy to rank the agents of the routing table; the broker queues the envelope by priority, chooses
  its targets (receiver, topic, broadcast) and offers it to their handlers, with retries and a
  dead-letter queue; a transport carries it as JSON to another process. The tracing middleware marks
  envelopes on the way. The fleet registry and its monitor know which agents are alive; quotas, the
  deadlock detector, the circuit breaker, the endpoint balancer with its health checks, the retry policy
  and the fallbacks protect the agents; the monitor, the throttle and the task queue slow producers down.
  Workflow executors run steps through callables of the agents. The operator maintains Deployments,
  Services and routing ConfigMaps for agents and meshes.

  \<^bold>\<open>How it is modelled.\<close> A class is a record of its attributes, an enumeration a datatype, a method a
  function of the state and its arguments. A method that may raise gives an \<open>outcome\<close>: the state at the
  point where it returned or raised, and \<open>Inl\<close> the exception or \<open>Inr\<close> the result, so that what an
  operation changed before it raised is kept. Dictionaries are insertion-ordered association lists,
  integers are \<open>int\<close>, floats exact rationals (rounding, infinities and NaN are left out), strings lists
  of the code points below 256. What a method reads from outside is an argument: the clock, new
  identifiers, random draws, the answer of a handler, of a probe, of a client library or of the API
  server. Third-party code (the json and msgpack encoders, pydantic, PyYAML, httpx, aiokafka, redis, kopf,
  the kubernetes client) is a parameter; where a property needs something of it, that is a hypothesis
  which states its documented behaviour (the codec decodes what it encoded; \<open>configmap_server\<close>), and a
  witness shows that it can hold. Locks and tasks: a section between two awaits or under a lock is one
  step, and properties about concurrency speak of every interleaving of the steps.

  \<^bold>\<open>The theories.\<close>
  \<^item> \<open>Mesh_Prelude\<close>: Python values and library functions, the exceptions, the outcome type, and the
    locales for the contracts that components share: \<open>inv_system\<close> and \<open>guarded_inv_system\<close> (what one step
    keeps every run keeps), \<open>keyed_store\<close> (a registry), \<open>rotor\<close> (a fair rotation).
  \<^item> \<open>Messages\<close> (\<open>messages/types.py\<close>, \<open>messages/envelope.py\<close>) and \<open>Serializer\<close> (\<open>messages/serializer.py\<close>):
    envelopes, their derivation and JSON form; both encodings give back every envelope.
  \<^item> \<open>Routing_Table\<close> (\<open>routing/table.py\<close>), \<open>Routing_Strategy\<close> (\<open>routing/strategy.py\<close>, \<open>routing/resolver.py\<close>),
    \<open>Quickstart_Router\<close> (\<open>convenience.py\<close>): the invariant of the table, the contract \<open>ranking_contract\<close> of a
    strategy, what a resolved route promises, fairness of the rotation.
  \<^item> \<open>Broker_Queues\<close> (\<open>broker/queue.py\<close>, \<open>broker/dead_letter.py\<close>), \<open>Topic_Manager\<close> (\<open>broker/pubsub.py\<close>),
    \<open>Message_Broker\<close> (\<open>broker/message_broker.py\<close>): order and expiry in the queue, the two topic indexes as a
    refinement of a set of subscriptions, the targets of a message, delivery and dead letters, the
    conservation of messages while the broker runs.
  \<^item> \<open>Tracing\<close> (\<open>middleware/tracing.py\<close>) and \<open>Traced_Delivery\<close> (the broker calling handlers that the middleware
    wraps): the context along a chain of hops; the one envelope object that all attempts and dead
    letters of a message share, and that tracing leaves the deliveries as they are.
  \<^item> \<open>Fleet\<close> and \<open>Fleet_Monitor\<close> (\<open>fleet\<close>): the registry, the health monitor and the balancer; the background
    loop as a step relation over the clock, with a bound on how long a silent agent is still offered.
  \<^item> \<open>Circuit_Breaker\<close>, \<open>Health_Check\<close>, \<open>Endpoint_Balancer\<close>, \<open>Retry_Policy\<close>, \<open>Fallbacks\<close> (\<open>resilience\<close>): the
    state machine of the breaker with its bounds, the status of an endpoint as a function of its probes,
    proportional selection by weight, the retry loop, the answers of fallbacks. \<open>Health_Command\<close>
    (\<open>cli/resilience_commands.py\<close>) composes endpoints and health checks: the exit code of the command.
  \<^item> \<open>Resource_Quota\<close> (\<open>quotas\<close>), \<open>Deadlock_Detector\<close> (\<open>deadlock\<close>), \<open>Consensus\<close> (\<open>consensus\<close>): quotas are never
    exceeded, the reported cycles are exactly the simple cycles of the wait-for relation, the winners of
    the three protocols under the contract \<open>consensus_contract\<close>. \<open>Reports\<close>: what the three write into
    their dictionaries and summaries.
  \<^item> \<open>Backpressure_Monitor\<close>, \<open>Throttle\<close>, \<open>Task_Queue\<close> (\<open>backpressure\<close>): the score, the bound on granted tokens,
    the queue under the contract \<open>bounded_fifo\<close> and under concurrent calls.
  \<^item> \<open>Workflow\<close>, \<open>Parallel_Workflow\<close>, \<open>Hierarchical_Workflow\<close>, \<open>Racing_Workflow\<close>, \<open>YAML_Workflow\<close> (\<open>workflows\<close>):
    the executors, the two cycle checks and their equivalence with acyclicity, the agreement of the
    executors, schedule independence, the YAML schema and engine. \<open>Timed_Steps\<close>: the steps of all
    executors in time, with timeouts and cancellation; with timeouts the executors end in bounded time
    and with the results of the untimed ones, without them they may wait for ever.
  \<^item> \<open>A2A\<close> and \<open>Agent_Card\<close> (\<open>a2a\<close>): tasks and their permitted transitions, discovery, the bridge, cards.
  \<^item> \<open>Plugin_Registry\<close> (\<open>plugins/registry.py\<close>): entry points and the classes that are registered.
  \<^item> \<open>Transports\<close> (\<open>adapters\<close>): HTTP with retries, Kafka and Redis under the contracts \<open>transport\<close> and
    \<open>exact_transport\<close>; what arrives is the envelope that was sent.
  \<^item> \<open>Cluster_API\<close>, \<open>Mesh_Operator\<close>, \<open>Agent_Operator\<close> (\<open>k8s/operator/controllers\<close>): the handlers of the operator
    as operations on a cluster that answers API calls; the breaker of a mesh as a refinement of an
    abstract gate, the life of the routing ConfigMap, the status of a mesh, the budget of an agent, and
    the agreement of the two controllers on the names they share. \<open>Entry_Points\<close> (\<open>k8s/operator/main.py\<close>,
    \<open>cli/main.py\<close>, \<open>adapters/grpc_adapter.py\<close>): start and end of the operator, fixed texts, the gRPC base class.

  \<^bold>\<open>Loops and fuel.\<close> Loops over data are structural recursions. The depth-first searches of
  \<open>Deadlock_Detector\<close> terminate by the agents not yet on the path; the
  recursive functions of \<open>Hierarchical_Workflow\<close> get the number of steps as fuel, which stands for the
  depth of the recursion and is shown to be enough.
  Loops that retry are recursions on the attempts left. The endless loops of the broker's workers and of
  the fleet monitor are step relations, run for any number of steps in any order. A wait that may never
  end has the result \<open>None\<close> (\<open>Timed_Steps\<close>), and that the executors return is proved, not assumed.

  \<^bold>\<open>What is not modelled.\<close> Log messages, \<open>__repr__\<close> and the texts of exceptions beyond the value they
  name; rounding of floats; code points above 255; the package initialisers, which only re-export names;
  the command-line groups and the printed tables; the time that computing takes between two waits. The
  TypeScript client, the Helm chart and the examples are not part of the Python implementation.
\<close>

end
